(* ===== verification/Prelude.thy ===== *)
theory Prelude
  imports Complex_Main "HOL-Library.Word"
begin

text \<open>
  Shared vocabulary of the development: the machine types of the sources, the
  exceptions they throw, the outcome type of fallible operations and the generic
  lemmas on lists and 64-bit words that several components use.

  \<^item> \<open>size_t\<close>, \<open>std::uint64_t\<close> and \<open>sequence_key\<close> are 64-bit words whose
    arithmetic wraps around; \<open>std::int64_t\<close> timestamps are only compared and stored,
    so they are integers.
  \<^item> A \<open>throw\<close> is the left summand of \<open>'a outcome\<close>; reading through an iterator
    that must not be dereferenced is the exception value \<open>Undefined_behaviour\<close>, and a
    call of \<open>std::terminate\<close> by the run-time library is \<open>Terminate\<close>.
\<close>

type_synonym u64 = "64 word"
type_synonym size_t = "64 word"
type_synonym time_s = int

datatype exn =
    Runtime_error string
  | Invalid_argument string
  | Filesystem_error string
  | System_error string
  | Undefined_behaviour string
  | Terminate

type_synonym 'a outcome = "exn + 'a"

named_theorems word_size_simps
  \<open>reading 64-bit counters as natural numbers\<close>

section \<open>Lists\<close>

lemma takeWhile_length_le [simp]: "length (takeWhile P xs) \<le> length xs"
  by (induction xs) auto

lemma remove1_split:
  assumes "x \<in> set xs"
  obtains ys zs where "xs = ys @ x # zs" and "x \<notin> set ys" and "remove1 x xs = ys @ zs"
proof -
  from split_list_first [OF assms] obtain ys zs where "xs = ys @ x # zs" "x \<notin> set ys"
    by blast
  then show thesis by (auto intro!: that simp: remove1_append)
qed

lemma sum_list_remove1_word:
  fixes f :: "'a \<Rightarrow> 'w::len word"
  shows "x \<in> set xs \<Longrightarrow> sum_list (map f (remove1 x xs)) = sum_list (map f xs) - f x"
  by (induction xs) auto

lemma sorted_wrt_remove1: "sorted_wrt P xs \<Longrightarrow> sorted_wrt P (remove1 x xs)"
  by (induction xs) (auto dest: notin_set_remove1 set_remove1_subset [THEN subsetD])

lemma map_remove1_inj_on:
  "inj_on f (insert x (set xs)) \<Longrightarrow> map f (remove1 x xs) = remove1 (f x) (map f xs)"
  by (induction xs) (auto simp: inj_on_def)

lemma filter_remove1_key:
  "distinct (map k xs) \<Longrightarrow> x \<in> set xs \<Longrightarrow> filter (\<lambda>y. k y \<noteq> k x) xs = remove1 x xs"
proof (induction xs)
  case (Cons a xs)
  show ?case
  proof (cases "a = x")
    case True
    with Cons.prems have "\<forall>y \<in> set xs. k y \<noteq> k x" by (auto simp: image_iff)
    with True show ?thesis by (simp add: filter_id_conv)
  next
    case False
    with Cons.prems have "k a \<noteq> k x" by (auto simp: image_iff)
    with False Cons show ?thesis by auto
  qed
qed simp

section \<open>Splitting strings at a character\<close>

fun split_on :: "char \<Rightarrow> string \<Rightarrow> string list" where
  "split_on c [] = [[]]"
| "split_on c (x # xs) =
     (if x = c then [] # split_on c xs else (x # hd (split_on c xs)) # tl (split_on c xs))"

lemma split_on_nonempty [simp]: "split_on c s \<noteq> []"
  by (cases s) simp_all

lemma split_on_no_sep [simp]: "c \<notin> set s \<Longrightarrow> split_on c s = [s]"
  by (induction s) auto

lemma split_on_snoc_sep: "split_on c (s @ c # t) = split_on c s @ split_on c t"
  by (induction s) auto

section \<open>64-bit counters\<close>

lemma unat_of_nat_u64 [word_size_simps]:
  "n < 2 ^ 64 \<Longrightarrow> unat (of_nat n :: u64) = n"
  by (simp add: unat_of_nat)

lemma unat_u64_bound: "unat (w :: u64) < 2 ^ 64"
  using unsigned_less [of w, where 'a = nat] by simp

lemma unat_Suc_u64 [word_size_simps]:
  "unat (w :: u64) < 2 ^ 64 - 1 \<Longrightarrow> unat (w + 1) = Suc (unat w)"
  by (simp add: unat_word_ariths)

lemma of_nat_u64_inject:
  "i < 2 ^ 64 \<Longrightarrow> j < 2 ^ 64 \<Longrightarrow> (of_nat i :: u64) = of_nat j \<longleftrightarrow> i = j"
  by (metis unat_of_nat_u64)

lemma unat_add_no_overflow_u64:
  "unat (a :: u64) + unat b < 2 ^ 64 \<Longrightarrow> unat (a + b) = unat a + unat b"
  by (simp add: unat_word_ariths)

lemma unat_sum_list_u64:
  "sum_list (map (\<lambda>x. unat (f x)) xs) < 2 ^ 64 \<Longrightarrow>
   unat (sum_list (map f xs) :: u64) = sum_list (map (\<lambda>x. unat (f x)) xs)"
proof (induction xs)
  case (Cons x xs)
  then have "unat (sum_list (map f xs)) = (\<Sum>x\<leftarrow>xs. unat (f x))" by simp
  with Cons.prems show ?case by (simp add: unat_add_no_overflow_u64)
qed simp

end
