(* ===== verification/Thread_Safe_Queue.thy ===== *)
theory Thread_Safe_Queue
  imports Prelude
begin

text \<open>
  \<open>src/data_structures/thread_safe/thread_safe_queue.hpp\<close>: the bounded double-ended
  queue, one definition per member function. Every member takes \<open>mutex_queue\<close> for its
  whole critical section, so a member is a function from the state before the critical
  section to its result, the notification it sends to \<open>waiting\<close> after the mutex is
  released, and the state after it. The lvalue and rvalue overloads of a member differ
  only in copying or moving the item, so each pair is one definition.

  The template arguments \<open>EnableMaxSize\<close> and \<open>EnableMaxBytes\<close> and the specialised
  \<open>queue_size_traits<T>::get\<close> are the record \<open>queue_template\<close>.
\<close>

section \<open>State and operations\<close>

record 'a queue_template =
  EnableMaxSize :: bool
  EnableMaxBytes :: bool
  traits_get :: "'a \<Rightarrow> size_t"

record 'a thread_safe_queue =
  dequeue :: "'a list"
  stopped :: bool
  maximum_size :: size_t
  maximum_bytes :: size_t
  current_bytes :: size_t

datatype notification = Notify_none | Notify_one | Notify_all

definition new_queue :: "size_t \<Rightarrow> size_t \<Rightarrow> 'a thread_safe_queue" where
  "new_queue msize mbytes =
     \<lparr>dequeue = [], stopped = False, maximum_size = msize, maximum_bytes = mbytes,
      current_bytes = 0\<rparr>"

definition queue_front :: "'a thread_safe_queue \<Rightarrow> 'a outcome" where
  "queue_front q = (case dequeue q of
      [] \<Rightarrow> Inl (Runtime_error ''Queue is empty'')
    | x # _ \<Rightarrow> Inr x)"

definition queue_back :: "'a thread_safe_queue \<Rightarrow> 'a outcome" where
  "queue_back q = (if dequeue q = [] then Inl (Runtime_error ''Queue is empty'')
             else Inr (last (dequeue q)))"

definition pre_addition_check_protocol ::
    "'a queue_template \<Rightarrow> 'a \<Rightarrow> 'a thread_safe_queue \<Rightarrow> bool \<times> 'a thread_safe_queue" where
  "pre_addition_check_protocol tp item q =
     (if stopped q then (False, q)
      else if EnableMaxSize tp \<and> maximum_size q \<noteq> 0
              \<and> unat (maximum_size q) \<le> length (dequeue q) then (False, q)
      else if EnableMaxBytes tp \<and> maximum_bytes q \<noteq> 0 then
        (let bytes = traits_get tp item in
         if current_bytes q > maximum_bytes q
            \<or> bytes > maximum_bytes q - current_bytes q then (False, q)
         else (True, q\<lparr>current_bytes := current_bytes q + bytes\<rparr>))
      else (True, q))"

definition unchecked_addition_protocol ::
    "'a queue_template \<Rightarrow> 'a \<Rightarrow> 'a thread_safe_queue \<Rightarrow> 'a thread_safe_queue" where
  "unchecked_addition_protocol tp item q =
     (if EnableMaxBytes tp \<and> maximum_bytes q \<noteq> 0
      then q\<lparr>current_bytes := current_bytes q + traits_get tp item\<rparr> else q)"

definition removal_protocol ::
    "'a queue_template \<Rightarrow> 'a \<Rightarrow> 'a thread_safe_queue \<Rightarrow> 'a thread_safe_queue" where
  "removal_protocol tp item q =
     (if EnableMaxBytes tp \<and> maximum_bytes q \<noteq> 0
      then q\<lparr>current_bytes := current_bytes q - traits_get tp item\<rparr> else q)"

definition try_push_back ::
    "'a queue_template \<Rightarrow> 'a \<Rightarrow> 'a thread_safe_queue \<Rightarrow>
     bool \<times> notification \<times> 'a thread_safe_queue" where
  "try_push_back tp item q =
     (let (ok, q1) = pre_addition_check_protocol tp item q in
      if \<not> ok then (False, Notify_none, q1)
      else (True, Notify_one, q1\<lparr>dequeue := dequeue q1 @ [item]\<rparr>))"

definition try_push_front ::
    "'a queue_template \<Rightarrow> 'a \<Rightarrow> 'a thread_safe_queue \<Rightarrow>
     bool \<times> notification \<times> 'a thread_safe_queue" where
  "try_push_front tp item q =
     (let (ok, q1) = pre_addition_check_protocol tp item q in
      if \<not> ok then (False, Notify_none, q1)
      else (True, Notify_one, q1\<lparr>dequeue := item # dequeue q1\<rparr>))"

definition push_back ::
    "'a queue_template \<Rightarrow> 'a \<Rightarrow> 'a thread_safe_queue \<Rightarrow> notification \<times> 'a thread_safe_queue" where
  "push_back tp item q =
     (let q1 = unchecked_addition_protocol tp item q in
      (Notify_one, q1\<lparr>dequeue := dequeue q1 @ [item]\<rparr>))"

definition push_front ::
    "'a queue_template \<Rightarrow> 'a \<Rightarrow> 'a thread_safe_queue \<Rightarrow> notification \<times> 'a thread_safe_queue" where
  "push_front tp item q =
     (let q1 = unchecked_addition_protocol tp item q in
      (Notify_one, q1\<lparr>dequeue := item # dequeue q1\<rparr>))"

definition empty :: "'a thread_safe_queue \<Rightarrow> bool" where
  "empty q \<longleftrightarrow> dequeue q = []"

definition queue_size :: "'a thread_safe_queue \<Rightarrow> nat" where
  "queue_size q = length (dequeue q)"

definition max_size :: "'a queue_template \<Rightarrow> 'a thread_safe_queue \<Rightarrow> size_t" where
  "max_size tp q = (if EnableMaxSize tp then maximum_size q else 0)"

definition max_bytes :: "'a queue_template \<Rightarrow> 'a thread_safe_queue \<Rightarrow> size_t" where
  "max_bytes tp q = (if EnableMaxBytes tp then maximum_bytes q else 0)"

definition clear :: "'a thread_safe_queue \<Rightarrow> 'a thread_safe_queue" where
  "clear q = q\<lparr>dequeue := [], current_bytes := 0\<rparr>"

definition pop_front ::
    "'a queue_template \<Rightarrow> 'a thread_safe_queue \<Rightarrow> 'a outcome \<times> 'a thread_safe_queue" where
  "pop_front tp q = (case dequeue q of
      [] \<Rightarrow> (Inl (Runtime_error ''Queue is empty''), q)
    | item # rest \<Rightarrow> (Inr item, (removal_protocol tp item q)\<lparr>dequeue := rest\<rparr>))"

definition pop_back ::
    "'a queue_template \<Rightarrow> 'a thread_safe_queue \<Rightarrow> 'a outcome \<times> 'a thread_safe_queue" where
  "pop_back tp q =
     (if dequeue q = [] then (Inl (Runtime_error ''Queue is empty''), q)
      else let item = last (dequeue q) in
        (Inr item, (removal_protocol tp item q)\<lparr>dequeue := butlast (dequeue q)\<rparr>))"

text \<open>
  \<open>wait_and_pop\<close> evaluates its wait predicate with the mutex held: where the predicate is
  false the thread blocks on the condition variable (\<open>Blocks\<close>) and evaluates it again
  when it is woken; where it is true the member runs to its return.
\<close>

datatype 'a wait_result = Blocks | Returns "'a option"

definition wait_predicate :: "'a thread_safe_queue \<Rightarrow> bool" where
  "wait_predicate q \<longleftrightarrow> stopped q \<or> dequeue q \<noteq> []"

definition wait_and_pop ::
    "'a queue_template \<Rightarrow> 'a thread_safe_queue \<Rightarrow> 'a wait_result \<times> 'a thread_safe_queue" where
  "wait_and_pop tp q =
     (if \<not> wait_predicate q then (Blocks, q)
      else case dequeue q of
        [] \<Rightarrow> (Returns None, q)
      | item # rest \<Rightarrow> (Returns (Some item), (removal_protocol tp item q)\<lparr>dequeue := rest\<rparr>))"

definition stop :: "'a thread_safe_queue \<Rightarrow> notification \<times> 'a thread_safe_queue" where
  "stop q = (if stopped q then (Notify_none, q) else (Notify_all, q\<lparr>stopped := True\<rparr>))"

definition to_vector :: "'a thread_safe_queue \<Rightarrow> 'a list" where
  "to_vector q = dequeue q"

text \<open>
  The loop of \<open>replace\<close>: \<open>replace_append\<close> is its body up to the size check,
  \<open>replace_loop\<close> carries the items still to visit and the local \<open>current_size\<close>.
\<close>

definition replace_append ::
    "'a queue_template \<Rightarrow> 'a \<Rightarrow> 'a thread_safe_queue \<Rightarrow> 'a thread_safe_queue" where
  "replace_append tp item q =
     (let q1 = q\<lparr>dequeue := dequeue q @ [item]\<rparr> in
      if EnableMaxBytes tp
      then q1\<lparr>current_bytes := current_bytes q1 + traits_get tp item\<rparr> else q1)"

fun replace_loop ::
    "'a queue_template \<Rightarrow> 'a list \<Rightarrow> size_t \<Rightarrow> 'a thread_safe_queue \<Rightarrow> 'a thread_safe_queue" where
  "replace_loop tp [] current_size q = q"
| "replace_loop tp (item # items) current_size q =
     (let q1 = replace_append tp item q in
      if EnableMaxSize tp \<and> 0 < maximum_size q1 then
        (if maximum_size q1 \<le> current_size + 1 then q1
         else replace_loop tp items (current_size + 1) q1)
      else replace_loop tp items current_size q1)"

definition replace ::
    "'a queue_template \<Rightarrow> 'a list \<Rightarrow> 'a thread_safe_queue \<Rightarrow> 'a thread_safe_queue" where
  "replace tp items q = replace_loop tp items 0 (q\<lparr>dequeue := [], current_bytes := 0\<rparr>)"

lemmas queue_op_defs =
  try_push_back_def try_push_front_def push_back_def push_front_def clear_def
  pop_front_def pop_back_def wait_and_pop_def stop_def
lemmas protocol_defs =
  pre_addition_check_protocol_def unchecked_addition_protocol_def removal_protocol_def

section \<open>The members as one alphabet\<close>

text \<open>
  A client's call, its response and the state change, in one step function: the alphabet
  over which properties of call sequences are stated.
\<close>

datatype 'a queue_call =
    Front | Back | Try_push_back 'a | Try_push_front 'a | Push_back 'a | Push_front 'a
  | Empty | Size | Clear | Pop_front | Pop_back | Wait_and_pop | Stop | To_vector
  | Replace "'a list"

datatype 'a queue_response =
    R_unit | R_bool bool | R_size nat | R_items "'a list" | R_item "'a outcome"
  | R_wait "'a wait_result"

fun call ::
    "'a queue_template \<Rightarrow> 'a queue_call \<Rightarrow> 'a thread_safe_queue \<Rightarrow>
     'a queue_response \<times> notification \<times> 'a thread_safe_queue" where
  "call tp Front q = (R_item (queue_front q), Notify_none, q)"
| "call tp Back q = (R_item (queue_back q), Notify_none, q)"
| "call tp (Try_push_back x) q = (let (ok, n, q') = try_push_back tp x q in (R_bool ok, n, q'))"
| "call tp (Try_push_front x) q = (let (ok, n, q') = try_push_front tp x q in (R_bool ok, n, q'))"
| "call tp (Push_back x) q = (let (n, q') = push_back tp x q in (R_unit, n, q'))"
| "call tp (Push_front x) q = (let (n, q') = push_front tp x q in (R_unit, n, q'))"
| "call tp Empty q = (R_bool (empty q), Notify_none, q)"
| "call tp Size q = (R_size (queue_size q), Notify_none, q)"
| "call tp Clear q = (R_unit, Notify_none, clear q)"
| "call tp Pop_front q = (let (r, q') = pop_front tp q in (R_item r, Notify_none, q'))"
| "call tp Pop_back q = (let (r, q') = pop_back tp q in (R_item r, Notify_none, q'))"
| "call tp Wait_and_pop q = (let (r, q') = wait_and_pop tp q in (R_wait r, Notify_none, q'))"
| "call tp Stop q = (let (n, q') = stop q in (R_unit, n, q'))"
| "call tp To_vector q = (R_items (to_vector q), Notify_none, q)"
| "call tp (Replace xs) q = (R_unit, Notify_none, replace tp xs q)"

abbreviation after_call :: "'a queue_template \<Rightarrow> 'a queue_call \<Rightarrow> 'a thread_safe_queue \<Rightarrow> 'a thread_safe_queue"
  where "after_call tp c q \<equiv> snd (snd (call tp c q))"

fun run_calls :: "'a queue_template \<Rightarrow> 'a queue_call list \<Rightarrow> 'a thread_safe_queue \<Rightarrow> 'a thread_safe_queue" where
  "run_calls tp [] q = q"
| "run_calls tp (c # cs) q = run_calls tp cs (after_call tp c q)"

fun responses_of :: "'a queue_template \<Rightarrow> 'a queue_call list \<Rightarrow> 'a thread_safe_queue \<Rightarrow> 'a queue_response list" where
  "responses_of tp [] q = []"
| "responses_of tp (c # cs) q = fst (call tp c q) # responses_of tp cs (after_call tp c q)"

section \<open>Byte accounting\<close>

text \<open>
  What the counter means when byte limiting is on: the wrap-around sum of the sizes of
  the queued items. \<open>queued_bytes\<close> is the same sum over the natural numbers.
\<close>

definition counts_bytes :: "'a queue_template \<Rightarrow> 'a thread_safe_queue \<Rightarrow> bool" where
  "counts_bytes tp q \<longleftrightarrow> EnableMaxBytes tp \<and> maximum_bytes q \<noteq> 0"

definition bytes_accounted :: "'a queue_template \<Rightarrow> 'a thread_safe_queue \<Rightarrow> bool" where
  "bytes_accounted tp q \<longleftrightarrow>
     (counts_bytes tp q \<longrightarrow> current_bytes q = sum_list (map (traits_get tp) (dequeue q)))"

definition queued_bytes :: "'a queue_template \<Rightarrow> 'a list \<Rightarrow> nat" where
  "queued_bytes tp xs = sum_list (map (\<lambda>x. unat (traits_get tp x)) xs)"

lemma queued_bytes_simps [simp]:
  "queued_bytes tp [] = 0"
  "queued_bytes tp (x # xs) = unat (traits_get tp x) + queued_bytes tp xs"
  "queued_bytes tp (xs @ ys) = queued_bytes tp xs + queued_bytes tp ys"
  by (simp_all add: queued_bytes_def)

lemma bytes_accounted_new [simp]: "bytes_accounted tp (new_queue ms mb)"
  by (simp add: bytes_accounted_def new_queue_def)

lemma replace_append_simps [simp]:
  "dequeue (replace_append tp x q) = dequeue q @ [x]"
  "stopped (replace_append tp x q) = stopped q"
  "maximum_size (replace_append tp x q) = maximum_size q"
  "maximum_bytes (replace_append tp x q) = maximum_bytes q"
  "current_bytes (replace_append tp x q) =
     (if EnableMaxBytes tp then current_bytes q + traits_get tp x else current_bytes q)"
  by (simp_all add: replace_append_def Let_def)

lemma replace_loop_frame [simp]:
  "stopped (replace_loop tp xs k q) = stopped q"
  "maximum_size (replace_loop tp xs k q) = maximum_size q"
  "maximum_bytes (replace_loop tp xs k q) = maximum_bytes q"
  by (induction xs arbitrary: k q) (simp_all add: Let_def)

lemma replace_loop_accounted:
  "bytes_accounted tp q \<Longrightarrow> bytes_accounted tp (replace_loop tp xs k q)"
  by (induction xs arbitrary: k q) (simp_all add: Let_def bytes_accounted_def counts_bytes_def)

lemma replace_accounted [simp]: "bytes_accounted tp (replace tp xs q)"
  unfolding replace_def
  by (rule replace_loop_accounted) (simp add: bytes_accounted_def)

lemma pre_addition_accounted:
  "bytes_accounted tp q \<Longrightarrow> pre_addition_check_protocol tp x q = (True, q') \<Longrightarrow>
   dequeue q' = dequeue q \<and> bytes_accounted tp (q'\<lparr>dequeue := x # dequeue q\<rparr>) \<and>
   bytes_accounted tp (q'\<lparr>dequeue := dequeue q @ [x]\<rparr>)"
  by (auto simp: pre_addition_check_protocol_def bytes_accounted_def counts_bytes_def Let_def
      split: if_splits)

lemma pre_addition_rejects:
  "pre_addition_check_protocol tp x q = (False, q') \<Longrightarrow> q' = q"
  by (auto simp: pre_addition_check_protocol_def Let_def split: if_splits)

lemma unchecked_addition_accounted:
  "bytes_accounted tp q \<Longrightarrow>
   bytes_accounted tp ((unchecked_addition_protocol tp x q)\<lparr>dequeue := x # dequeue q\<rparr>) \<and>
   bytes_accounted tp ((unchecked_addition_protocol tp x q)\<lparr>dequeue := dequeue q @ [x]\<rparr>)"
  by (auto simp: unchecked_addition_protocol_def bytes_accounted_def counts_bytes_def)

lemma removal_accounted:
  "bytes_accounted tp q \<Longrightarrow> dequeue q = ys @ x # zs \<Longrightarrow>
   bytes_accounted tp ((removal_protocol tp x q)\<lparr>dequeue := ys @ zs\<rparr>)"
  by (auto simp: removal_protocol_def bytes_accounted_def counts_bytes_def)

lemma protocol_frame [simp]:
  "dequeue (unchecked_addition_protocol tp x q) = dequeue q"
  "dequeue (removal_protocol tp x q) = dequeue q"
  "stopped (unchecked_addition_protocol tp x q) = stopped q"
  "stopped (removal_protocol tp x q) = stopped q"
  by (simp_all add: protocol_defs)

lemma try_push_accounted:
  assumes "bytes_accounted tp q"
  shows "bytes_accounted tp (snd (snd (try_push_back tp x q)))"
    and "bytes_accounted tp (snd (snd (try_push_front tp x q)))"
proof -
  obtain ok q' where pre: "pre_addition_check_protocol tp x q = (ok, q')" by fastforce
  have "bytes_accounted tp (snd (snd (try_push_back tp x q))) \<and>
        bytes_accounted tp (snd (snd (try_push_front tp x q)))"
  proof (cases ok)
    case True
    with pre pre_addition_accounted [OF assms, of x q'] show ?thesis
      by (simp add: try_push_back_def try_push_front_def)
  next
    case False
    with pre have "q' = q" by (simp add: pre_addition_rejects)
    with False pre assms show ?thesis by (simp add: try_push_back_def try_push_front_def)
  qed
  then show "bytes_accounted tp (snd (snd (try_push_back tp x q)))"
    and "bytes_accounted tp (snd (snd (try_push_front tp x q)))" by simp_all
qed

lemma pop_accounted:
  assumes "bytes_accounted tp q"
  shows "bytes_accounted tp (snd (pop_front tp q))"
    and "bytes_accounted tp (snd (pop_back tp q))"
    and "bytes_accounted tp (snd (wait_and_pop tp q))"
  using assms removal_accounted [OF assms, of "[]"]
    removal_accounted [OF assms, of "butlast (dequeue q)" "last (dequeue q)" "[]"]
  by (auto simp: pop_front_def pop_back_def wait_and_pop_def Let_def split: list.splits)

lemma call_accounted:
  assumes "bytes_accounted tp q"
  shows "bytes_accounted tp (after_call tp c q)"
proof (cases c)
  case (Push_back x)
  then show ?thesis using unchecked_addition_accounted [OF assms, of x] by (simp add: push_back_def)
next
  case (Push_front x)
  then show ?thesis using unchecked_addition_accounted [OF assms, of x] by (simp add: push_front_def)
next
  case Clear
  then show ?thesis by (simp add: clear_def bytes_accounted_def)
next
  case Stop
  then show ?thesis using assms by (simp add: stop_def bytes_accounted_def counts_bytes_def)
qed (use assms try_push_accounted [OF assms] pop_accounted [OF assms] in
     \<open>auto simp: Let_def case_prod_beta\<close>)

lemma run_calls_accounted:
  "bytes_accounted tp q \<Longrightarrow> bytes_accounted tp (run_calls tp cs q)"
  by (induction cs arbitrary: q) (simp_all add: call_accounted)

section \<open>Capacity\<close>

text \<open>
  The specification of admission, over natural numbers: no wrap-around, no subtraction.
  \<open>counter_exact\<close> says that the byte counter has not wrapped.
\<close>

definition fits :: "'a queue_template \<Rightarrow> 'a \<Rightarrow> 'a thread_safe_queue \<Rightarrow> bool" where
  "fits tp x q \<longleftrightarrow> \<not> stopped q
     \<and> (EnableMaxSize tp \<and> maximum_size q \<noteq> 0 \<longrightarrow> length (dequeue q) < unat (maximum_size q))
     \<and> (counts_bytes tp q \<longrightarrow>
          queued_bytes tp (dequeue q) + unat (traits_get tp x) \<le> unat (maximum_bytes q))"

definition counter_exact :: "'a queue_template \<Rightarrow> 'a thread_safe_queue \<Rightarrow> bool" where
  "counter_exact tp q \<longleftrightarrow> bytes_accounted tp q
     \<and> (counts_bytes tp q \<longrightarrow> queued_bytes tp (dequeue q) < 2 ^ 64)"

definition within_capacity :: "'a queue_template \<Rightarrow> 'a thread_safe_queue \<Rightarrow> bool" where
  "within_capacity tp q \<longleftrightarrow>
     (EnableMaxSize tp \<and> maximum_size q \<noteq> 0 \<longrightarrow> length (dequeue q) \<le> unat (maximum_size q))
     \<and> (counts_bytes tp q \<longrightarrow> queued_bytes tp (dequeue q) \<le> unat (maximum_bytes q))"

lemma counter_exact_unat:
  "counter_exact tp q \<Longrightarrow> counts_bytes tp q \<Longrightarrow>
   unat (current_bytes q) = queued_bytes tp (dequeue q)"
  by (simp add: counter_exact_def bytes_accounted_def queued_bytes_def unat_sum_list_u64)

lemma headroom_check_iff:
  fixes c m b :: u64
  shows "\<not> (c > m \<or> b > m - c) \<longleftrightarrow> unat c + unat b \<le> unat m"
proof (cases "c \<le> m")
  case True
  then have "unat (m - c) = unat m - unat c" by (rule unat_sub)
  with True show ?thesis by (auto simp: word_less_nat_alt word_le_nat_alt not_less)
next
  case False
  then show ?thesis by (auto simp: word_less_nat_alt word_le_nat_alt)
qed

lemma pre_addition_fits:
  assumes "counter_exact tp q"
  shows "fst (pre_addition_check_protocol tp x q) \<longleftrightarrow> fits tp x q"
proof (cases "counts_bytes tp q")
  case True
  have "current_bytes q > maximum_bytes q \<or> traits_get tp x > maximum_bytes q - current_bytes q
        \<longleftrightarrow> \<not> queued_bytes tp (dequeue q) + unat (traits_get tp x) \<le> unat (maximum_bytes q)"
    using headroom_check_iff [where c = "current_bytes q"] counter_exact_unat [OF assms True]
    by metis
  with True show ?thesis
    by (auto simp: pre_addition_check_protocol_def fits_def counts_bytes_def Let_def not_le)
next
  case False
  then show ?thesis
    by (auto simp: pre_addition_check_protocol_def fits_def counts_bytes_def not_le)
qed

lemma pre_addition_frame:
  assumes "pre_addition_check_protocol tp x q = (ok, q')"
  shows "dequeue q' = dequeue q" "stopped q' = stopped q"
    "maximum_size q' = maximum_size q" "maximum_bytes q' = maximum_bytes q"
  using assms by (auto simp: pre_addition_check_protocol_def Let_def split: if_splits)

lemma try_push_back_accepts:
  assumes "counter_exact tp q" and "fits tp x q"
  obtains q' where "try_push_back tp x q = (True, Notify_one, q')"
    and "dequeue q' = dequeue q @ [x]" and "stopped q' = stopped q"
    and "maximum_size q' = maximum_size q" and "maximum_bytes q' = maximum_bytes q"
proof -
  from pre_addition_fits [OF assms(1), of x] assms(2)
  obtain q1 where q1: "pre_addition_check_protocol tp x q = (True, q1)"
    by (metis (full_types) prod.collapse)
  from pre_addition_frame [OF q1] q1 show thesis
    by (intro that [of "q1\<lparr>dequeue := dequeue q @ [x]\<rparr>"]) (simp_all add: try_push_back_def)
qed

lemma try_push_back_rejects:
  assumes "counter_exact tp q" and "\<not> fits tp x q"
  shows "try_push_back tp x q = (False, Notify_none, q)"
proof -
  from pre_addition_fits [OF assms(1), of x] assms(2)
  obtain q1 where q1: "pre_addition_check_protocol tp x q = (False, q1)"
    by (metis (full_types) prod.collapse)
  with pre_addition_rejects [OF q1] show ?thesis by (simp add: try_push_back_def)
qed

lemma try_push_front_back:
  "fst (try_push_front tp x q) = fst (try_push_back tp x q)"
  "fst (snd (try_push_front tp x q)) = fst (snd (try_push_back tp x q))"
  "snd (snd (try_push_front tp x q)) =
     (if fst (try_push_back tp x q)
      then (snd (snd (try_push_back tp x q)))\<lparr>dequeue := x # dequeue q\<rparr>
      else snd (snd (try_push_back tp x q)))"
proof -
  obtain ok q' where pre: "pre_addition_check_protocol tp x q = (ok, q')" by fastforce
  from pre pre_addition_frame(1) [OF pre]
  show "fst (try_push_front tp x q) = fst (try_push_back tp x q)"
    "fst (snd (try_push_front tp x q)) = fst (snd (try_push_back tp x q))"
    "snd (snd (try_push_front tp x q)) =
       (if fst (try_push_back tp x q)
        then (snd (snd (try_push_back tp x q)))\<lparr>dequeue := x # dequeue q\<rparr>
        else snd (snd (try_push_back tp x q)))"
    by (simp_all add: try_push_back_def try_push_front_def)
qed

text \<open>
  The calls that go through the capacity check, or only remove: every call but
  \<open>push_back\<close>, \<open>push_front\<close> and \<open>replace\<close>.
\<close>

fun checked_call :: "'a queue_call \<Rightarrow> bool" where
  "checked_call (Push_back _) = False"
| "checked_call (Push_front _) = False"
| "checked_call (Replace _) = False"
| "checked_call _ = True"

lemma within_capacity_exact:
  "bytes_accounted tp q \<Longrightarrow> within_capacity tp q \<Longrightarrow> counter_exact tp q"
  using unat_u64_bound [of "maximum_bytes q"]
  by (auto simp: counter_exact_def within_capacity_def)

lemma within_capacity_new [simp]: "within_capacity tp (new_queue ms mb)"
  by (simp add: within_capacity_def new_queue_def)

lemma try_push_back_cases:
  assumes "counter_exact tp q"
  obtains
    (accept) q' where "fits tp x q" "try_push_back tp x q = (True, Notify_one, q')"
      "dequeue q' = dequeue q @ [x]" "stopped q' = stopped q"
      "maximum_size q' = maximum_size q" "maximum_bytes q' = maximum_bytes q"
  | (reject) "\<not> fits tp x q" "try_push_back tp x q = (False, Notify_none, q)"
  using try_push_back_accepts [OF assms, of x] try_push_back_rejects [OF assms, of x] by blast

lemma counts_bytes_cong:
  "maximum_bytes q' = maximum_bytes q \<Longrightarrow> counts_bytes tp q' = counts_bytes tp q"
  by (simp add: counts_bytes_def)

lemma try_push_within_capacity:
  assumes "bytes_accounted tp q" and "within_capacity tp q"
  shows "within_capacity tp (snd (snd (try_push_back tp x q)))"
    and "within_capacity tp (snd (snd (try_push_front tp x q)))"
proof -
  from assms have exact: "counter_exact tp q" by (rule within_capacity_exact)
  have "within_capacity tp (snd (snd (try_push_back tp x q))) \<and>
        within_capacity tp (snd (snd (try_push_front tp x q)))"
    using exact
  proof (cases rule: try_push_back_cases [where x = x])
    case (accept q')
    then show ?thesis
      by (auto simp: try_push_front_back within_capacity_def fits_def counts_bytes_cong
          counts_bytes_def)
  next
    case reject
    with assms show ?thesis by (simp add: try_push_front_back)
  qed
  then show "within_capacity tp (snd (snd (try_push_back tp x q)))"
    and "within_capacity tp (snd (snd (try_push_front tp x q)))" by simp_all
qed

lemma removal_within_capacity:
  "within_capacity tp q \<Longrightarrow> dequeue q = ys @ x # zs \<Longrightarrow>
   within_capacity tp ((removal_protocol tp x q)\<lparr>dequeue := ys @ zs\<rparr>)"
  by (auto simp: within_capacity_def counts_bytes_def removal_protocol_def)

lemma pop_within_capacity:
  assumes "within_capacity tp q"
  shows "within_capacity tp (snd (pop_front tp q))"
    and "within_capacity tp (snd (pop_back tp q))"
    and "within_capacity tp (snd (wait_and_pop tp q))"
  using assms removal_within_capacity [OF assms, of "[]"]
    removal_within_capacity [OF assms, of "butlast (dequeue q)" "last (dequeue q)" "[]"]
  by (auto simp: pop_front_def pop_back_def wait_and_pop_def Let_def split: list.splits)

lemma checked_call_within_capacity:
  assumes "bytes_accounted tp q" "within_capacity tp q" "checked_call c"
  shows "within_capacity tp (after_call tp c q)"
proof (cases c)
  case Clear
  then show ?thesis by (simp add: clear_def within_capacity_def)
next
  case Stop
  then show ?thesis using assms(2) by (simp add: stop_def within_capacity_def counts_bytes_def)
qed (use assms try_push_within_capacity [OF assms(1,2)] pop_within_capacity [OF assms(2)] in
     \<open>auto simp: Let_def case_prod_beta\<close>)

lemma run_checked_within_capacity:
  "\<lbrakk> bytes_accounted tp q; within_capacity tp q; list_all checked_call cs \<rbrakk> \<Longrightarrow>
   within_capacity tp (run_calls tp cs q)"
  by (induction cs arbitrary: q) (simp_all add: checked_call_within_capacity call_accounted)

section \<open>Interface of the bounded queue\<close>

text \<open>
  What the connections and the worker pool rely on: a producer side with an explicit
  refusal, a consumer side that returns items in the order they were accepted.
\<close>

locale bounded_fifo =
  fixes offer :: "'a \<Rightarrow> 'q \<Rightarrow> bool \<times> notification \<times> 'q"
    and take_next :: "'q \<Rightarrow> 'a wait_result \<times> 'q"
    and contents :: "'q \<Rightarrow> 'a list"
    and admits :: "'a \<Rightarrow> 'q \<Rightarrow> bool"
    and invar :: "'q \<Rightarrow> bool"
  assumes offer_admitted: "invar q \<Longrightarrow> admits x q \<Longrightarrow>
        fst (offer x q) \<and> contents (snd (snd (offer x q))) = contents q @ [x]"
    and offer_refused: "invar q \<Longrightarrow> \<not> admits x q \<Longrightarrow>
        \<not> fst (offer x q) \<and> snd (snd (offer x q)) = q"
    and take_item: "invar q \<Longrightarrow> contents q = x # xs \<Longrightarrow>
        fst (take_next q) = Returns (Some x) \<and> contents (snd (take_next q)) = xs"
    and take_empty: "invar q \<Longrightarrow> contents q = [] \<Longrightarrow>
        fst (take_next q) \<in> {Blocks, Returns None} \<and> snd (take_next q) = q"
    and invar_offer: "invar q \<Longrightarrow> invar (snd (snd (offer x q)))"
    and invar_take: "invar q \<Longrightarrow> invar (snd (take_next q))"
begin

lemma contents_offer:
  "invar q \<Longrightarrow>
   contents (snd (snd (offer x q))) = contents q @ (if fst (offer x q) then [x] else [])"
  using offer_admitted [of q x] offer_refused [of q x] by (cases "admits x q") auto

lemma accepted_iff: "invar q \<Longrightarrow> fst (offer x q) \<longleftrightarrow> admits x q"
  using offer_admitted [of q x] offer_refused [of q x] by blast

lemma contents_take:
  "invar q \<Longrightarrow>
   contents q =
     (case fst (take_next q) of Returns (Some x) \<Rightarrow> [x] | _ \<Rightarrow> []) @ contents (snd (take_next q))"
  using take_item [of q] take_empty [of q] by (cases "contents q") (auto split: wait_result.splits)

lemma take_some_iff:
  "invar q \<Longrightarrow> fst (take_next q) = Returns (Some x) \<longleftrightarrow> (\<exists>xs. contents q = x # xs)"
  using take_item [of q] take_empty [of q] by (cases "contents q") auto

end

definition queue_invar :: "'a queue_template \<Rightarrow> 'a thread_safe_queue \<Rightarrow> bool" where
  "queue_invar tp q \<longleftrightarrow> bytes_accounted tp q \<and> within_capacity tp q"

lemma queue_invar_exact: "queue_invar tp q \<Longrightarrow> counter_exact tp q"
  by (simp add: queue_invar_def within_capacity_exact)

interpretation tsq: bounded_fifo "try_push_back tp" "wait_and_pop tp" dequeue "fits tp" "queue_invar tp"
  for tp
proof
  fix q :: "'a thread_safe_queue" and x :: 'a and xs
  assume inv: "queue_invar tp q"
  then have exact: "counter_exact tp q" by (rule queue_invar_exact)
  show "fits tp x q \<Longrightarrow> fst (try_push_back tp x q)
      \<and> dequeue (snd (snd (try_push_back tp x q))) = dequeue q @ [x]"
    by (erule try_push_back_accepts [OF exact]) simp
  show "\<not> fits tp x q \<Longrightarrow> \<not> fst (try_push_back tp x q) \<and> snd (snd (try_push_back tp x q)) = q"
    by (simp add: try_push_back_rejects [OF exact])
  show "dequeue q = x # xs \<Longrightarrow> fst (wait_and_pop tp q) = Returns (Some x)
      \<and> dequeue (snd (wait_and_pop tp q)) = xs"
    by (simp add: wait_and_pop_def wait_predicate_def)
  show "dequeue q = [] \<Longrightarrow> fst (wait_and_pop tp q) \<in> {Blocks, Returns None}
      \<and> snd (wait_and_pop tp q) = q"
    by (simp add: wait_and_pop_def)
  show "queue_invar tp (snd (snd (try_push_back tp x q)))"
    using inv by (simp add: queue_invar_def try_push_accounted try_push_within_capacity)
  show "queue_invar tp (snd (wait_and_pop tp q))"
    using inv by (simp add: queue_invar_def pop_accounted pop_within_capacity)
qed

lemma queue_invar_stop: "queue_invar tp q \<Longrightarrow> queue_invar tp (snd (stop q))"
  by (simp add: queue_invar_def stop_def bytes_accounted_def within_capacity_def counts_bytes_def)

section \<open>Order of delivery\<close>

text \<open>
  The items a call puts at the back and the items it takes from the front, read off its
  response; the calls of a producer/consumer program that never touch the other ends.
\<close>

fun pushed_by :: "'a queue_call \<Rightarrow> 'a queue_response \<Rightarrow> 'a list" where
  "pushed_by (Try_push_back x) r = (if r = R_bool True then [x] else [])"
| "pushed_by (Push_back x) r = [x]"
| "pushed_by _ r = []"

fun popped_by :: "'a queue_call \<Rightarrow> 'a queue_response \<Rightarrow> 'a list" where
  "popped_by Pop_front (R_item (Inr x)) = [x]"
| "popped_by Wait_and_pop (R_wait (Returns (Some x))) = [x]"
| "popped_by _ _ = []"

fun fifo_call :: "'a queue_call \<Rightarrow> bool" where
  "fifo_call (Try_push_front _) = False"
| "fifo_call (Push_front _) = False"
| "fifo_call Pop_back = False"
| "fifo_call Clear = False"
| "fifo_call (Replace _) = False"
| "fifo_call _ = True"

lemma dequeue_try_push_back:
  "dequeue (snd (snd (try_push_back tp x q))) =
   dequeue q @ (if fst (try_push_back tp x q) then [x] else [])"
proof -
  obtain ok q' where pre: "pre_addition_check_protocol tp x q = (ok, q')" by fastforce
  with pre_addition_frame(1) [OF pre] show ?thesis by (simp add: try_push_back_def)
qed

lemma fifo_call_step:
  assumes "fifo_call c"
  shows "dequeue q @ pushed_by c (fst (call tp c q)) =
         popped_by c (fst (call tp c q)) @ dequeue (after_call tp c q)"
proof (cases c)
  case (Try_push_back x)
  then show ?thesis using dequeue_try_push_back [of tp x q] by (simp add: Let_def case_prod_beta)
next
  case Wait_and_pop
  then show ?thesis by (simp add: wait_and_pop_def split: list.splits)
qed (use assms in \<open>simp_all add: Let_def push_back_def pop_front_def stop_def split: list.splits\<close>)

section \<open>Replacing the contents and draining a stopped queue\<close>

lemma dequeue_replace_loop_limited:
  "\<lbrakk> EnableMaxSize tp; k < maximum_size q \<rbrakk> \<Longrightarrow>
   dequeue (replace_loop tp xs k q) =
     dequeue q @ take (unat (maximum_size q) - unat k) xs"
proof (induction xs arbitrary: k q)
  case (Cons x xs)
  from Cons.prems(2) have k: "unat (k + 1) = Suc (unat k)"
    using unat_u64_bound [of "maximum_size q"]
    by (intro unat_Suc_u64) (simp add: word_less_nat_alt)
  have pos: "0 < maximum_size q" using Cons.prems(2) by (rule le_less_trans [rotated]) simp
  show ?case
  proof (cases "maximum_size q \<le> k + 1")
    case True
    with Cons.prems(2) k have "unat (maximum_size q) - unat k = 1"
      by (simp add: word_less_nat_alt word_le_nat_alt)
    with True Cons.prems pos show ?thesis by (simp add: Let_def)
  next
    case False
    then have "dequeue (replace_loop tp xs (k + 1) (replace_append tp x q)) =
        (dequeue q @ [x]) @ take (unat (maximum_size q) - unat (k + 1)) xs"
      by (subst Cons.IH) (simp_all add: Cons.prems not_le)
    moreover from Cons.prems(2) have "unat k < unat (maximum_size q)"
      by (simp add: word_less_nat_alt)
    ultimately show ?thesis using False Cons.prems pos k
      by (simp add: Let_def take_Cons' Suc_diff_Suc)
  qed
qed simp

lemma dequeue_replace_loop_unlimited:
  "\<not> (EnableMaxSize tp \<and> maximum_size q \<noteq> 0) \<Longrightarrow>
   dequeue (replace_loop tp xs k q) = dequeue q @ xs"
  by (induction xs arbitrary: q) (auto simp: Let_def)

lemma wait_and_pop_stopped:
  "stopped q \<Longrightarrow> fst (call tp Wait_and_pop q) =
     R_wait (Returns (if dequeue q = [] then None else Some (hd (dequeue q))))"
  "stopped (after_call tp Wait_and_pop q) = stopped q"
  "dequeue (after_call tp Wait_and_pop q) = tl (dequeue q)"
  by (auto simp: wait_and_pop_def wait_predicate_def split: list.splits)

lemma call_keeps_stopped: "stopped q \<Longrightarrow> stopped (after_call tp c q)"
  by (cases c)
    (auto simp: try_push_back_def try_push_front_def push_back_def push_front_def clear_def
       pop_front_def pop_back_def wait_and_pop_def stop_def pre_addition_check_protocol_def
       replace_def Let_def split: list.splits)

lemma run_calls_keeps_stopped: "stopped q \<Longrightarrow> stopped (run_calls tp cs q)"
  by (induction cs arbitrary: q) (simp_all add: call_keeps_stopped)

lemma drained_responses:
  "stopped q \<Longrightarrow> dequeue q = [] \<Longrightarrow>
   responses_of tp (replicate k Wait_and_pop) q = replicate k (R_wait (Returns None))"
proof (induction k arbitrary: q)
  case (Suc k)
  then show ?case
    using wait_and_pop_stopped [where q = q and tp = tp] Suc.IH [of "after_call tp Wait_and_pop q"]
    by (simp del: call.simps)
qed simp

lemma stopped_responses:
  "stopped q \<Longrightarrow> responses_of tp (replicate (length (dequeue q) + k) Wait_and_pop) q =
   map (\<lambda>x. R_wait (Returns (Some x))) (dequeue q) @ replicate k (R_wait (Returns None))"
proof (induction "dequeue q" arbitrary: q)
  case Nil
  then show ?case by (simp add: drained_responses)
next
  case (Cons x xs)
  let ?q = "after_call tp Wait_and_pop q"
  from Cons wait_and_pop_stopped [where q = q and tp = tp]
  have "dequeue ?q = xs" "stopped ?q" "fst (call tp Wait_and_pop q) = R_wait (Returns (Some x))"
    by (simp_all del: call.simps flip: Cons.hyps(2))
  with Cons.hyps(1) [of ?q] show ?case by (simp del: call.simps flip: Cons.hyps(2))
qed

lemma stop_simps [simp]: "stopped (snd (stop q))" "dequeue (snd (stop q)) = dequeue q"
  by (simp_all add: stop_def)

lemma call_limits [simp]:
  "maximum_bytes (after_call tp c q) = maximum_bytes q"
  "maximum_size (after_call tp c q) = maximum_size q"
  by (cases c; auto simp: queue_op_defs protocol_defs replace_def Let_def split: list.splits)+

lemma run_calls_limits [simp]:
  "maximum_bytes (run_calls tp cs q) = maximum_bytes q"
  "maximum_size (run_calls tp cs q) = maximum_size q"
  by (induction cs arbitrary: q) simp_all

section \<open>Properties\<close>

text \<open>
  Whatever calls are made, checked or not, on a queue constructed with a byte limit,
  the byte counter equals the sum of the sizes of the items in the queue (in the
  wrap-around arithmetic of \<open>size_t\<close>).
\<close>

theorem queue_byte_accounting:
  assumes "EnableMaxBytes tp" and "mb \<noteq> 0"
  shows "current_bytes (run_calls tp cs (new_queue ms mb)) =
         sum_list (map (traits_get tp) (dequeue (run_calls tp cs (new_queue ms mb))))"
proof -
  have "counts_bytes tp (run_calls tp cs (new_queue ms mb))"
    using assms by (simp add: counts_bytes_def new_queue_def)
  then show ?thesis
    using run_calls_accounted [OF bytes_accounted_new, of tp cs ms mb]
    by (simp add: bytes_accounted_def)
qed

abbreviation byte_traits :: "nat list queue_template" where
  "byte_traits \<equiv> \<lparr>EnableMaxSize = True, EnableMaxBytes = True, traits_get = (\<lambda>p. of_nat (length p))\<rparr>"

lemma queue_byte_accounting_witness:
  "current_bytes (run_calls byte_traits [Push_back [1, 2], Try_push_front [7], Pop_back]
     (new_queue 4 10)) = 1"
  using queue_byte_accounting [of byte_traits 10 "[Push_back [1, 2], Try_push_front [7], Pop_back]" 4]
  by (simp add: new_queue_def queue_op_defs protocol_defs Let_def)

text \<open>
  C6: A queue that is only filled through \<open>try_push_back\<close> and \<open>try_push_front\<close> never
  exceeds its element limit nor, measured in natural numbers, its byte limit, in any
  interleaving of calls; a limit of 0, or a limit disabled by the template, is no limit.
\<close>

theorem queue_capacity_respected:
  assumes "list_all checked_call cs"
  shows "let items = dequeue (run_calls tp cs (new_queue ms mb)) in
         (EnableMaxSize tp \<and> ms \<noteq> 0 \<longrightarrow> length items \<le> unat ms) \<and>
         (EnableMaxBytes tp \<and> mb \<noteq> 0 \<longrightarrow> (\<Sum>x \<leftarrow> items. unat (traits_get tp x)) \<le> unat mb)"
proof -
  have "within_capacity tp (run_calls tp cs (new_queue ms mb))"
    using assms by (intro run_checked_within_capacity) simp_all
  then show ?thesis
    by (simp add: within_capacity_def counts_bytes_def queued_bytes_def Let_def)
      (simp add: new_queue_def)
qed

lemma queue_capacity_respected_witness:
  "length (dequeue (run_calls byte_traits
     [Try_push_back [1], Try_push_back [2, 3], Try_push_back [4], Try_push_front [5]]
     (new_queue 2 3))) \<le> 2"
  using queue_capacity_respected
    [of "[Try_push_back [1], Try_push_back [2, 3], Try_push_back [4], Try_push_front [5]]"
        byte_traits 2 3]
  by (simp add: Let_def del: run_calls.simps)

text \<open>
  Admission is exact and overflow-free: on a queue within its limits
  \<open>try_push_back\<close> accepts an item exactly when the queue is not stopped, there is room for
  one more element and the queued bytes plus the item's bytes do not exceed the limit as
  natural numbers; on acceptance the item is the new last element and one waiter is
  notified, on refusal the queue is unchanged and nobody is notified.
\<close>

theorem queue_admission_exact:
  assumes "queue_invar tp q"
  shows "(fst (try_push_back tp x q) \<longleftrightarrow> fits tp x q) \<and>
         (if fits tp x q
          then dequeue (snd (snd (try_push_back tp x q))) = dequeue q @ [x]
               \<and> fst (snd (try_push_back tp x q)) = Notify_one
               \<and> queue_invar tp (snd (snd (try_push_back tp x q)))
          else try_push_back tp x q = (False, Notify_none, q))"
  using queue_invar_exact [OF assms]
proof (cases rule: try_push_back_cases [where x = x])
  case (accept q')
  with tsq.invar_offer [OF assms, of x] show ?thesis by simp
next
  case reject
  then show ?thesis by simp
qed

lemma queue_admission_exact_witness:
  "\<not> fst (try_push_back byte_traits [9, 9] (new_queue 5 1)) \<and>
   fst (try_push_back byte_traits [9] (new_queue 5 1))"
  using queue_admission_exact [of byte_traits "new_queue 5 1" "[9, 9]"]
    queue_admission_exact [of byte_traits "new_queue 5 1" "[9]"]
  by (simp add: queue_invar_def fits_def counts_bytes_def new_queue_def bytes_accounted_def
      within_capacity_def)

text \<open>
  C5: First in, first out: for any sequence of calls that adds at the back and removes at
  the front (blocking or not), the items removed, in order, followed by the items still
  queued are exactly the items queued before followed by the items accepted, in order. No
  item is lost, duplicated or overtaken.
\<close>

theorem queue_fifo_order:
  assumes "list_all fifo_call cs"
  shows "dequeue q @ concat (map2 pushed_by cs (responses_of tp cs q)) =
         concat (map2 popped_by cs (responses_of tp cs q)) @ dequeue (run_calls tp cs q)"
  using assms
proof (induction cs arbitrary: q)
  case (Cons c cs)
  then have "dequeue q @ pushed_by c (fst (call tp c q)) =
      popped_by c (fst (call tp c q)) @ dequeue (after_call tp c q)"
    by (simp add: fifo_call_step)
  with Cons show ?case by simp (metis append.assoc)
qed simp

lemma queue_fifo_order_witness:
  "concat (map2 popped_by [Push_back [1], Push_back [2], Pop_front, Wait_and_pop]
     (responses_of byte_traits [Push_back [1], Push_back [2], Pop_front, Wait_and_pop]
        (new_queue 0 0))) = [[1], [2]]"
  using queue_fifo_order
    [of "[Push_back [1], Push_back [2], Pop_front, Wait_and_pop]" "new_queue 0 0" byte_traits]
  by (simp add: new_queue_def queue_op_defs protocol_defs Let_def wait_predicate_def)

text \<open>
  After \<open>stop\<close>, consumers drain what is left and then learn that the queue is
  finished: \<open>wait_and_pop\<close> never blocks, the queued items come out in order, every later
  call returns no item, and \<open>try_push_back\<close> refuses from then on.
\<close>

theorem stopped_queue_drains:
  "responses_of tp (replicate (length (dequeue q) + k) Wait_and_pop) (snd (stop q)) =
     map (\<lambda>x. R_wait (Returns (Some x))) (dequeue q) @ replicate k (R_wait (Returns None))
   \<and> \<not> fst (try_push_back tp x (run_calls tp cs (snd (stop q))))"
  using stopped_responses [of "snd (stop q)" tp k]
    run_calls_keeps_stopped [of "snd (stop q)" tp cs]
  by (simp add: try_push_back_def pre_addition_check_protocol_def)

text \<open>
  \<open>replace\<close> leaves exactly the longest prefix of the new contents that the element
  limit allows (all of it without a limit), with the byte counter reset to that prefix.
\<close>

theorem replace_keeps_prefix:
  "dequeue (replace tp xs q) =
     (if EnableMaxSize tp \<and> maximum_size q \<noteq> 0 then take (unat (maximum_size q)) xs else xs)
   \<and> bytes_accounted tp (replace tp xs q)"
  using dequeue_replace_loop_limited [of tp 0 "q\<lparr>dequeue := [], current_bytes := 0\<rparr>" xs]
    dequeue_replace_loop_unlimited [of tp "q\<lparr>dequeue := [], current_bytes := 0\<rparr>" xs 0]
    replace_accounted [of tp xs q]
  by (auto simp: replace_def word_gt_0)

end
