(* ===== verification/Queue_Exceptions.thy ===== *)
theory Queue_Exceptions
  imports Thread_Safe_Queue
begin

text \<open>
  The members of \<open>thread_safe_queue\<close> when an insertion throws: \<open>std::deque\<close> cannot allocate, or
  the copy constructor of the item fails. \<open>emplace_back\<close> and \<open>emplace_front\<close> leave the deque as it
  was, but the members have already counted the item's bytes, and nothing takes them back.
  \<open>replace\<close> counts an item after it has inserted it.
\<close>

section \<open>Members left by an exception\<close>

text \<open>
  The state that an exception of the insertion leaves; for \<open>replace\<close> the exception comes at the
  item with index \<open>k\<close>. The members that only copy items out (\<open>front\<close>, \<open>back\<close>, \<open>to_vector\<close>)
  change nothing. \<open>None\<close>: the member inserts and copies nothing, so it does not throw.
\<close>

fun throwing_call ::
    "'a queue_template \<Rightarrow> 'a queue_call \<Rightarrow> nat \<Rightarrow> 'a thread_safe_queue \<Rightarrow> 'a thread_safe_queue option" where
  "throwing_call tp (Try_push_back x) k q =
     (let (ok, q1) = pre_addition_check_protocol tp x q in if ok then Some q1 else None)"
| "throwing_call tp (Try_push_front x) k q =
     (let (ok, q1) = pre_addition_check_protocol tp x q in if ok then Some q1 else None)"
| "throwing_call tp (Push_back x) k q = Some (unchecked_addition_protocol tp x q)"
| "throwing_call tp (Push_front x) k q = Some (unchecked_addition_protocol tp x q)"
| "throwing_call tp (Replace xs) k q =
     (if k < length (dequeue (replace tp xs q)) then Some (replace tp (take k xs) q) else None)"
| "throwing_call tp Front k q = (if dequeue q = [] then None else Some q)"
| "throwing_call tp Back k q = (if dequeue q = [] then None else Some q)"
| "throwing_call tp To_vector k q = (if dequeue q = [] then None else Some q)"
| "throwing_call tp _ k q = None"

datatype 'a attempted_call = Completed "'a queue_call" | Threw "'a queue_call" nat

fun attempt_call :: "'a queue_template \<Rightarrow> 'a attempted_call \<Rightarrow> 'a thread_safe_queue \<Rightarrow> 'a thread_safe_queue option" where
  "attempt_call tp (Completed c) q = Some (after_call tp c q)"
| "attempt_call tp (Threw c k) q = throwing_call tp c k q"

fun attempt_calls ::
    "'a queue_template \<Rightarrow> 'a attempted_call list \<Rightarrow> 'a thread_safe_queue \<Rightarrow> 'a thread_safe_queue option" where
  "attempt_calls tp [] q = Some q"
| "attempt_calls tp (a # as) q = Option.bind (attempt_call tp a q) (attempt_calls tp as)"

section \<open>The leak\<close>

text \<open>\<open>clear\<close> and \<open>replace\<close> reset the counter.\<close>

fun resets_counter :: "'a queue_call \<Rightarrow> bool" where
  "resets_counter Clear = True"
| "resets_counter (Replace xs) = True"
| "resets_counter _ = False"

text \<open>The items whose insertion failed since the counter was last reset.\<close>

fun failed_item :: "'a queue_call \<Rightarrow> 'a list" where
  "failed_item (Try_push_back x) = [x]"
| "failed_item (Try_push_front x) = [x]"
| "failed_item (Push_back x) = [x]"
| "failed_item (Push_front x) = [x]"
| "failed_item _ = []"

fun lost_items :: "'a attempted_call list \<Rightarrow> 'a list \<Rightarrow> 'a list" where
  "lost_items [] lost = lost"
| "lost_items (Completed c # as) lost = lost_items as (if resets_counter c then [] else lost)"
| "lost_items (Threw c k # as) lost = lost_items as (if resets_counter c then [] else lost @ failed_item c)"

abbreviation sum_bytes :: "'a queue_template \<Rightarrow> 'a list \<Rightarrow> size_t" where
  "sum_bytes tp xs \<equiv> sum_list (map (traits_get tp) xs)"

definition leak_accounted :: "'a queue_template \<Rightarrow> 'a list \<Rightarrow> 'a thread_safe_queue \<Rightarrow> bool" where
  "leak_accounted tp lost q \<longleftrightarrow>
     (counts_bytes tp q \<longrightarrow> current_bytes q = sum_bytes tp (dequeue q) + sum_bytes tp lost)"

lemma after_call_limits [simp]:
  "maximum_size (after_call tp c q) = maximum_size q" "maximum_bytes (after_call tp c q) = maximum_bytes q"
  by (cases c; auto simp: queue_op_defs protocol_defs replace_def Let_def split_beta split: list.splits)+

lemma call_leak:
  assumes "leak_accounted tp lost q"
  shows "leak_accounted tp (if resets_counter c then [] else lost) (after_call tp c q)"
proof (cases "resets_counter c")
  case True
  with call_accounted [of tp "new_queue 0 0" c] replace_accounted [of tp _ q] show ?thesis
    by (cases c) (auto simp: leak_accounted_def clear_def bytes_accounted_def)
next
  case False
  let ?q = "dequeue q"
  have last_item: "sum_bytes tp ?q = sum_bytes tp (butlast ?q) + traits_get tp (last ?q)" if "?q \<noteq> []"
    by (subst append_butlast_last_id [OF that, symmetric]) (simp del: append_butlast_last_id)
  from False assms show ?thesis
    by (cases c) (auto simp: leak_accounted_def counts_bytes_def queue_op_defs protocol_defs last_item Let_def
        split: list.splits if_splits)
qed

lemma throw_leak:
  assumes "leak_accounted tp lost q" "throwing_call tp c k q = Some q'"
  shows "leak_accounted tp (if resets_counter c then [] else lost @ failed_item c) q'"
  using assms replace_accounted [of tp _ q]
  by (cases c) (auto simp: leak_accounted_def counts_bytes_def protocol_defs bytes_accounted_def replace_def Let_def
      split: if_splits)

lemma attempt_calls_leak:
  "leak_accounted tp lost q \<Longrightarrow> attempt_calls tp as q = Some q' \<Longrightarrow> leak_accounted tp (lost_items as lost) q'"
proof (induction as arbitrary: lost q)
  case (Cons a as)
  from Cons.prems(2) obtain q1 where q1: "attempt_call tp a q = Some q1" "attempt_calls tp as q1 = Some q'"
    by (auto simp: bind_eq_Some_conv)
  show ?case
  proof (cases a)
    case (Completed c)
    with Cons.IH [OF call_leak [OF Cons.prems(1), of c]] q1 show ?thesis by simp
  next
    case (Threw c k)
    with Cons.IH [OF throw_leak [OF Cons.prems(1), of c k q1]] q1 show ?thesis by simp
  qed
qed simp

lemma attempt_calls_limits:
  "attempt_calls tp as q = Some q' \<Longrightarrow> maximum_size q' = maximum_size q \<and> maximum_bytes q' = maximum_bytes q"
proof (induction as arbitrary: q)
  case (Cons a as)
  then obtain q1 where q1: "attempt_call tp a q = Some q1" "attempt_calls tp as q1 = Some q'"
    by (auto simp: bind_eq_Some_conv)
  have "maximum_size q1 = maximum_size q \<and> maximum_bytes q1 = maximum_bytes q"
  proof (cases a)
    case (Threw c k)
    with q1(1) show ?thesis by (cases c) (auto simp: protocol_defs replace_def Let_def split: if_splits)
  qed (use q1(1) in auto)
  with Cons.IH [OF q1(2)] show ?case by simp
qed simp

section \<open>Properties\<close>

text \<open>
  C35: An insertion that throws takes capacity away: after any calls, of which any may have been
  left by an exception of the insertion, the byte counter is the size of the queued items plus
  that of the items whose insertion failed since the last \<open>clear\<close> or \<open>replace\<close>, and admission goes
  by this sum. The queue refuses items that fit, in the end even when it is empty; nothing that
  producers and consumers do gives the bytes back.
\<close>

theorem failed_insertions_leak_capacity:
  assumes "EnableMaxBytes tp" and "mb \<noteq> 0" and "attempt_calls tp as (new_queue ms mb) = Some q"
    and "queued_bytes tp (dequeue q) + queued_bytes tp (lost_items as []) < 2 ^ 64"
  shows "unat (current_bytes q) = queued_bytes tp (dequeue q) + queued_bytes tp (lost_items as []) \<and>
    (fst (try_push_back tp x q) \<longleftrightarrow> fits tp x q \<and>
       queued_bytes tp (dequeue q) + queued_bytes tp (lost_items as []) + unat (traits_get tp x) \<le> unat mb)"
proof -
  let ?all = "dequeue q @ lost_items as []"
  have mb: "maximum_bytes q = mb" using attempt_calls_limits [OF assms(3)] by (simp add: new_queue_def)
  have "leak_accounted tp [] (new_queue ms mb)" by (simp add: leak_accounted_def new_queue_def)
  from attempt_calls_leak [OF this assms(3)] have "current_bytes q = sum_bytes tp ?all"
    using assms(1,2) mb by (simp add: leak_accounted_def counts_bytes_def)
  then have bytes: "unat (current_bytes q) = queued_bytes tp ?all"
    using assms(4) unat_sum_list_u64 [of "traits_get tp" ?all] by (simp add: queued_bytes_def)
  have "current_bytes q > maximum_bytes q \<or> traits_get tp x > maximum_bytes q - current_bytes q \<longleftrightarrow>
      \<not> queued_bytes tp ?all + unat (traits_get tp x) \<le> unat mb"
    using headroom_check_iff [where c = "current_bytes q" and m = "maximum_bytes q" and b = "traits_get tp x"] bytes mb by metis
  with assms(1,2) mb have "fst (pre_addition_check_protocol tp x q) \<longleftrightarrow> fits tp x q \<and>
      queued_bytes tp ?all + unat (traits_get tp x) \<le> unat mb"
    by (auto simp: pre_addition_check_protocol_def fits_def counts_bytes_def Let_def not_le)
  with bytes show ?thesis by (simp add: try_push_back_def Let_def split_beta)
qed

text \<open>
  A queue for eight bytes on which two insertions of four bytes have thrown: it is empty and
  refuses an item of one byte.
\<close>

lemma failed_insertions_leak_capacity_witness:
  "\<exists>q. attempt_calls byte_traits [Threw (Push_back [1, 2, 3, 4]) 0, Threw (Try_push_back [5, 6, 7, 8]) 0] (new_queue 0 8) = Some q
     \<and> dequeue q = [] \<and> fits byte_traits [9] q \<and> \<not> fst (try_push_back byte_traits [9] q)"
proof -
  let ?as = "[Threw (Push_back [1, 2, 3, 4]) 0, Threw (Try_push_back [5, 6, 7, 8]) 0]"
  let ?q = "(new_queue 0 8)\<lparr>current_bytes := 8\<rparr> :: nat list thread_safe_queue"
  have run: "attempt_calls byte_traits ?as (new_queue 0 8) = Some ?q"
    by (simp add: new_queue_def protocol_defs Let_def)
  have "fits byte_traits [9] ?q" by (simp add: fits_def counts_bytes_def new_queue_def)
  moreover have "\<not> fst (try_push_back byte_traits [9] ?q)"
    using failed_insertions_leak_capacity [OF _ _ run, of "[9]"] by (simp add: new_queue_def)
  ultimately show ?thesis using run by (intro exI [of _ ?q]) (simp add: new_queue_def)
qed

text \<open>
  A \<open>replace\<close> that throws has lost the old contents and holds the items before the one that
  failed; its counter is right.
\<close>

lemma replace_throws:
  assumes "throwing_call tp (Replace xs) k q = Some q'" "\<not> EnableMaxSize tp \<or> maximum_size q = 0"
  shows "dequeue q' = take k xs \<and> bytes_accounted tp q'"
proof -
  have q': "q' = replace tp (take k xs) q" using assms(1) by (simp split: if_splits)
  with assms(2) show ?thesis by (auto simp: replace_def [of tp "take k xs" q] dequeue_replace_loop_unlimited
        intro!: replace_loop_accounted) (simp_all add: bytes_accounted_def)
qed

end
