(* ===== verification/File_Helper.thy ===== *)
theory File_Helper
  imports Prelude
begin

text \<open>
  The path helper of \<open>storage/file_helper.hpp\<close>: validation of file names and the two
  overloads of \<open>get_file_path\<close>, over the part of \<open>std::filesystem::path\<close> they use, in
  its POSIX form (paths are byte strings, \<open>/\<close> is the only separator, there is no root
  name). The operating system decides whether \<open>create_directories\<close> succeeds: its answer
  is the parameter \<open>mkdirs\<close> (\<open>Some e\<close>: a \<open>filesystem_error\<close> with message \<open>e\<close>),
  and the directories that were created are part of the result.
\<close>

section \<open>Paths\<close>

type_synonym path = string

abbreviation slash :: char where "slash \<equiv> CHR ''/''"
abbreviation backslash :: char where "backslash \<equiv> CHR 0x5C"

definition is_absolute :: "path \<Rightarrow> bool" where
  "is_absolute p \<longleftrightarrow> take 1 p = [slash]"

text \<open>
  Iteration over a path: the root directory, the names between separators, and an empty
  last element after a trailing separator.
\<close>

definition path_parts :: "path \<Rightarrow> string list" where
  "path_parts p =
     (let root = (if is_absolute p then [[slash]] else []);
          body = dropWhile (\<lambda>c. c = slash) p;
          ws = split_on slash body
      in if body = [] then root else root @ filter (\<lambda>w. w \<noteq> []) (butlast ws) @ [last ws])"

definition has_filename :: "path \<Rightarrow> bool" where
  "has_filename p \<longleftrightarrow> p \<noteq> [] \<and> last p \<noteq> slash"

definition path_append :: "path \<Rightarrow> path \<Rightarrow> path" where
  "path_append p q =
     (if is_absolute q then q else if has_filename p then p @ [slash] @ q else p @ q)"

definition filename_of :: "path \<Rightarrow> string" where
  "filename_of p = last (split_on slash p)"

definition extension :: "path \<Rightarrow> string" where
  "extension p =
     (let f = filename_of p; suffix = takeWhile (\<lambda>c. c \<noteq> CHR ''.'') (rev f)
      in if f = ''.'' \<or> f = ''..'' \<or> length suffix + 1 \<ge> length f then []
         else CHR ''.'' # rev suffix)"

section \<open>The helper\<close>

definition is_valid_filename :: "string \<Rightarrow> bool" where
  "is_valid_filename name =
     (if name = [] then False
      else if is_absolute name then False
      else if list_ex (\<lambda>part. part = ''..'') (path_parts name) then False
      else slash \<notin> set name \<and> backslash \<notin> set name)"

definition json_file :: "string \<Rightarrow> path" where
  "json_file filename =
     (if extension filename \<noteq> ''.json'' then filename @ ''.json'' else filename)"

definition subdirectory_error :: "path \<Rightarrow> string \<Rightarrow> string \<Rightarrow> string \<Rightarrow> exn" where
  "subdirectory_error parent_directory subdirectory_name filename what =
     Runtime_error (''Unable to create '' @ subdirectory_name @ '' directory for filename: '' @ filename @
       ''under '' @ parent_directory @ ''/'' @ subdirectory_name @ '' - '' @ what)"

definition directory_error :: "path \<Rightarrow> string \<Rightarrow> string \<Rightarrow> exn" where
  "directory_error parent_directory filename what =
     Runtime_error (''Unable to create directory for filename: '' @ filename @
       ''under '' @ parent_directory @ '' - '' @ what)"

definition get_file_path ::
    "(path \<Rightarrow> string option) \<Rightarrow> path \<Rightarrow> string \<Rightarrow> string \<Rightarrow> path list \<times> path outcome" where
  "get_file_path mkdirs parent_directory subdirectory_name filename =
     (if \<not> is_valid_filename filename
      then ([], Inl (Invalid_argument ''Invalid filename - file_helper''))
      else let directory = path_append parent_directory subdirectory_name in
        case mkdirs directory of
          Some what \<Rightarrow> ([], Inl (subdirectory_error parent_directory subdirectory_name filename what))
        | None \<Rightarrow> ([directory], Inr (path_append directory (json_file filename))))"

definition get_file_path_flat ::
    "(path \<Rightarrow> string option) \<Rightarrow> path \<Rightarrow> string \<Rightarrow> path list \<times> path outcome" where
  "get_file_path_flat mkdirs parent_directory filename =
     (if \<not> is_valid_filename filename
      then ([], Inl (Invalid_argument ''Invalid filename - file_helper''))
      else case mkdirs parent_directory of
          Some what \<Rightarrow> ([], Inl (directory_error parent_directory filename what))
        | None \<Rightarrow> ([parent_directory], Inr (path_append parent_directory (json_file filename))))"

section \<open>Paths and their parts\<close>

lemma path_parts_single:
  "slash \<notin> set s \<Longrightarrow> path_parts s = (if s = [] then [] else [s])"
  by (cases s) (auto simp: path_parts_def is_absolute_def)

text \<open>The directories a path leads through: its parts, less the empty one of a trailing separator.\<close>

definition directories :: "path \<Rightarrow> string list" where
  "directories p = filter (\<lambda>w. w \<noteq> []) (path_parts p)"


lemma split_butlast_last:
  "filter (\<lambda>w. w \<noteq> []) (butlast (split_on c s)) @ (if last (split_on c s) = [] then [] else [last (split_on c s)]) =
   filter (\<lambda>w. w \<noteq> []) (split_on c s)"
  by (subst (4) append_butlast_last_id [OF split_on_nonempty, symmetric]) (simp del: append_butlast_last_id)

lemma directories_eq:
  "directories p =
     (if is_absolute p then [[slash]] else []) @
     filter (\<lambda>w. w \<noteq> []) (split_on slash (dropWhile (\<lambda>c. c = slash) p))"
  by (cases "dropWhile (\<lambda>c. c = slash) p = []")
    (simp_all add: directories_def path_parts_def Let_def del: dropWhile_eq_Nil_conv
      flip: split_butlast_last)

lemma dropWhile_slash_cases:
  obtains (slashes) n where "p = replicate n slash"
  | (body) "dropWhile (\<lambda>c. c = slash) p \<noteq> []"
      "\<And>t. dropWhile (\<lambda>c. c = slash) (p @ t) = dropWhile (\<lambda>c. c = slash) p @ t"
proof (cases "\<exists>c \<in> set p. c \<noteq> slash")
  case True
  then obtain c where "c \<in> set p" "c \<noteq> slash" by blast
  then show thesis by (intro body) auto
next
  case False
  then have "p = replicate (length p) slash" by (intro replicate_eqI) auto
  then show thesis by (rule slashes)
qed

lemma dropWhile_replicate [simp]: "dropWhile (\<lambda>c. c = x) (replicate n x @ t) = dropWhile (\<lambda>c. c = x) t"
  by (induction n) simp_all

lemma dropWhile_replicate_all [simp]: "dropWhile (\<lambda>c. c = x) (replicate n x) = []"
  by (induction n) simp_all

lemma path_parts_snoc:
  assumes "slash \<notin> set f" "f \<noteq> []"
  shows "path_parts (d @ slash # f) =
    (if is_absolute (d @ [slash]) then [[slash]] else []) @
    filter (\<lambda>w. w \<noteq> []) (split_on slash (dropWhile (\<lambda>c. c = slash) d)) @ [f]"
proof (cases rule: dropWhile_slash_cases [of d])
  case (slashes n)
  have "dropWhile (\<lambda>c. c = slash) f = f" using assms by (cases f) auto
  with assms show ?thesis by (cases n) (simp_all add: slashes path_parts_def is_absolute_def)
next
  case body
  then have "is_absolute (d @ t) = is_absolute d" for t by (cases d) (simp_all add: is_absolute_def)
  with body show ?thesis
    using assms by (simp add: path_parts_def split_on_snoc_sep del: dropWhile_eq_Nil_conv)
qed

lemma path_parts_append:
  assumes "slash \<notin> set f" "f \<noteq> []"
  shows "path_parts (path_append d f) = directories d @ [f]"
proof -
  have rel: "\<not> is_absolute f" using assms by (cases f) (auto simp: is_absolute_def)
  consider "d = []" | "has_filename d" | e where "d = e @ [slash]"
    by (metis append_butlast_last_id has_filename_def)
  then show ?thesis
  proof cases
    case 1
    with rel assms show ?thesis
      by (simp add: path_append_def has_filename_def path_parts_single directories_def)
  next
    case 2
    then have "is_absolute (d @ [slash]) = is_absolute d"
      by (cases d) (auto simp: is_absolute_def has_filename_def)
    with 2 rel assms show ?thesis by (simp add: path_append_def path_parts_snoc directories_eq)
  next
    case 3
    have "filter (\<lambda>w. w \<noteq> []) (split_on slash (dropWhile (\<lambda>c. c = slash) (e @ [slash]))) =
          filter (\<lambda>w. w \<noteq> []) (split_on slash (dropWhile (\<lambda>c. c = slash) e))"
      by (cases rule: dropWhile_slash_cases [of e])
        (simp_all add: split_on_snoc_sep del: dropWhile_eq_Nil_conv)
    with 3 rel assms show ?thesis
      by (simp add: path_append_def has_filename_def path_parts_snoc directories_eq)
  qed
qed

lemma valid_filename_iff:
  "is_valid_filename name \<longleftrightarrow>
     name \<noteq> [] \<and> name \<noteq> ''..'' \<and> slash \<notin> set name \<and> backslash \<notin> set name"
proof (cases "slash \<in> set name")
  case False
  then have "name \<noteq> [] \<Longrightarrow> \<not> is_absolute name" by (cases name) (auto simp: is_absolute_def)
  with False show ?thesis by (auto simp: is_valid_filename_def path_parts_single)
qed (auto simp: is_valid_filename_def)

lemma takeWhile_snoc_dot:
  "takeWhile (\<lambda>c. c \<noteq> CHR ''.'') (rev (n @ ''.json'')) = rev ''json''"
  by simp

lemma json_file_facts:
  assumes "is_valid_filename n"
  shows "slash \<notin> set (json_file n)" "json_file n \<noteq> []" "extension (json_file n) = ''.json''"
    "\<exists>stem. stem \<noteq> [] \<and> json_file n = stem @ ''.json''"
proof -
  have no_slash: "slash \<notin> set n" and n: "n \<noteq> []" using assms by (simp_all add: valid_filename_iff)
  then show "slash \<notin> set (json_file n)" "json_file n \<noteq> []" by (auto simp: json_file_def)
  have suffixed: "extension (n @ ''.json'') = ''.json''"
    using no_slash n by (simp add: extension_def filename_of_def Let_def)
  then show "extension (json_file n) = ''.json''" by (simp add: json_file_def)
  show "\<exists>stem. stem \<noteq> [] \<and> json_file n = stem @ ''.json''"
  proof (cases "extension n = ''.json''")
    case True
    let ?s = "takeWhile (\<lambda>c. c \<noteq> CHR ''.'') (rev n)"
    have suffix: "rev ?s = ''json''" "length ?s + 1 < length n"
      using True no_slash by (auto simp: extension_def filename_of_def Let_def split: if_splits)
    obtain r where r: "rev n = ?s @ r" "r = dropWhile (\<lambda>c. c \<noteq> CHR ''.'') (rev n)" by simp
    then have "length r + length ?s = length n" by (metis add.commute length_append length_rev)
    with suffix(2) have "1 < length r" by simp
    then obtain c r' where c: "r = c # r'" "r' \<noteq> []" by (cases r) auto
    then have "c = CHR ''.''"
      using r(2) hd_dropWhile [of "\<lambda>c. c \<noteq> CHR ''.''" "rev n"] by simp
    moreover have "n = rev r' @ c # rev ?s"
      using arg_cong [OF r(1), of rev] c(1) by simp
    ultimately have "n = rev r' @ ''.json''" using suffix(1) by simp
    then show ?thesis using True c(2) by (auto simp: json_file_def)
  qed (auto simp: json_file_def n)
qed


section \<open>Properties\<close>

text \<open>
  What \<open>is_valid_filename\<close> accepts: exactly the non-empty names other than \<open>..\<close>
  that contain neither kind of slash. The separate test for absolute paths and the loop over
  the parts reject nothing beyond that.
\<close>

theorem is_valid_filename_exact:
  "is_valid_filename name \<longleftrightarrow>
     name \<noteq> [] \<and> name \<noteq> ''..'' \<and> slash \<notin> set name \<and> backslash \<notin> set name"
  by (rule valid_filename_iff)

text \<open>
  C30: No traversal through the file name. For a valid name and directories that can be
  created, \<open>get_file_path\<close> returns a path that leads through exactly the directories of
  \<open>parent_directory / subdirectory_name\<close>, the one directory it created, and then names one
  file in it, which ends in \<open>.json\<close> after a non-empty stem without separators; the overload
  without subdirectory does the same with \<open>parent_directory\<close>.
\<close>

theorem get_file_path_confined:
  assumes "is_valid_filename filename"
    and "mkdirs (path_append parent_directory subdirectory_name) = None"
    and "mkdirs parent_directory = None"
  shows "\<exists>stem p q. stem \<noteq> [] \<and> slash \<notin> set stem
    \<and> get_file_path mkdirs parent_directory subdirectory_name filename =
        ([path_append parent_directory subdirectory_name], Inr p)
    \<and> path_parts p = directories (path_append parent_directory subdirectory_name) @ [stem @ ''.json'']
    \<and> get_file_path_flat mkdirs parent_directory filename = ([parent_directory], Inr q)
    \<and> path_parts q = directories parent_directory @ [stem @ ''.json'']"
proof -
  note f = json_file_facts [OF assms(1)]
  from f(4) obtain stem where stem: "stem \<noteq> []" "json_file filename = stem @ ''.json''" by blast
  with f(1) have "slash \<notin> set stem" by simp
  moreover have "get_file_path mkdirs parent_directory subdirectory_name filename =
      ([path_append parent_directory subdirectory_name],
       Inr (path_append (path_append parent_directory subdirectory_name) (json_file filename)))"
    "get_file_path_flat mkdirs parent_directory filename =
      ([parent_directory], Inr (path_append parent_directory (json_file filename)))"
    using assms by (simp_all add: get_file_path_def get_file_path_flat_def Let_def)
  moreover note path_parts_append [OF f(1,2), of "path_append parent_directory subdirectory_name"]
    path_parts_append [OF f(1,2), of parent_directory]
  ultimately show ?thesis using stem by metis
qed

lemma get_file_path_confined_witness:
  "\<exists>stem p q. stem \<noteq> [] \<and> slash \<notin> set stem
    \<and> get_file_path (\<lambda>_. None) ''data'' ''boards'' ''weekly'' = ([path_append ''data'' ''boards''], Inr p)
    \<and> path_parts p = directories (path_append ''data'' ''boards'') @ [stem @ ''.json'']
    \<and> get_file_path_flat (\<lambda>_. None) ''data'' ''weekly'' = ([''data''], Inr q)
    \<and> path_parts q = directories ''data'' @ [stem @ ''.json'']"
  by (rule get_file_path_confined) (simp_all add: valid_filename_iff)

text \<open>
  The error paths of both overloads. An invalid name is reported as
  \<open>std::invalid_argument\<close> before the file system is touched; a directory that cannot be
  created is reported as \<open>std::runtime_error\<close>; otherwise a path is returned, and asking
  again under the completed name \<open>name.json\<close> gives the same path.
\<close>

theorem get_file_path_outcomes:
  "get_file_path mkdirs parent sub filename =
     (if \<not> is_valid_filename filename
      then ([], Inl (Invalid_argument ''Invalid filename - file_helper''))
      else case mkdirs (path_append parent sub) of
          Some e \<Rightarrow> ([], Inl (subdirectory_error parent sub filename e))
        | None \<Rightarrow> get_file_path mkdirs parent sub (json_file filename)) \<and>
   get_file_path_flat mkdirs parent filename =
     (if \<not> is_valid_filename filename
      then ([], Inl (Invalid_argument ''Invalid filename - file_helper''))
      else case mkdirs parent of
          Some e \<Rightarrow> ([], Inl (directory_error parent filename e))
        | None \<Rightarrow> get_file_path_flat mkdirs parent (json_file filename))"
proof (cases "is_valid_filename filename")
  case True
  have "json_file (json_file filename) = json_file filename"
    using json_file_facts(3) [OF True] by (subst json_file_def) simp
  moreover have "is_valid_filename (json_file filename)"
  proof -
    have "json_file filename \<noteq> ''..''" using json_file_facts(4) [OF True] by auto
    moreover have "backslash \<notin> set (json_file filename)"
      using True by (simp add: valid_filename_iff json_file_def)
    ultimately show ?thesis using json_file_facts(1,2) [OF True] by (simp add: valid_filename_iff)
  qed
  ultimately show ?thesis
    using True by (simp add: get_file_path_def get_file_path_flat_def Let_def split: option.splits)
qed (simp add: get_file_path_def get_file_path_flat_def)

text \<open>
  The subdirectory is not confined. \<open>subdirectory_name\<close> is not validated: an absolute
  one replaces \<open>parent_directory\<close> altogether, so the directory created and the path
  returned do not depend on the base storage directory.
\<close>

theorem subdirectory_escapes_parent:
  assumes "is_absolute sub" and "is_valid_filename filename" and "mkdirs sub = None"
  shows "get_file_path mkdirs parent sub filename = ([sub], Inr (path_append sub (json_file filename)))"
  using assms by (simp add: get_file_path_def path_append_def)

lemma subdirectory_escapes_parent_witness:
  "get_file_path (\<lambda>_. None) ''data'' ''/etc'' ''passwd'' = ([''/etc''], Inr ''/etc/passwd.json'')"
  using subdirectory_escapes_parent [of "''/etc''" "''passwd''" "\<lambda>_. None" "''data''"]
  by (simp add: is_absolute_def valid_filename_iff path_append_def has_filename_def
      json_file_def extension_def filename_of_def)

section \<open>Names of the paths\<close>

lemma json_extension_suffix:
  assumes "extension f = ''.json''" "slash \<notin> set f"
  shows "\<exists>stem. f = stem @ ''.json''"
proof -
  let ?s = "takeWhile (\<lambda>c. c \<noteq> CHR ''.'') (rev f)"
  have "filename_of f = f" using assms(2) by (simp add: filename_of_def)
  with assms(1) have s: "rev ?s = ''json''" and len: "length ?s + 1 < length f"
    by (auto simp: extension_def Let_def split: if_splits)
  have "length ?s < length (rev f)" using len by simp
  then have "(rev f) ! length ?s = CHR ''.''" using nth_length_takeWhile by blast
  with len have "rev f = ?s @ CHR ''.'' # drop (Suc (length ?s)) (rev f)"
    using takeWhile_eq_take [of "\<lambda>c. c \<noteq> CHR ''.''" "rev f"] id_take_nth_drop [of "length ?s" "rev f"] by simp
  then have "f = rev (drop (Suc (length ?s)) (rev f)) @ CHR ''.'' # rev ?s"
    by (metis append.assoc append_Cons append_Nil rev.simps(2) rev_append rev_rev_ident)
  with s show ?thesis by (intro exI [of _ "rev (drop (Suc (length ?s)) (rev f))"]) simp
qed

text \<open>Every path the helper returns ends in \<open>.json\<close>.\<close>

lemma json_file_suffix:
  assumes "is_valid_filename f"
  shows "\<exists>stem. path_append d (json_file f) = stem @ ''.json''"
proof -
  have "slash \<notin> set f" using assms by (simp add: is_valid_filename_def split: if_splits)
  then have "\<exists>stem. json_file f = stem @ ''.json''"
    using json_extension_suffix [of f] unfolding json_file_def by (cases "extension f = ''.json''") auto
  then show ?thesis by (auto simp: path_append_def)
qed

lemma get_file_path_suffix:
  "get_file_path mkdirs dir sub f = (ds, Inr p) \<Longrightarrow> \<exists>stem. p = stem @ ''.json''"
  "get_file_path_flat mkdirs dir f = (ds, Inr p) \<Longrightarrow> \<exists>stem. p = stem @ ''.json''"
  using json_file_suffix [of f]
  by (auto simp: get_file_path_def get_file_path_flat_def Let_def split: if_splits option.splits)


text \<open>Files in subdirectories with different plain names are different, whatever the other arguments.\<close>

lemma get_file_path_parts:
  assumes "get_file_path mkdirs dir sub f = (ds, Inr p)" "slash \<notin> set sub" "sub \<noteq> []"
  shows "path_parts p = directories dir @ [sub, json_file f]"
proof -
  from assms(1) have p: "is_valid_filename f" "p = path_append (path_append dir sub) (json_file f)"
    by (auto simp: get_file_path_def Let_def split: if_splits option.splits)
  have "directories (path_append dir sub) = directories dir @ [sub]"
    using path_parts_append [OF assms(2,3), of dir] assms(3) by (simp add: directories_def)
  with path_parts_append [OF json_file_facts(1,2) [OF p(1)], of "path_append dir sub"] p(2) show ?thesis by simp
qed

lemma subdirectories_apart:
  assumes "get_file_path mkdirs dir sub f = (ds, Inr p)" "get_file_path mkdirs' dir' sub' f' = (ds', Inr p')"
    and "slash \<notin> set sub" "sub \<noteq> []" "slash \<notin> set sub'" "sub' \<noteq> []" "sub \<noteq> sub'"
  shows "p \<noteq> p'"
proof
  assume "p = p'"
  then have "directories dir @ [sub, json_file f] = directories dir' @ [sub', json_file f']"
    using get_file_path_parts [OF assms(1,3,4)] get_file_path_parts [OF assms(2,5,6)] by simp
  from arg_cong [OF this, of rev] assms(7) show False by simp
qed

end
