(* ===== verification/Rate_Limiter.thy ===== *)
theory Rate_Limiter
  imports Prelude "HOL-Library.AList"
begin

text \<open>
  The token-bucket rate limiter of \<open>network/security/rate_limiter.hpp\<close>.

  \<^item> \<open>double\<close> values are real numbers; the result of every arithmetic operation goes
    through the rounding function \<open>fl\<close>, so that one model covers the machine's rounding
    (any \<open>fl\<close> with \<open>rounding fl\<close>) and exact arithmetic (\<open>fl\<close> the identity). The
    model with NaN and infinities is \<open>Limiter_Doubles\<close>.
  \<^item> \<open>steady_clock\<close> readings are integers counting nanoseconds, as on the platforms the
    library targets; a reading is an argument of the operation that takes it.
  \<^item> The hash table is an association list, in whatever order the table iterates.
  \<^item> Each operation runs under \<open>mutex\<close>, so a history of the limiter is a sequence of
    operations.
\<close>

section \<open>State and operations\<close>

record bucket =
  tokens :: real
  last_refill :: int

record rate_limiter =
  requests :: "(string \<times> bucket) list"
  max_tokens :: real
  refill_rate :: real
  cleanup_after_idle_duration :: real
  stop_flag :: bool

definition DEFAULT_RATE_LIMITER_CLEANUP_AFTER_IDLE_DURATION :: real where
  [simp]: "DEFAULT_RATE_LIMITER_CLEANUP_AFTER_IDLE_DURATION = 120"

definition rounding :: "(real \<Rightarrow> real) \<Rightarrow> bool" where
  "rounding fl \<longleftrightarrow> mono fl \<and> fl 0 = 0"

definition duration_seconds :: "(real \<Rightarrow> real) \<Rightarrow> int \<Rightarrow> real" where
  "duration_seconds fl d = fl (fl (of_int d) / 10 ^ 9)"

definition new_rate_limiter :: "real \<Rightarrow> real \<Rightarrow> real \<Rightarrow> rate_limiter outcome" where
  "new_rate_limiter mt rate idle =
     (if mt \<le> 0 then Inl (Invalid_argument ''max_tokens of rate_limiter must be positive'')
      else if rate \<le> 0 then Inl (Invalid_argument ''refill_rate of rate_limiter must be positive'')
      else Inr \<lparr>requests = [], max_tokens = mt, refill_rate = rate,
                cleanup_after_idle_duration = idle, stop_flag = False\<rparr>)"

definition consume :: "(real \<Rightarrow> real) \<Rightarrow> int \<Rightarrow> string \<Rightarrow> real \<Rightarrow> rate_limiter \<Rightarrow> bool \<times> rate_limiter" where
  "consume fl now identifier cost rl =
     (if cost \<le> 0 \<or> cost > max_tokens rl then (False, rl)
      else case map_of (requests rl) identifier of
        None \<Rightarrow>
          (True, rl\<lparr>requests := AList.update identifier
                    \<lparr>tokens = fl (max_tokens rl - cost), last_refill = now\<rparr> (requests rl)\<rparr>)
      | Some bucket \<Rightarrow>
          let elapsed = duration_seconds fl (now - last_refill bucket);
              refilled = min (max_tokens rl) (fl (tokens bucket + fl (elapsed * refill_rate rl)))
          in if refilled < cost
             then (False, rl\<lparr>requests := AList.update identifier
                              \<lparr>tokens = refilled, last_refill = now\<rparr> (requests rl)\<rparr>)
             else (True, rl\<lparr>requests := AList.update identifier
                             \<lparr>tokens = fl (refilled - cost), last_refill = now\<rparr> (requests rl)\<rparr>))"

fun cleanup_entries ::
    "(real \<Rightarrow> real) \<Rightarrow> int \<Rightarrow> real \<Rightarrow> (string \<times> bucket) list \<Rightarrow> (string \<times> bucket) list" where
  "cleanup_entries fl now limit [] = []"
| "cleanup_entries fl now limit ((k, b) # rest) =
     (let idle = duration_seconds fl (now - last_refill b) in
      if idle > limit then cleanup_entries fl now limit rest
      else (k, b) # cleanup_entries fl now limit rest)"

definition cleanup :: "(real \<Rightarrow> real) \<Rightarrow> int \<Rightarrow> rate_limiter \<Rightarrow> rate_limiter" where
  "cleanup fl now rl =
     rl\<lparr>requests := cleanup_entries fl now (cleanup_after_idle_duration rl) (requests rl)\<rparr>"

text \<open>
  The cleanup thread. An iteration of \<open>cleanup_loop\<close> observes the stop flag at the head of
  the loop and again when \<open>wait_for\<close> returns (\<open>True\<close>: the predicate held, \<open>False\<close>: a
  minute went by); \<open>wakes\<close> lists the observations, with the time of the cleanup that follows
  a time-out. The result says whether the thread ended.
\<close>

record wake =
  stop_at_head :: bool
  stop_after_wait :: bool
  woken_at :: int

fun cleanup_loop :: "(real \<Rightarrow> real) \<Rightarrow> wake list \<Rightarrow> rate_limiter \<Rightarrow> bool \<times> rate_limiter" where
  "cleanup_loop fl [] rl = (False, rl)"
| "cleanup_loop fl (w # wakes) rl =
     (if stop_at_head w then (True, rl)
      else if stop_after_wait w then (True, rl)
      else cleanup_loop fl wakes (cleanup fl (woken_at w) rl))"

definition request_stop :: "rate_limiter \<Rightarrow> rate_limiter" where
  "request_stop rl = rl\<lparr>stop_flag := True\<rparr>"

section \<open>The token-bucket contract\<close>

text \<open>
  A limiter's history: requests and sweeps in the order in which they take the lock, each at
  its clock reading; the result lists the admitted requests.
\<close>

datatype 'i limiter_call = Consume int 'i real | Cleanup int

fun call_time :: "'i limiter_call \<Rightarrow> int" where
  "call_time (Consume t i c) = t"
| "call_time (Cleanup t) = t"

fun is_consume :: "'i limiter_call \<Rightarrow> bool" where
  "is_consume (Consume t i c) = True"
| "is_consume (Cleanup t) = False"

fun run_limiter ::
    "(int \<Rightarrow> 'i \<Rightarrow> real \<Rightarrow> 's \<Rightarrow> bool \<times> 's) \<Rightarrow> (int \<Rightarrow> 's \<Rightarrow> 's) \<Rightarrow> 'i limiter_call list \<Rightarrow> 's \<Rightarrow>
     ('i \<times> real) list \<times> 's" where
  "run_limiter request sweep [] s = ([], s)"
| "run_limiter request sweep (Consume t i c # cs) s =
     (let (admitted, s1) = request t i c s; (rest, s2) = run_limiter request sweep cs s1
      in (if admitted then (i, c) # rest else rest, s2))"
| "run_limiter request sweep (Cleanup t # cs) s = run_limiter request sweep cs (sweep t s)"

text \<open>
  The cleanup thread contributes one sweep per time-out, up to the first observation of the
  stop flag, at which it ends.
\<close>

lemma cleanup_loop_sweeps:
  "snd (cleanup_loop fl wakes rl) =
     snd (run_limiter (consume fl) (cleanup fl)
       (map (\<lambda>w. Cleanup (woken_at w)) (takeWhile (\<lambda>w. \<not> stop_at_head w \<and> \<not> stop_after_wait w) wakes)) rl)"
  "fst (cleanup_loop fl wakes rl) \<longleftrightarrow> (\<exists>w \<in> set wakes. stop_at_head w \<or> stop_after_wait w)"
  by (induction wakes arbitrary: rl) simp_all

definition admitted_cost :: "'i \<Rightarrow> ('i \<times> real) list \<Rightarrow> real" where
  "admitted_cost i adm = sum_list (map (\<lambda>(j, c). if j = i then c else 0) adm)"

abbreviation seconds :: "int \<Rightarrow> real" where
  "seconds d \<equiv> of_int d / 10 ^ 9"

locale token_bucket =
  fixes ok :: "int \<Rightarrow> 's \<Rightarrow> bool"
    and capacity rate :: "'s \<Rightarrow> real"
    and avail :: "int \<Rightarrow> 'i \<Rightarrow> 's \<Rightarrow> real"
    and request :: "int \<Rightarrow> 'i \<Rightarrow> real \<Rightarrow> 's \<Rightarrow> bool \<times> 's"
    and sweep :: "int \<Rightarrow> 's \<Rightarrow> 's"
  assumes rate_pos: "ok now s \<Longrightarrow> 0 < rate s"
    and avail_bounds: "ok now s \<Longrightarrow> 0 \<le> avail now i s \<and> avail now i s \<le> capacity s"
    and ok_later: "ok now s \<Longrightarrow> now \<le> later \<Longrightarrow> ok later s"
    and avail_later: "ok now s \<Longrightarrow> now \<le> later \<Longrightarrow>
      avail later i s = min (capacity s) (avail now i s + seconds (later - now) * rate s)"
    and request_ok: "ok now s \<Longrightarrow> ok now (snd (request now i c s))"
    and request_params: "capacity (snd (request now i c s)) = capacity s"
      "rate (snd (request now i c s)) = rate s"
    and request_admits: "ok now s \<Longrightarrow> fst (request now i c s) \<longleftrightarrow> 0 < c \<and> c \<le> avail now i s"
    and request_avail: "ok now s \<Longrightarrow> avail now j (snd (request now i c s)) =
      avail now j s - (if j = i \<and> fst (request now i c s) then c else 0)"
    and sweep_ok: "ok now s \<Longrightarrow> ok now (sweep now s)"
    and sweep_params: "capacity (sweep now s) = capacity s" "rate (sweep now s) = rate s"
    and sweep_avail: "ok now s \<Longrightarrow> avail now i (sweep now s) = avail now i s"
begin

lemma avail_grows:
  "ok now s \<Longrightarrow> now \<le> later \<Longrightarrow>
   avail later i s \<le> avail now i s + seconds (later - now) * rate s"
  using avail_later [of now s later i] by simp

lemma admission_bound:
  assumes "ok now s" "sorted (now # map call_time cs)" "list_all (\<lambda>c. call_time c \<le> final) cs" "now \<le> final"
  shows "admitted_cost i (fst (run_limiter request sweep cs s)) \<le>
         avail now i s + seconds (final - now) * rate s"
  using assms
proof (induction cs arbitrary: now s)
  case Nil
  then show ?case
    using avail_bounds [of now s i] rate_pos [of now s] by (simp add: admitted_cost_def)
next
  case (Cons call cs)
  let ?t = "call_time call"
  from Cons.prems have t: "ok ?t s" "now \<le> ?t" "?t \<le> final" "sorted (?t # map call_time cs)"
    "list_all (\<lambda>c. call_time c \<le> final) cs"
    by (auto intro: ok_later [of now])
  have grow: "avail ?t i s + seconds (final - ?t) * rate s \<le> avail now i s + seconds (final - now) * rate s"
    using avail_grows [OF Cons.prems(1) t(2), of i] by (simp add: field_simps)
  show ?case
  proof (cases call)
    case (Consume t' j c)
    obtain b s1 where r: "request t' j c s = (b, s1)" by fastforce
    note laws = request_ok [of t' s j c] request_params [of t' j c s] request_avail [of t' s i j c]
    have "admitted_cost i (fst (run_limiter request sweep cs s1)) \<le> avail t' i s1 + seconds (final - t') * rate s1"
      using Cons.IH [of t' s1] t Consume laws(1) r by simp
    then show ?thesis
      using grow laws t(1) Consume r by (auto simp: admitted_cost_def split_beta split: if_splits)
  next
    case (Cleanup t')
    then show ?thesis
      using Cons.IH [of t' "sweep t' s"] t grow sweep_ok sweep_params sweep_avail by fastforce
  qed
qed

lemma admitted_after_waiting:
  assumes "ok now s" "now \<le> later" "0 < c" "c \<le> capacity s" "c \<le> avail now i s + seconds (later - now) * rate s"
  shows "fst (request later i c s)"
  using assms request_admits [OF ok_later [OF assms(1,2)], of i c] avail_later [OF assms(1,2), of i]
  by simp

lemma sweeps_invisible:
  assumes "ok now s" "ok now s'" "sorted (now # map call_time cs)"
    "capacity s' = capacity s" "rate s' = rate s" "\<And>i. avail now i s' = avail now i s"
  shows "fst (run_limiter request sweep (filter is_consume cs) s') = fst (run_limiter request sweep cs s)"
  using assms
proof (induction cs arbitrary: now s s')
  case (Cons call cs)
  let ?t = "call_time call"
  from Cons.prems have t: "ok ?t s" "ok ?t s'" "sorted (?t # map call_time cs)"
    "\<And>i. avail ?t i s' = avail ?t i s"
    using avail_later [of now s ?t] avail_later [of now s' ?t]
    by (auto intro: ok_later [of now])
  show ?case
  proof (cases call)
    case (Consume t' j c)
    obtain b s1 where r: "request t' j c s = (b, s1)" by fastforce
    obtain b' s1' where r': "request t' j c s' = (b', s1')" by fastforce
    have "b' = b" using request_admits [of t' s j c] request_admits [of t' s' j c] r r' t Consume by simp
    have "fst (run_limiter request sweep (filter is_consume cs) s1') = fst (run_limiter request sweep cs s1)"
    proof (rule Cons.IH [of t'])
      show "ok t' s1" "ok t' s1'" using request_ok [of t' _ j c] r r' t Consume by fastforce+
      show "capacity s1' = capacity s1" "rate s1' = rate s1"
        using request_params [of t' j c s] request_params [of t' j c s'] r r' Cons.prems by simp_all
      show "avail t' i s1' = avail t' i s1" for i
        using request_avail [of t' s i j c] request_avail [of t' s' i j c] r r' t Consume \<open>b' = b\<close> by simp
    qed (use t Consume in simp)
    then show ?thesis using Consume r r' \<open>b' = b\<close> by (simp add: split_beta)
  next
    case (Cleanup t')
    then show ?thesis
      using Cons.IH [of t' "sweep t' s" s'] t sweep_ok sweep_params sweep_avail Cons.prems by simp
  qed
qed simp

end


section \<open>The limiter keeps its buckets in range\<close>

definition bucket_ok :: "real \<Rightarrow> int \<Rightarrow> bucket \<Rightarrow> bool" where
  "bucket_ok mt now b \<longleftrightarrow> 0 \<le> tokens b \<and> tokens b \<le> mt \<and> last_refill b \<le> now"

definition limiter_inv :: "int \<Rightarrow> rate_limiter \<Rightarrow> bool" where
  "limiter_inv now rl \<longleftrightarrow> 0 < max_tokens rl \<and> 0 < refill_rate rl \<and> distinct (map fst (requests rl))
     \<and> list_all (\<lambda>(k, b). bucket_ok (max_tokens rl) now b) (requests rl)"

lemma list_all_update:
  "list_all (\<lambda>(k, b). P b) al \<Longrightarrow> P b \<Longrightarrow> list_all (\<lambda>(k, b). P b) (AList.update i b al)"
  by (induction al) auto

lemma list_all_map_of: "list_all (\<lambda>(k, b). P b) al \<Longrightarrow> map_of al i = Some b \<Longrightarrow> P b"
  by (auto simp: list_all_iff dest: map_of_SomeD)

lemma cleanup_entries_filter:
  "cleanup_entries fl now limit al =
     filter (\<lambda>(k, b). \<not> limit < duration_seconds fl (now - last_refill b)) al"
  by (induction fl now limit al rule: cleanup_entries.induct) (simp_all add: Let_def)

lemma map_of_filter_values:
  "distinct (map fst al) \<Longrightarrow>
   map_of (filter (\<lambda>(k, b). P b) al) i =
     (case map_of al i of None \<Rightarrow> None | Some b \<Rightarrow> if P b then Some b else None)"
  by (induction al) (auto simp: map_of_eq_None_iff split: option.splits dest: map_of_SomeD)

lemma rounding_bounds:
  assumes "rounding fl" "fl m = m" "0 \<le> x" "x \<le> m"
  shows "0 \<le> fl x" "fl x \<le> m"
  using assms monoD [of fl 0 x] monoD [of fl x m] by (simp_all add: rounding_def)

lemma rounding_nonneg: "rounding fl \<Longrightarrow> 0 \<le> x \<Longrightarrow> 0 \<le> fl x"
  using monoD [of fl 0 x] by (simp add: rounding_def)

lemma limiter_inv_later: "limiter_inv now rl \<Longrightarrow> now \<le> later \<Longrightarrow> limiter_inv later rl"
  by (auto simp: limiter_inv_def bucket_ok_def list_all_iff)

lemma consume_inv:
  assumes "rounding fl" "fl (max_tokens rl) = max_tokens rl" "limiter_inv now rl"
  shows "limiter_inv now (snd (consume fl now i c rl))"
proof (cases "c \<le> 0 \<or> c > max_tokens rl")
  case False
  have store: "limiter_inv now (rl\<lparr>requests := AList.update i \<lparr>tokens = v, last_refill = now\<rparr> (requests rl)\<rparr>)"
    if "0 \<le> v" "v \<le> max_tokens rl" for v
    using assms(3) that by (simp add: limiter_inv_def bucket_ok_def distinct_update list_all_update)
  note in_range = rounding_bounds [OF assms(1,2)]
  show ?thesis
  proof (cases "map_of (requests rl) i")
    case None
    with False in_range [of "max_tokens rl - c"] show ?thesis by (simp add: consume_def store)
  next
    case (Some b)
    then have b: "bucket_ok (max_tokens rl) now b"
      using assms(3) by (auto simp: limiter_inv_def intro: list_all_map_of)
    let ?r = "min (max_tokens rl)
      (fl (tokens b + fl (duration_seconds fl (now - last_refill b) * refill_rate rl)))"
    have nonneg: "0 \<le> fl x" if "0 \<le> x" for x by (rule rounding_nonneg [OF assms(1) that])
    have "0 \<le> real_of_int (now - last_refill b)" "0 \<le> tokens b" "0 \<le> refill_rate rl" "0 \<le> max_tokens rl"
      using b assms(3) by (simp_all add: bucket_ok_def limiter_inv_def)
    then have "0 \<le> ?r"
      unfolding duration_seconds_def
      by (intro min.boundedI nonneg add_nonneg_nonneg mult_nonneg_nonneg divide_nonneg_nonneg) simp_all
    moreover have "?r \<le> max_tokens rl" by simp
    moreover have "snd (consume fl now i c rl) = rl\<lparr>requests := AList.update i
        \<lparr>tokens = (if ?r < c then ?r else fl (?r - c)), last_refill = now\<rparr> (requests rl)\<rparr>"
      using False Some by (simp add: consume_def Let_def)
    moreover have "0 \<le> fl (?r - c) \<and> fl (?r - c) \<le> max_tokens rl" if "\<not> ?r < c"
      using in_range [of "?r - c"] False that by linarith
    ultimately show ?thesis using store by presburger
  qed
qed (use assms(3) in \<open>simp add: consume_def\<close>)

lemma cleanup_inv: "limiter_inv now rl \<Longrightarrow> limiter_inv now (cleanup fl t rl)"
  by (auto simp: limiter_inv_def cleanup_def cleanup_entries_filter list_all_iff
      intro: distinct_map_filter)

lemma consume_frame [simp]:
  "max_tokens (snd (consume fl now i c rl)) = max_tokens rl"
  "refill_rate (snd (consume fl now i c rl)) = refill_rate rl"
  "cleanup_after_idle_duration (snd (consume fl now i c rl)) = cleanup_after_idle_duration rl"
  by (simp_all add: consume_def Let_def split: option.splits)

lemma cleanup_frame [simp]:
  "max_tokens (cleanup fl now rl) = max_tokens rl" "refill_rate (cleanup fl now rl) = refill_rate rl"
  "cleanup_after_idle_duration (cleanup fl now rl) = cleanup_after_idle_duration rl"
  by (simp_all add: cleanup_def)

section \<open>The limiter implements the contract\<close>

text \<open>
  What an identifier could spend at a time, in exact arithmetic; an identifier without a
  bucket has the full capacity.
\<close>

definition available :: "int \<Rightarrow> string \<Rightarrow> rate_limiter \<Rightarrow> real" where
  "available now i rl = (case map_of (requests rl) i of
       None \<Rightarrow> max_tokens rl
     | Some b \<Rightarrow> min (max_tokens rl) (tokens b + seconds (now - last_refill b) * refill_rate rl))"

definition refills_while_idle :: "rate_limiter \<Rightarrow> bool" where
  "refills_while_idle rl \<longleftrightarrow> max_tokens rl \<le> cleanup_after_idle_duration rl * refill_rate rl"

definition exact :: "real \<Rightarrow> real" where
  [simp]: "exact x = x"

lemma rounding_exact: "rounding exact"
  by (simp add: rounding_def mono_def)

lemma available_bounds:
  assumes "limiter_inv now rl"
  shows "0 \<le> available now i rl" "available now i rl \<le> max_tokens rl"
proof -
  have "bucket_ok (max_tokens rl) now b" if "map_of (requests rl) i = Some b" for b
    using assms that by (auto simp: limiter_inv_def intro: list_all_map_of)
  then show "0 \<le> available now i rl" "available now i rl \<le> max_tokens rl"
    using assms by (auto simp: available_def limiter_inv_def bucket_ok_def split: option.splits)
qed

lemma available_later:
  assumes "limiter_inv now rl" "now \<le> later"
  shows "available later i rl =
         min (max_tokens rl) (available now i rl + seconds (later - now) * refill_rate rl)"
proof -
  have "0 \<le> seconds (later - now) * refill_rate rl" using assms by (simp add: limiter_inv_def)
  then show ?thesis by (auto simp: available_def min_def field_simps split: option.splits)
qed

lemma exact_consume:
  assumes "limiter_inv now rl"
  shows "fst (consume exact now i c rl) \<longleftrightarrow> 0 < c \<and> c \<le> available now i rl"
    and "available now j (snd (consume exact now i c rl)) =
         available now j rl - (if j = i \<and> fst (consume exact now i c rl) then c else 0)"
proof -
  have le: "available now i rl \<le> max_tokens rl" by (rule available_bounds(2) [OF assms])
  show "fst (consume exact now i c rl) \<longleftrightarrow> 0 < c \<and> c \<le> available now i rl"
    using le by (auto simp: consume_def available_def duration_seconds_def Let_def split: option.splits)
  show "available now j (snd (consume exact now i c rl)) =
        available now j rl - (if j = i \<and> fst (consume exact now i c rl) then c else 0)"
    by (auto simp: consume_def available_def duration_seconds_def Let_def update_conv' split: option.splits)
qed

lemma exact_cleanup_available:
  assumes "limiter_inv now rl" "refills_while_idle rl"
  shows "available now i (cleanup exact now rl) = available now i rl"
proof (cases "map_of (requests rl) i")
  case (Some b)
  have "max_tokens rl \<le> tokens b + seconds (now - last_refill b) * refill_rate rl"
    if "cleanup_after_idle_duration rl < seconds (now - last_refill b)"
  proof -
    have "0 \<le> tokens b" using assms(1) Some
      by (auto simp: limiter_inv_def bucket_ok_def dest: list_all_map_of)
    moreover have "cleanup_after_idle_duration rl * refill_rate rl \<le> seconds (now - last_refill b) * refill_rate rl"
      using that assms(1) by (intro mult_right_mono) (simp_all add: limiter_inv_def)
    ultimately show ?thesis using assms(2) by (simp add: refills_while_idle_def)
  qed
  with Some assms(1) show ?thesis
    by (simp add: available_def cleanup_def cleanup_entries_filter map_of_filter_values
        limiter_inv_def duration_seconds_def)
qed (use assms(1) in \<open>simp add: available_def cleanup_def cleanup_entries_filter
      map_of_filter_values limiter_inv_def\<close>)

lemma limiter_refills: "limiter_inv now rl \<Longrightarrow> 0 < refill_rate rl"
  by (simp add: limiter_inv_def)

lemma refills_frame: "refills_while_idle (cleanup fl now rl) = refills_while_idle rl"
  by (simp add: refills_while_idle_def)

interpretation rl: token_bucket
  "\<lambda>now rl. limiter_inv now rl \<and> refills_while_idle rl" max_tokens refill_rate available
  "consume exact" "cleanup exact"
proof unfold_locales
  fix now rl i c
  assume "limiter_inv now rl \<and> refills_while_idle rl"
  then show "limiter_inv now (snd (consume exact now i c rl)) \<and> refills_while_idle (snd (consume exact now i c rl))"
    by (simp add: consume_inv rounding_exact refills_while_idle_def)
qed (auto simp: available_bounds exact_consume cleanup_inv exact_cleanup_available
    available_later [simplified] refills_frame intro: limiter_inv_later dest: limiter_refills)


section \<open>Properties\<close>

text \<open>
  The buckets stay in range whatever the rounding of the floating-point operations, as
  long as it is monotone, keeps 0 and keeps \<open>max_tokens\<close>: starting from a constructed
  limiter, after any history of \<open>consume\<close> and \<open>cleanup\<close> calls on a steady clock every
  bucket holds between 0 and \<open>max_tokens\<close> tokens, was refilled in the past, and there is
  at most one bucket per identifier.
\<close>

theorem limiter_buckets_in_range:
  assumes "rounding fl" and "fl mt = mt" and "new_rate_limiter mt rate idle = Inr rl"
    and "sorted (map call_time cs)" and "list_all (\<lambda>c. call_time c \<le> now) cs"
  shows "limiter_inv now (snd (run_limiter (consume fl) (cleanup fl) cs rl))"
proof -
  have "limiter_inv now (snd (run_limiter (consume fl) (cleanup fl) cs rl))"
    if "limiter_inv t rl" "fl (max_tokens rl) = max_tokens rl" "sorted (t # map call_time cs)"
      "list_all (\<lambda>c. call_time c \<le> now) cs" "t \<le> now" for t rl
    using that
  proof (induction cs arbitrary: t rl)
    case Nil
    then show ?case by (simp add: limiter_inv_later)
  next
    case (Cons call cs)
    show ?case
    proof (cases call)
      case (Consume t' i c)
      have "limiter_inv t' (snd (consume fl t' i c rl))"
        using consume_inv [OF assms(1) _ limiter_inv_later [of t rl t']] Cons.prems Consume by simp
      with Cons.IH [of t' "snd (consume fl t' i c rl)"] Cons.prems Consume show ?thesis
        by (simp add: split_beta)
    next
      case (Cleanup t')
      have "limiter_inv t' (cleanup fl t' rl)"
        using cleanup_inv [OF limiter_inv_later [of t rl t']] Cons.prems Cleanup by simp
      with Cons.IH [of t' "cleanup fl t' rl"] Cons.prems Cleanup show ?thesis by simp
    qed
  qed
  note run = this
  let ?t = "case cs of [] \<Rightarrow> now | c # _ \<Rightarrow> call_time c"
  have rl: "limiter_inv ?t rl" "max_tokens rl = mt"
    using assms(3) by (auto simp: new_rate_limiter_def limiter_inv_def split: if_splits)
  show ?thesis
    by (rule run [of ?t]) (use assms rl in \<open>auto split: list.splits\<close>)
qed

text \<open>A rounding that is not the identity: down to a multiple of 1/1024.\<close>

definition round_down :: "real \<Rightarrow> real" where
  "round_down x = of_int \<lfloor>x * 1024\<rfloor> / 1024"

lemma rounding_round_down: "rounding round_down"
  by (auto simp: rounding_def round_down_def mono_def intro!: divide_right_mono floor_mono)

definition example_limiter :: rate_limiter where
  "example_limiter = \<lparr>requests = [], max_tokens = 5, refill_rate = 1,
     cleanup_after_idle_duration = 120, stop_flag = False\<rparr>"

lemma example_limiter_inv: "limiter_inv t example_limiter"
  by (simp add: limiter_inv_def example_limiter_def)

lemma limiter_buckets_in_range_witness:
  "limiter_inv 9 (snd (run_limiter (consume round_down) (cleanup round_down)
     [Consume 3 ''a'' 2, Cleanup 5, Consume 9 ''a'' 1] example_limiter))"
  by (rule limiter_buckets_in_range [where mt = 5 and rate = 1 and idle = 120])
    (simp_all add: rounding_round_down new_rate_limiter_def example_limiter_def round_down_def)

text \<open>
  C10: \<open>consume\<close> implements a token bucket per identifier, in exact arithmetic: a request is
  admitted exactly when its cost is positive and covered by what its identifier has available
  at that moment, an admitted request is charged to its identifier only, a refused one is not
  charged at all, and while time passes each identifier regains \<open>refill_rate\<close> tokens per
  second up to \<open>max_tokens\<close>.
\<close>

theorem consume_refines_token_bucket:
  assumes "limiter_inv now rl" and "now \<le> later"
  shows "(fst (consume exact now i c rl) \<longleftrightarrow> 0 < c \<and> c \<le> available now i rl) \<and>
    available now j (snd (consume exact now i c rl)) =
      available now j rl - (if j = i \<and> fst (consume exact now i c rl) then c else 0) \<and>
    available later j rl = min (max_tokens rl) (available now j rl + seconds (later - now) * refill_rate rl)"
  using exact_consume [OF assms(1)] available_later [OF assms] by blast

lemma consume_refines_token_bucket_witness:
  "(fst (consume exact 0 ''a'' 2 example_limiter) \<longleftrightarrow> (0::real) < 2 \<and> 2 \<le> available 0 ''a'' example_limiter) \<and>
    available 0 ''a'' (snd (consume exact 0 ''a'' 2 example_limiter)) =
      available 0 ''a'' example_limiter - (if ''a'' = ''a'' \<and> fst (consume exact 0 ''a'' 2 example_limiter) then 2 else 0) \<and>
    available 7 ''a'' example_limiter =
      min (max_tokens example_limiter) (available 0 ''a'' example_limiter + seconds (7 - 0) * refill_rate example_limiter)"
  by (rule consume_refines_token_bucket) (simp_all add: limiter_inv_def example_limiter_def)

text \<open>
  C9: The rate limit, in exact arithmetic. Over any stretch of time and any interleaving of requests and cleanups,
  the total cost admitted for one identifier is at most what it had available at the start
  plus \<open>refill_rate\<close> per second, hence at most \<open>max_tokens\<close> plus the refill, provided
  an idle bucket has refilled by the time it is swept away
  (\<open>max_tokens \<le> cleanup_after_idle_duration * refill_rate\<close>).
\<close>

theorem rate_limit_enforced:
  assumes "limiter_inv now rl" and "refills_while_idle rl"
    and "sorted (now # map call_time cs)" and "list_all (\<lambda>c. call_time c \<le> final) cs" and "now \<le> final"
  shows "admitted_cost i (fst (run_limiter (consume exact) (cleanup exact) cs rl)) \<le>
         available now i rl + seconds (final - now) * refill_rate rl"
  by (rule rl.admission_bound) (use assms in simp_all)

lemma rate_limit_enforced_witness:
  "admitted_cost ''a'' (fst (run_limiter (consume exact) (cleanup exact)
     [Consume 1 ''a'' 3, Cleanup 2, Consume 3 ''a'' 3] example_limiter)) \<le>
   available 0 ''a'' example_limiter + seconds (4 - 0) * refill_rate example_limiter"
  by (rule rate_limit_enforced)
    (simp_all add: limiter_inv_def example_limiter_def refills_while_idle_def)

text \<open>
  No starvation: whatever an identifier spent before, once it has waited \<open>cost /
  refill_rate\<close> seconds a request of that cost (at most \<open>max_tokens\<close>) is admitted.
\<close>

theorem consume_admits_after_waiting:
  assumes "limiter_inv now rl" and "now \<le> later" and "0 < c" and "c \<le> max_tokens rl"
    and "c / refill_rate rl \<le> seconds (later - now)"
  shows "fst (consume exact later i c rl)"
proof -
  have "c \<le> seconds (later - now) * refill_rate rl"
    using assms(5) limiter_refills [OF assms(1)] by (simp add: pos_divide_le_eq)
  then show ?thesis
    using exact_consume(1) [OF limiter_inv_later [OF assms(1,2)]] available_later [OF assms(1,2), of i]
      available_bounds(1) [OF assms(1), of i] assms(3,4) by simp
qed

lemma consume_admits_after_waiting_witness:
  "fst (consume exact 2000000000 ''a'' 2 (snd (consume exact 0 ''a'' 5 example_limiter)))"
  by (rule consume_admits_after_waiting [where now = 0])
    (simp_all add: consume_inv rounding_exact example_limiter_inv, simp_all add: example_limiter_def)

text \<open>
  Cleanup is invisible to clients when idle buckets have refilled before they are swept:
  every history admits exactly the requests that the same history without its cleanups
  admits.
\<close>

theorem cleanup_transparent:
  assumes "limiter_inv now rl" and "refills_while_idle rl" and "sorted (now # map call_time cs)"
  shows "fst (run_limiter (consume exact) (cleanup exact) cs rl) =
         fst (run_limiter (consume exact) (cleanup exact) (filter is_consume cs) rl)"
  using rl.sweeps_invisible [of now rl rl cs] assms by simp

lemma cleanup_transparent_witness:
  "fst (run_limiter (consume exact) (cleanup exact)
     [Consume 1 ''a'' 3, Cleanup 200000000000, Consume 200000000001 ''a'' 3] example_limiter) =
   fst (run_limiter (consume exact) (cleanup exact)
     [Consume 1 ''a'' 3, Consume 200000000001 ''a'' 3] example_limiter)"
  using cleanup_transparent [of 0 example_limiter
      "[Consume 1 ''a'' 3, Cleanup 200000000000, Consume 200000000001 ''a'' 3]"]
  by (simp add: limiter_inv_def example_limiter_def refills_while_idle_def)

text \<open>
  Without that relation between the parameters cleanup breaks the limit: if a bucket does
  not refill within the idle time, sweeping it hands its identifier a full bucket, and a
  request of cost \<open>max_tokens\<close> that the limiter would refuse is admitted.
\<close>

theorem cleanup_refunds_tokens:
  assumes "limiter_inv now rl" and "map_of (requests rl) i = Some b"
    and "cleanup_after_idle_duration rl < seconds (now - last_refill b)"
    and "tokens b + seconds (now - last_refill b) * refill_rate rl < max_tokens rl"
  shows "\<not> fst (consume exact now i (max_tokens rl) rl)
    \<and> fst (consume exact now i (max_tokens rl) (cleanup exact now rl))"
proof
  show "\<not> fst (consume exact now i (max_tokens rl) rl)"
    using assms(2,4) exact_consume(1) [OF assms(1)] by (simp add: available_def)
  have "map_of (requests (cleanup exact now rl)) i = None"
    using assms(1-3) by (simp add: cleanup_def cleanup_entries_filter map_of_filter_values
        limiter_inv_def duration_seconds_def)
  then show "fst (consume exact now i (max_tokens rl) (cleanup exact now rl))"
    using assms(1) by (simp add: consume_def limiter_inv_def)
qed

definition slow_limiter :: rate_limiter where
  "slow_limiter = \<lparr>requests = [(''a'', \<lparr>tokens = 0, last_refill = 0\<rparr>)], max_tokens = 1000,
     refill_rate = 1, cleanup_after_idle_duration = 120, stop_flag = False\<rparr>"

lemma cleanup_refunds_tokens_witness:
  "\<not> fst (consume exact 121000000000 ''a'' 1000 slow_limiter)
    \<and> fst (consume exact 121000000000 ''a'' 1000 (cleanup exact 121000000000 slow_limiter))"
  using cleanup_refunds_tokens [of 121000000000 slow_limiter "''a''"]
  by (simp add: slow_limiter_def limiter_inv_def bucket_ok_def)

text \<open>The part of a limiter that decides an identifier's requests.\<close>

definition same_for :: "string \<Rightarrow> rate_limiter \<Rightarrow> rate_limiter \<Rightarrow> bool" where
  "same_for i a b \<longleftrightarrow> map_of (requests a) i = map_of (requests b) i \<and> max_tokens a = max_tokens b
     \<and> refill_rate a = refill_rate b \<and> cleanup_after_idle_duration a = cleanup_after_idle_duration b
     \<and> distinct (map fst (requests a)) \<and> distinct (map fst (requests b))"

lemma consume_keys: "distinct (map fst (requests rl)) \<Longrightarrow> distinct (map fst (requests (snd (consume fl t j c rl))))"
  by (auto simp: consume_def Let_def distinct_update split: option.splits)

lemma same_for_consume:
  assumes "same_for i a b"
  shows "same_for i (snd (consume fl t i c a)) (snd (consume fl t i c b))"
    and "fst (consume fl t i c a) = fst (consume fl t i c b)"
    and "j \<noteq> i \<Longrightarrow> same_for i (snd (consume fl t j c a)) b"
    and "same_for i (cleanup fl t a) (cleanup fl t b)"
proof -
  note a = assms [unfolded same_for_def] and keys = consume_keys [of _ fl t _ c]
  show "fst (consume fl t i c a) = fst (consume fl t i c b)"
    using a by (simp add: consume_def Let_def split: option.splits)
  have "map_of (requests (snd (consume fl t i c a))) i = map_of (requests (snd (consume fl t i c b))) i"
    using a by (simp add: consume_def Let_def update_conv' split: option.splits)
  then show "same_for i (snd (consume fl t i c a)) (snd (consume fl t i c b))"
    using a keys by (simp add: same_for_def)
  have "map_of (requests (snd (consume fl t j c a))) i = map_of (requests a) i" if "j \<noteq> i"
    using that by (simp add: consume_def Let_def update_conv' split: option.splits)
  then show "same_for i (snd (consume fl t j c a)) b" if "j \<noteq> i"
    using a keys that by (simp add: same_for_def)
  show "same_for i (cleanup fl t a) (cleanup fl t b)"
    using a by (simp add: same_for_def cleanup_def cleanup_entries_filter map_of_filter_values
        distinct_map_filter)
qed

fun concerns :: "'i \<Rightarrow> 'i limiter_call \<Rightarrow> bool" where
  "concerns i (Consume t j c) = (j = i)"
| "concerns i (Cleanup t) = True"

text \<open>
  Independence of clients, whatever the rounding: what the limiter answers to one
  identifier does not depend on the requests of the others. The admitted requests of an
  identifier in a history are those of the history restricted to that identifier's requests
  and the cleanups.
\<close>

theorem identifiers_independent:
  assumes "distinct (map fst (requests rl))"
  shows "filter (\<lambda>(j, c). j = i) (fst (run_limiter (consume fl) (cleanup fl) cs rl)) =
         fst (run_limiter (consume fl) (cleanup fl) (filter (concerns i) cs) rl)"
proof -
  have "filter (\<lambda>(j, c). j = i) (fst (run_limiter (consume fl) (cleanup fl) cs a)) =
      fst (run_limiter (consume fl) (cleanup fl) (filter (concerns i) cs) b)" if "same_for i a b" for a b
    using that
  proof (induction cs arbitrary: a b)
    case (Cons call cs)
    then show ?case
      by (cases call) (auto simp: split_beta same_for_consume)
  qed simp
  from this [of rl rl] assms show ?thesis by (simp add: same_for_def)
qed

lemma identifiers_independent_witness:
  "filter (\<lambda>(j, c). j = ''a'') (fst (run_limiter (consume round_down) (cleanup round_down)
     [Consume 1 ''a'' 3, Consume 2 ''b'' 5, Consume 3 ''a'' 1] example_limiter)) =
   fst (run_limiter (consume round_down) (cleanup round_down)
     [Consume 1 ''a'' 3, Consume 3 ''a'' 1] example_limiter)"
  using identifiers_independent [of example_limiter "''a''" round_down
      "[Consume 1 ''a'' 3, Consume 2 ''b'' 5, Consume 3 ''a'' 1]"]
  by (simp add: example_limiter_def)

end
