(* ===== verification/Limiter_Thread.thy ===== *)
theory Limiter_Thread
  imports Rate_Limiter
begin

text \<open>
  The cleanup thread of \<open>network/security/rate_limiter.hpp\<close> and the destructor that joins it, as
  a step relation.

  \<open>cleanup_loop\<close> evaluates the stop flag at the head of the loop and as the predicate of
  \<open>wait_for\<close>, before it blocks and whenever it wakes up. The destructor sets the flag and
  notifies without holding \<open>cleanup_mutex\<close>, so both may happen between an evaluation of the
  predicate and the moment the thread blocks.
\<close>

section \<open>Steps\<close>

datatype cleanup_pc =
    At_head | Before_predicate | About_to_block | Blocked | Timed_out | Sweeping | Loop_left

datatype destructor_pc = Not_destroyed | Flag_set | Joining | Destroyed

record limiter_threads =
  limiter :: rate_limiter
  cleanup_thread :: cleanup_pc
  destructor :: destructor_pc

datatype thread_event =
    Check_head | Check_predicate | Block | Spurious | Timeout | Check_after_timeout | Sweep int
  | Set_flag | Notify | Join_cleanup | Client_call "string limiter_call"

definition start_threads :: "rate_limiter \<Rightarrow> limiter_threads" where
  "start_threads rl = \<lparr>limiter = rl, cleanup_thread = At_head, destructor = Not_destroyed\<rparr>"

text \<open>
  Before it is destroyed the limiter serves its clients; \<open>Set_flag\<close>, \<open>Notify\<close> and
  \<open>Join_cleanup\<close> are the three statements of the destructor.
\<close>

fun thread_step :: "(real \<Rightarrow> real) \<Rightarrow> thread_event \<Rightarrow> limiter_threads \<Rightarrow> limiter_threads option" where
  "thread_step fl Check_head s =
     (if cleanup_thread s = At_head
      then Some (s\<lparr>cleanup_thread := (if stop_flag (limiter s) then Loop_left else Before_predicate)\<rparr>) else None)"
| "thread_step fl Check_predicate s =
     (if cleanup_thread s = Before_predicate
      then Some (s\<lparr>cleanup_thread := (if stop_flag (limiter s) then Loop_left else About_to_block)\<rparr>) else None)"
| "thread_step fl Block s =
     (if cleanup_thread s = About_to_block then Some (s\<lparr>cleanup_thread := Blocked\<rparr>) else None)"
| "thread_step fl Spurious s =
     (if cleanup_thread s = Blocked then Some (s\<lparr>cleanup_thread := Before_predicate\<rparr>) else None)"
| "thread_step fl Timeout s =
     (if cleanup_thread s = Blocked then Some (s\<lparr>cleanup_thread := Timed_out\<rparr>) else None)"
| "thread_step fl Check_after_timeout s =
     (if cleanup_thread s = Timed_out
      then Some (s\<lparr>cleanup_thread := (if stop_flag (limiter s) then Loop_left else Sweeping)\<rparr>) else None)"
| "thread_step fl (Sweep now) s =
     (if cleanup_thread s = Sweeping
      then Some (s\<lparr>cleanup_thread := At_head, limiter := cleanup fl now (limiter s)\<rparr>) else None)"
| "thread_step fl Set_flag s =
     (if destructor s = Not_destroyed
      then Some (s\<lparr>limiter := request_stop (limiter s), destructor := Flag_set\<rparr>) else None)"
| "thread_step fl Notify s =
     (if destructor s = Flag_set
      then Some (s\<lparr>destructor := Joining,
                   cleanup_thread := (if cleanup_thread s = Blocked then Before_predicate else cleanup_thread s)\<rparr>)
      else None)"
| "thread_step fl Join_cleanup s =
     (if destructor s = Joining \<and> cleanup_thread s = Loop_left then Some (s\<lparr>destructor := Destroyed\<rparr>) else None)"
| "thread_step fl (Client_call c) s =
     (if destructor s = Not_destroyed
      then Some (s\<lparr>limiter := snd (run_limiter (consume fl) (cleanup fl) [c] (limiter s))\<rparr>) else None)"

inductive threads_run :: "(real \<Rightarrow> real) \<Rightarrow> thread_event list \<Rightarrow> limiter_threads \<Rightarrow> bool" for fl where
  threads_started: "new_rate_limiter mt rate idle = Inr rl \<Longrightarrow> threads_run fl [] (start_threads rl)"
| threads_event: "\<lbrakk> threads_run fl es s; thread_step fl e s = Some s' \<rbrakk> \<Longrightarrow> threads_run fl (es @ [e]) s'"

section \<open>The flag\<close>

lemma stop_flag_frame [simp]:
  "stop_flag (snd (consume fl now i c rl)) = stop_flag rl" "stop_flag (cleanup fl now rl) = stop_flag rl"
  by (simp_all add: consume_def cleanup_def Let_def split: option.splits)

lemma stop_flag_call [simp]: "stop_flag (snd (run_limiter (consume fl) (cleanup fl) [c] rl)) = stop_flag rl"
  by (cases c) (simp_all add: split_beta)

lemma flag_iff_destroying: "threads_run fl es s \<Longrightarrow> stop_flag (limiter s) \<longleftrightarrow> destructor s \<noteq> Not_destroyed"
proof (induction rule: threads_run.induct)
  case (threads_started mt rate idle rl)
  then show ?case by (auto simp: start_threads_def new_rate_limiter_def split: if_splits)
next
  case (threads_event es s e s')
  then show ?case
    by (cases e) (auto simp: request_stop_def simp del: run_limiter.simps split: if_splits)
qed

section \<open>The destructor returns\<close>

text \<open>
  How far the cleanup thread is from leaving its loop once the flag is set, when it does not
  wake up spuriously.
\<close>

fun steps_left :: "cleanup_pc \<Rightarrow> nat" where
  "steps_left Loop_left = 0"
| "steps_left Before_predicate = 1"
| "steps_left At_head = 1"
| "steps_left Timed_out = 1"
| "steps_left Sweeping = 2"
| "steps_left Blocked = 2"
| "steps_left About_to_block = 3"

fun cleanup_thread_event :: "thread_event \<Rightarrow> bool" where
  "cleanup_thread_event Set_flag = False"
| "cleanup_thread_event Notify = False"
| "cleanup_thread_event Join_cleanup = False"
| "cleanup_thread_event (Client_call c) = False"
| "cleanup_thread_event _ = True"

lemma cleanup_thread_progress:
  assumes "stop_flag (limiter s)"
  shows "cleanup_thread s = Loop_left \<or> (\<exists>e s'. cleanup_thread_event e \<and> thread_step fl e s = Some s')"
proof (cases "cleanup_thread s")
  case At_head then show ?thesis by (intro disjI2 exI [of _ Check_head]) simp
next
  case Before_predicate then show ?thesis by (intro disjI2 exI [of _ Check_predicate]) simp
next
  case About_to_block then show ?thesis by (intro disjI2 exI [of _ Block]) simp
next
  case Blocked then show ?thesis by (intro disjI2 exI [of _ Timeout]) simp
next
  case Timed_out then show ?thesis by (intro disjI2 exI [of _ Check_after_timeout]) simp
next
  case Sweeping then show ?thesis by (intro disjI2 exI [of _ "Sweep 0"]) simp
qed simp

lemma thread_step_decreases:
  assumes "thread_step fl e s = Some s'" "stop_flag (limiter s)"
  shows "stop_flag (limiter s') \<and> steps_left (cleanup_thread s') \<le> steps_left (cleanup_thread s) \<and>
    (cleanup_thread_event e \<longrightarrow> steps_left (cleanup_thread s') < steps_left (cleanup_thread s))"
  using assms
  by (cases e) (auto simp: request_stop_def simp del: run_limiter.simps split: if_splits)

fun threads_after :: "(real \<Rightarrow> real) \<Rightarrow> thread_event list \<Rightarrow> limiter_threads \<Rightarrow> limiter_threads option" where
  "threads_after fl [] s = Some s"
| "threads_after fl (e # es) s = Option.bind (thread_step fl e s) (threads_after fl es)"

lemma threads_after_run:
  "threads_run fl es s \<Longrightarrow> threads_after fl es' s = Some s' \<Longrightarrow> threads_run fl (es @ es') s'"
proof (induction es' arbitrary: es s)
  case (Cons e es')
  then obtain s1 where "thread_step fl e s = Some s1" "threads_after fl es' s1 = Some s'"
    by (auto simp: bind_eq_Some_conv)
  with Cons.IH [of "es @ [e]" s1] threads_event [OF Cons.prems(1)] show ?case by simp
qed simp

lemma cleanup_steps_bounded:
  "threads_after fl es s = Some s' \<Longrightarrow> stop_flag (limiter s) \<Longrightarrow>
   length (filter cleanup_thread_event es) + steps_left (cleanup_thread s') \<le> steps_left (cleanup_thread s)"
proof (induction es arbitrary: s)
  case (Cons e es)
  then obtain s1 where s1: "thread_step fl e s = Some s1" "threads_after fl es s1 = Some s'"
    by (auto simp: bind_eq_Some_conv)
  from thread_step_decreases [OF s1(1) Cons.prems(2)] Cons.IH [OF s1(2)] show ?case by auto
qed simp

text \<open>Time-outs and sweeps that begin after the flag is set.\<close>

lemma flagged_step:
  assumes "thread_step fl e s = Some s'" "stop_flag (limiter s)"
  shows "(cleanup_thread s' = Sweeping \<longrightarrow> cleanup_thread s = Sweeping \<and> e \<notin> range Sweep) \<and>
    (e = Timeout \<longrightarrow> cleanup_thread s' = Timed_out) \<and>
    (cleanup_thread s \<in> {Timed_out, Loop_left} \<longrightarrow> cleanup_thread s' \<in> {Timed_out, Loop_left} \<and> e \<noteq> Timeout)"
  using assms
  by (cases e) (auto split: if_splits)

lemma at_most_one_timeout:
  "threads_after fl es s = Some s' \<Longrightarrow> stop_flag (limiter s) \<Longrightarrow>
   count_list es Timeout \<le> (if cleanup_thread s \<in> {Timed_out, Loop_left} then 0 else 1)"
proof (induction es arbitrary: s)
  case (Cons e es)
  then obtain s1 where s1: "thread_step fl e s = Some s1" "threads_after fl es s1 = Some s'"
    by (auto simp: bind_eq_Some_conv)
  have flag: "stop_flag (limiter s1)" using thread_step_decreases [OF s1(1) Cons.prems(2)] by blast
  note step = flagged_step [OF s1(1) Cons.prems(2)] and IH = Cons.IH [OF s1(2) flag]
  show ?case
  proof (cases "cleanup_thread s \<in> {Timed_out, Loop_left}")
    case True
    with step have "cleanup_thread s1 \<in> {Timed_out, Loop_left}" "e \<noteq> Timeout" by blast+
    with IH True show ?thesis by simp
  next
    case False
    with step IH show ?thesis by (cases "e = Timeout") (simp_all split: if_splits)
  qed
qed simp

lemma no_sweep_started:
  "threads_after fl es s = Some s' \<Longrightarrow> stop_flag (limiter s) \<Longrightarrow> cleanup_thread s \<noteq> Sweeping \<Longrightarrow>
   set es \<inter> range Sweep = {}"
proof (induction es arbitrary: s)
  case (Cons e es)
  then obtain s1 where s1: "thread_step fl e s = Some s1" "threads_after fl es s1 = Some s'"
    by (auto simp: bind_eq_Some_conv)
  have flag: "stop_flag (limiter s1)" using thread_step_decreases [OF s1(1) Cons.prems(2)] by blast
  have "e \<notin> range Sweep" using s1(1) Cons.prems(3) by auto
  with flagged_step [OF s1(1) Cons.prems(2)] Cons.IH [OF s1(2) flag] Cons.prems(3) show ?case by auto
qed simp

text \<open>
  C39: The destructor of the limiter returns: once it has set the flag, the cleanup thread can
  always take a step until it has left its loop, takes at most three more (so the join does
  not wait forever), waits for at most one time-out and starts no further sweep.
\<close>

theorem limiter_destructor_returns:
  assumes "threads_run fl es s" and "destructor s \<noteq> Not_destroyed" and "threads_after fl es' s = Some s'"
  shows "length (filter cleanup_thread_event es') \<le> 3 \<and> count_list es' Timeout \<le> 1 \<and>
    (cleanup_thread s \<noteq> Sweeping \<longrightarrow> set es' \<inter> range Sweep = {}) \<and>
    (cleanup_thread s' = Loop_left \<or> (\<exists>e s''. cleanup_thread_event e \<and> thread_step fl e s' = Some s''))"
proof -
  have flag: "stop_flag (limiter s)" using flag_iff_destroying [OF assms(1)] assms(2) by blast
  have "destructor s' \<noteq> Not_destroyed"
    using assms(2,3)
  proof (induction es' arbitrary: s)
    case (Cons e es')
    then obtain s1 where "thread_step fl e s = Some s1" "threads_after fl es' s1 = Some s'"
      by (auto simp: bind_eq_Some_conv)
    with Cons.prems(1) Cons.IH [of s1] show ?case
      by (cases e) (auto simp del: run_limiter.simps split: if_splits)
  qed simp
  then have "stop_flag (limiter s')"
    using flag_iff_destroying [OF threads_after_run [OF assms(1,3)]] by blast
  moreover have "steps_left (cleanup_thread s) \<le> 3" by (cases "cleanup_thread s") simp_all
  ultimately show ?thesis
    using cleanup_steps_bounded [OF assms(3) flag] at_most_one_timeout [OF assms(3) flag]
      no_sweep_started [OF assms(3) flag] cleanup_thread_progress [of s' fl]
    by (auto split: if_splits)
qed

definition lost_notification :: limiter_threads where
  "lost_notification =
     \<lparr>limiter = example_limiter\<lparr>stop_flag := True\<rparr>, cleanup_thread = Blocked, destructor = Joining\<rparr>"

definition lost_events :: "thread_event list" where
  "lost_events = [Check_head, Check_predicate, Set_flag, Notify, Block]"

text \<open>
  The notification may be lost: the thread has seen the flag unset, then the destructor sets it
  and notifies, then the thread blocks. The destructor then waits until the time-out of a
  minute, or a spurious wake-up.
\<close>

lemma notification_lost: "threads_run exact lost_events lost_notification"
proof -
  have "threads_run exact [] (start_threads example_limiter)"
    by (rule threads_run.threads_started [of 5 1 120]) (simp add: new_rate_limiter_def example_limiter_def)
  moreover have "threads_after exact lost_events (start_threads example_limiter) = Some lost_notification"
    by (simp add: lost_events_def lost_notification_def start_threads_def example_limiter_def request_stop_def)
  ultimately show ?thesis using threads_after_run by fastforce
qed

lemma limiter_destructor_returns_witness:
  "length (filter cleanup_thread_event [Timeout, Check_after_timeout]) \<le> 3 \<and>
   count_list [Timeout, Check_after_timeout] Timeout \<le> 1"
proof -
  have "threads_after exact [Timeout, Check_after_timeout] lost_notification =
      Some (lost_notification\<lparr>cleanup_thread := Loop_left\<rparr>)"
    by (simp add: lost_notification_def)
  from limiter_destructor_returns [OF notification_lost _ this] show ?thesis
    by (simp add: lost_notification_def)
qed

text \<open>
  The sequential loop \<open>cleanup_loop\<close> is what the thread does: between two evaluations at the
  head of the loop it evaluates the flag after the wait and sweeps or leaves.
\<close>

lemma iteration_refines_loop:
  assumes "cleanup_thread s = At_head" "\<not> stop_flag (limiter s)"
  shows "threads_after fl [Check_head, Check_predicate, Block, Timeout, Check_after_timeout, Sweep now] s =
    Some (s\<lparr>limiter := snd (cleanup_loop fl
       [\<lparr>stop_at_head = False, stop_after_wait = False, woken_at = now\<rparr>] (limiter s))\<rparr>)"
proof -
  have "s\<lparr>cleanup_thread := At_head, limiter := l\<rparr> = s\<lparr>limiter := l\<rparr>" for l
    using assms(1) by (cases s) simp
  with assms show ?thesis by simp
qed

end
