(* ===== verification/Ordered_Multiset.thy ===== *)
theory Ordered_Multiset
  imports Prelude "HOL-Library.Multiset"
begin

text \<open>
  \<open>std::multiset\<close> as the boards use it: the elements in container order (\<open>begin()\<close>
  first), inserted at the upper bound of their equivalence class, so that of equivalent
  elements the later insertion comes later. An iterator is the position of its element;
  \<open>std::distance(begin(), it)\<close> is that position.

  The comparator's contract is the locale \<open>strict_weak_order\<close>; the boards interpret it on
  their comparators.
\<close>

definition upper_bound :: "('a \<Rightarrow> 'a \<Rightarrow> bool) \<Rightarrow> 'a \<Rightarrow> 'a list \<Rightarrow> nat" where
  "upper_bound lt x xs = length (takeWhile (\<lambda>y. \<not> lt x y) xs)"

definition ms_insert :: "('a \<Rightarrow> 'a \<Rightarrow> bool) \<Rightarrow> 'a \<Rightarrow> 'a list \<Rightarrow> 'a list" where
  "ms_insert lt x xs = take (upper_bound lt x xs) xs @ x # drop (upper_bound lt x xs) xs"

definition ms_sorted :: "('a \<Rightarrow> 'a \<Rightarrow> bool) \<Rightarrow> 'a list \<Rightarrow> bool" where
  "ms_sorted lt = sorted_wrt (\<lambda>a b. \<not> lt b a)"

fun index_of :: "'a \<Rightarrow> 'a list \<Rightarrow> nat" where
  "index_of x [] = 0"
| "index_of x (y # ys) = (if x = y then 0 else Suc (index_of x ys))"

lemma ms_insert_simps [simp]:
  "ms_insert lt x [] = [x]"
  "ms_insert lt x (y # ys) = (if lt x y then x # y # ys else y # ms_insert lt x ys)"
  by (simp_all add: ms_insert_def upper_bound_def)

lemma set_ms_insert [simp]: "set (ms_insert lt x xs) = insert x (set xs)"
  by (induction xs) auto

lemma length_ms_insert [simp]: "length (ms_insert lt x xs) = Suc (length xs)"
  by (induction xs) auto

lemma mset_ms_insert [simp]: "mset (ms_insert lt x xs) = add_mset x (mset xs)"
  by (induction xs) auto

lemma distinct_ms_insert [simp]: "distinct (ms_insert lt x xs) \<longleftrightarrow> x \<notin> set xs \<and> distinct xs"
  by (induction xs) auto

lemma upper_bound_le: "upper_bound lt x xs \<le> length xs"
  by (simp add: upper_bound_def)

lemma upper_bound_all: "upper_bound lt x xs = length xs \<longleftrightarrow> (\<forall>y \<in> set xs. \<not> lt x y)"
  by (induction xs) (auto simp: upper_bound_def)

lemma nth_ms_insert_upper_bound: "ms_insert lt x xs ! upper_bound lt x xs = x"
  by (simp add: ms_insert_def nth_append min_absorb2 upper_bound_le)

lemma index_of_ms_insert: "x \<notin> set xs \<Longrightarrow> index_of x (ms_insert lt x xs) = upper_bound lt x xs"
  by (induction xs) (auto simp: upper_bound_def)

lemma index_of_less: "x \<in> set xs \<Longrightarrow> index_of x xs < length xs"
  by (induction xs) auto

lemma nth_index_of: "x \<in> set xs \<Longrightarrow> xs ! index_of x xs = x"
  by (induction xs) auto

lemma map_ms_insert:
  "\<lbrakk> \<And>y. y \<in> set xs \<Longrightarrow> lt' x y = lt (f x) (f y) \<rbrakk> \<Longrightarrow>
   map f (ms_insert lt' x xs) = ms_insert lt (f x) (map f xs)"
  by (induction xs) auto

lemma upper_bound_map:
  "\<lbrakk> \<And>y. y \<in> set xs \<Longrightarrow> lt' x y = lt (f x) (f y) \<rbrakk> \<Longrightarrow>
   upper_bound lt' x xs = upper_bound lt (f x) (map f xs)"
  by (induction xs) (auto simp: upper_bound_def)

lemma ms_sorted_map: "ms_sorted lt (map f xs) = ms_sorted (\<lambda>a b. lt (f a) (f b)) xs"
  by (simp add: ms_sorted_def sorted_wrt_map)

lemma ms_sorted_remove1: "ms_sorted lt xs \<Longrightarrow> ms_sorted lt (remove1 x xs)"
  unfolding ms_sorted_def by (rule sorted_wrt_remove1)

lemma ms_sorted_butlast: "ms_sorted lt xs \<Longrightarrow> ms_sorted lt (butlast xs)"
  unfolding ms_sorted_def by (cases xs rule: rev_cases) (auto simp: sorted_wrt_append)

lemma ms_sorted_tl: "ms_sorted lt xs \<Longrightarrow> ms_sorted lt (tl xs)"
  unfolding ms_sorted_def by (cases xs) auto

locale strict_weak_order =
  fixes lt :: "'a \<Rightarrow> 'a \<Rightarrow> bool"
  assumes irrefl: "\<not> lt x x"
    and transitive: "lt x y \<Longrightarrow> lt y z \<Longrightarrow> lt x z"
    and negatively_transitive: "lt x z \<Longrightarrow> lt x y \<or> lt y z"
begin

lemma asym: "lt x y \<Longrightarrow> \<not> lt y x"
  using irrefl transitive by blast

lemma sorted_insert: "ms_sorted lt xs \<Longrightarrow> ms_sorted lt (ms_insert lt x xs)"
  unfolding ms_sorted_def
  by (induction xs) (auto dest: asym negatively_transitive)

lemma sorted_prefix_better:
  assumes "ms_sorted lt xs" "lt x y" "y \<in> set xs"
  shows "upper_bound lt x xs \<le> index_of y xs"
  using assms
  by (induction xs)
    (auto simp: upper_bound_def ms_sorted_def dest: negatively_transitive)

lemma last_is_worst:
  assumes "ms_sorted lt xs" "xs \<noteq> []" "y \<in> set xs"
  shows "\<not> lt (last xs) y"
  using assms irrefl
  by (cases xs rule: rev_cases) (auto simp: ms_sorted_def sorted_wrt_append)

lemma inserted_last_iff:
  assumes "ms_sorted lt xs" "xs \<noteq> []"
  shows "upper_bound lt x xs = length xs \<longleftrightarrow> \<not> lt x (last xs)"
proof -
  have "upper_bound lt x xs = length xs \<longleftrightarrow> (\<forall>y \<in> set xs. \<not> lt x y)"
    by (rule upper_bound_all)
  also have "\<dots> \<longleftrightarrow> \<not> lt x (last xs)"
    using last_is_worst [OF assms] negatively_transitive assms(2) last_in_set by metis
  finally show ?thesis .
qed

lemma insert_snoc_iff:
  "ms_sorted lt xs \<Longrightarrow> (xs = [] \<or> \<not> lt x (last xs)) \<Longrightarrow> ms_insert lt x xs = xs @ [x]"
  using inserted_last_iff [of xs x] by (cases "xs = []") (simp_all add: ms_insert_def)

end

text \<open>Where distinct elements are never equivalent, the order of a multiset is unique.\<close>

locale total_strict_order = strict_weak_order +
  fixes key :: "'a \<Rightarrow> 'k"
  assumes total: "key x \<noteq> key y \<Longrightarrow> lt x y \<or> lt y x"
begin

lemma sorted_strict:
  assumes "ms_sorted lt xs" "distinct (map key xs)"
  shows "sorted_wrt lt xs"
  using assms by (induction xs) (auto simp: ms_sorted_def image_iff dest: total)

end

end
