(* ===== verification/Entry.thy ===== *)
theory Entry
  imports Ordered_Multiset
begin

text \<open>
  \<open>src/data_structures/global_boards/entry.hpp\<close>: the entries of the boards and the
  comparators that order them. The stored iterators \<open>position\<close> and
  \<open>ranking_position\<close> are not fields: an iterator into a ranking is the position of the
  entry's pointer in it, which the boards recompute (\<open>index_of\<close>).

  The score type \<open>T\<close> of the templates is a linearly ordered type variable.
\<close>

section \<open>Entries and comparators\<close>

record entry =
  name :: string
  timestamp :: time_s
  entry_id :: u64

record 's leaderboard_entry = entry +
  score :: 's

record 's score_stream_entry = entry +
  stream_score :: 's

definition entry_comparator :: "'a entry_scheme \<Rightarrow> 'a entry_scheme \<Rightarrow> bool" where
  "entry_comparator a b =
     (if timestamp a \<noteq> timestamp b then timestamp a < timestamp b else entry_id a < entry_id b)"

definition leaderboard_entry_comparator ::
    "bool \<Rightarrow> ('s::linorder) leaderboard_entry \<Rightarrow> 's leaderboard_entry \<Rightarrow> bool" where
  "leaderboard_entry_comparator highest_first a b =
     (if score a \<noteq> score b
      then (if highest_first then score a > score b else score a < score b)
      else entry_comparator a b)"

text \<open>The pointer comparators dereference: \<open>mem\<close> is the memory the pointers point into.\<close>

definition entry_ptr_comparator :: "('p \<Rightarrow> entry) \<Rightarrow> 'p \<Rightarrow> 'p \<Rightarrow> bool" where
  "entry_ptr_comparator mem a b =
     (if timestamp (mem a) \<noteq> timestamp (mem b) then timestamp (mem a) < timestamp (mem b)
      else entry_id (mem a) < entry_id (mem b))"

definition leaderboard_entry_ptr_comparator ::
    "bool \<Rightarrow> ('p \<Rightarrow> ('s::linorder) leaderboard_entry) \<Rightarrow> 'p \<Rightarrow> 'p \<Rightarrow> bool" where
  "leaderboard_entry_ptr_comparator highest_first mem a b =
     leaderboard_entry_comparator highest_first (mem a) (mem b)"

section \<open>The comparators meet the contract of \<open>std::multiset\<close>\<close>

interpretation entry_order: total_strict_order entry_comparator entry_id
  by unfold_locales (auto simp: entry_comparator_def split: if_splits)

interpretation leaderboard_order: total_strict_order "leaderboard_entry_comparator hf" entry_id for hf
  by unfold_locales (auto simp: leaderboard_entry_comparator_def entry_comparator_def split: if_splits)

lemma entry_ptr_comparator_at:
  "entry_ptr_comparator mem = (\<lambda>a b. entry_comparator (mem a) (mem b))"
  by (simp add: fun_eq_iff entry_ptr_comparator_def entry_comparator_def)

lemma leaderboard_ptr_comparator_at:
  "leaderboard_entry_ptr_comparator hf mem = (\<lambda>a b. leaderboard_entry_comparator hf (mem a) (mem b))"
  by (simp add: fun_eq_iff leaderboard_entry_ptr_comparator_def)

section \<open>Copying a stretch of a ranking\<close>

text \<open>
  The loops \<open>for (...; ++it) result.push_back(**it)\<close> of the boards' queries: \<open>n\<close>
  iterations, an iterator given by the pointers from its position on. Dereferencing the
  past-the-end iterator is undefined behaviour.
\<close>

fun copy_entries :: "('p \<Rightarrow> 'e) \<Rightarrow> nat \<Rightarrow> 'p list \<Rightarrow> 'e list \<Rightarrow> 'e list outcome" where
  "copy_entries mem 0 it result = Inr result"
| "copy_entries mem (Suc n) [] result = Inl (Undefined_behaviour ''dereference of end()'')"
| "copy_entries mem (Suc n) (p # it) result = copy_entries mem n it (result @ [mem p])"

lemma copy_entries_eq [simp]:
  "n \<le> length it \<Longrightarrow> copy_entries mem n it result = Inr (result @ map mem (take n it))"
  by (induction mem n it result rule: copy_entries.induct) auto

lemma copy_prefix:
  "copy_entries mem (min k (length ps)) ps [] = Inr (take k (map mem ps))"
  by (simp add: take_map min_def)

lemma copy_stretch:
  "copy_entries mem (min k (length ps) - m) (drop m ps) [] = Inr (take (k - m) (drop m (map mem ps)))"
  by (simp add: take_map drop_map min_def)

section \<open>Renumbering\<close>

text \<open>Reloading a board gives its entries the ids 0, 1, 2, \<dots> in file order.\<close>

definition relabel :: "'a entry_scheme list \<Rightarrow> 'a entry_scheme list" where
  "relabel es = map (\<lambda>i. (es ! i)\<lparr>entry_id := of_nat i\<rparr>) [0..<length es]"

lemma relabel_Nil [simp]: "relabel [] = []"
  by (simp add: relabel_def)

lemma relabel_snoc: "relabel (es @ [e]) = relabel es @ [e\<lparr>entry_id := of_nat (length es)\<rparr>]"
  by (simp add: relabel_def nth_append)

lemma length_relabel [simp]: "length (relabel es) = length es"
  by (simp add: relabel_def)

lemma map_relabel:
  "(\<And>e i. f (e\<lparr>entry_id := i\<rparr>) = f e) \<Longrightarrow> map f (relabel es) = map f es"
  by (simp add: relabel_def map_nth o_def flip: map_map [of f "(!) es", unfolded o_def])

lemma last_relabel:
  "es \<noteq> [] \<Longrightarrow> last (relabel es) = (last es)\<lparr>entry_id := of_nat (length es - 1)\<rparr>"
  by (cases es rule: rev_cases) (simp_all add: relabel_snoc)

lemma fresh_label_not_less:
  "es \<noteq> [] \<Longrightarrow> length es < 2 ^ 64 \<Longrightarrow> \<not> (of_nat (length es) :: u64) < of_nat (length es - 1)"
  by (simp add: word_less_nat_alt word_size_simps)

text \<open>Fresh ids in ranking order do not change the order.\<close>

lemma relabelled_entry_not_earlier:
  assumes "ms_sorted entry_comparator (es @ [e])" "es \<noteq> []" "length es < 2 ^ 64"
  shows "\<not> entry_comparator (e\<lparr>entry_id := of_nat (length es)\<rparr>) (last (relabel es))"
proof -
  have "\<not> entry_comparator e (last es)"
    using assms(1,2) by (auto simp: ms_sorted_def sorted_wrt_append)
  with fresh_label_not_less [OF assms(2,3)] show ?thesis
    by (auto simp: last_relabel [OF assms(2)] entry_comparator_def split: if_splits)
qed

lemma relabelled_not_better:
  assumes "ms_sorted (leaderboard_entry_comparator hf) (es @ [e])" "es \<noteq> []" "length es < 2 ^ 64"
  shows "\<not> leaderboard_entry_comparator hf (e\<lparr>entry_id := of_nat (length es)\<rparr>) (last (relabel es))"
proof -
  have "\<not> leaderboard_entry_comparator hf e (last es)"
    using assms(1,2) by (auto simp: ms_sorted_def sorted_wrt_append)
  with fresh_label_not_less [OF assms(2,3)] show ?thesis
    by (auto simp: last_relabel [OF assms(2)] leaderboard_entry_comparator_def entry_comparator_def
        split: if_splits)
qed

end
