(* ===== verification/Json_Store.thy ===== *)
theory Json_Store
  imports Entry
begin

text \<open>
  What the boards' persistence shares: JSON documents, the calls into
  \<open>nlohmann::json\<close> (third-party code, a parameter of the model), the file system the
  save files live in, and the write-then-rename sequence that the three \<open>save\<close> members
  have in common.
\<close>

section \<open>Documents and the JSON library\<close>

datatype json =
    JNull
  | JBool bool
  | JInt int
  | JFloat real
  | JString string
  | JArray "json list"
  | JObject "(string \<times> json) list"

text \<open>
  The library calls the sources make, as far as they are not mere access to the document:
  \<open>dump\<close> (\<open>None\<close>: throws, as it does on strings that are not UTF-8), \<open>parse\<close>
  (\<open>operator>>\<close>; \<open>None\<close>: throws) and the conversions \<open>get<T>()\<close> and
  construction from a score.
\<close>

record ('txt, 's) json_lib =
  dump :: "json \<Rightarrow> 'txt option"
  parse :: "'txt \<Rightarrow> json option"
  get_string :: "json \<Rightarrow> string option"
  get_int64 :: "json \<Rightarrow> time_s option"
  get_uint64 :: "json \<Rightarrow> u64 option"
  get_score :: "json \<Rightarrow> 's option"
  put_score :: "'s \<Rightarrow> json"

definition in_int64 :: "int \<Rightarrow> bool" where
  "in_int64 t \<longleftrightarrow> - (2 ^ 63) \<le> t \<and> t < 2 ^ 63"

text \<open>
  The documented behaviour the round trips rely on: parsing undoes dumping, and the
  conversions undo the construction of strings, integers of their range, and scores.
\<close>

definition json_lib_laws :: "('txt, 's) json_lib \<Rightarrow> bool" where
  "json_lib_laws lib \<longleftrightarrow>
     (\<forall>j t. dump lib j = Some t \<longrightarrow> parse lib t = Some j)
     \<and> (\<forall>s. get_string lib (JString s) = Some s)
     \<and> (\<forall>i. in_int64 i \<longrightarrow> get_int64 lib (JInt i) = Some i)
     \<and> (\<forall>n. get_uint64 lib (JInt (uint n)) = Some n)
     \<and> (\<forall>s. get_score lib (put_score lib s) = Some s)"

text \<open>\<open>j.at(key)\<close>: throws unless \<open>j\<close> is an object with that key.\<close>

fun json_at :: "json \<Rightarrow> string \<Rightarrow> json option" where
  "json_at (JObject kvs) key = map_of kvs key"
| "json_at _ key = None"

fun is_object :: "json \<Rightarrow> bool" where
  "is_object (JObject _) = True"
| "is_object _ = False"

section \<open>The serialisers of \<open>entry.hpp\<close>\<close>

definition entry_to_json :: "entry \<Rightarrow> json" where
  "entry_to_json e = JObject
     [(''name'', JString (name e)), (''timestamp'', JInt (timestamp e)),
      (''id'', JInt (uint (entry_id e)))]"

definition entry_from_json :: "('txt, 's) json_lib \<Rightarrow> json \<Rightarrow> entry option" where
  "entry_from_json lib j =
     Option.bind (Option.bind (json_at j ''name'') (get_string lib)) (\<lambda>n.
     Option.bind (Option.bind (json_at j ''timestamp'') (get_int64 lib)) (\<lambda>t.
     Option.bind (Option.bind (json_at j ''id'') (get_uint64 lib)) (\<lambda>i.
     Some \<lparr>name = n, timestamp = t, entry_id = i\<rparr>)))"

definition leaderboard_entry_to_json :: "('txt, 's) json_lib \<Rightarrow> 's leaderboard_entry \<Rightarrow> json" where
  "leaderboard_entry_to_json lib e = JObject
     [(''name'', JString (name e)), (''timestamp'', JInt (timestamp e)),
      (''score'', put_score lib (score e))]"

text \<open>
  \<open>from_json\<close> of a leaderboard entry assigns three fields of its target and leaves the
  \<open>id\<close> the target had.
\<close>

definition leaderboard_entry_from_json ::
    "('txt, 's) json_lib \<Rightarrow> json \<Rightarrow> 's leaderboard_entry \<Rightarrow> 's leaderboard_entry option" where
  "leaderboard_entry_from_json lib j e =
     Option.bind (Option.bind (json_at j ''name'') (get_string lib)) (\<lambda>n.
     Option.bind (Option.bind (json_at j ''timestamp'') (get_int64 lib)) (\<lambda>t.
     Option.bind (Option.bind (json_at j ''score'') (get_score lib)) (\<lambda>s.
     Some (e\<lparr>name := n, timestamp := t, score := s\<rparr>))))"

definition score_stream_entry_to_json :: "('txt, 's) json_lib \<Rightarrow> 's score_stream_entry \<Rightarrow> json" where
  "score_stream_entry_to_json lib e = JObject
     [(''name'', JString (name e)), (''timestamp'', JInt (timestamp e)),
      (''score'', put_score lib (stream_score e))]"

definition score_stream_entry_from_json ::
    "('txt, 's) json_lib \<Rightarrow> json \<Rightarrow> 's score_stream_entry \<Rightarrow> 's score_stream_entry option" where
  "score_stream_entry_from_json lib j e =
     Option.bind (Option.bind (json_at j ''name'') (get_string lib)) (\<lambda>n.
     Option.bind (Option.bind (json_at j ''timestamp'') (get_int64 lib)) (\<lambda>t.
     Option.bind (Option.bind (json_at j ''score'') (get_score lib)) (\<lambda>s.
     Some (e\<lparr>name := n, timestamp := t, stream_score := s\<rparr>))))"

text \<open>
  Reading back what was written: all three fields of an entry, and the three serialised fields
  of a scored entry, into a target whose \<open>id\<close> is kept.
\<close>

lemma serialisers_roundtrip:
  assumes "json_lib_laws lib" "in_int64 (timestamp e)"
  shows "entry_from_json lib (entry_to_json e) = Some e"
  using assms by (simp add: entry_from_json_def entry_to_json_def json_lib_laws_def)

lemma scored_serialisers_roundtrip:
  assumes "json_lib_laws lib" "in_int64 (timestamp e)" "in_int64 (timestamp f)"
  shows "leaderboard_entry_from_json lib (leaderboard_entry_to_json lib e) e0 =
      Some (e\<lparr>entry_id := entry_id e0\<rparr>)"
    and "score_stream_entry_from_json lib (score_stream_entry_to_json lib f) f0 =
      Some (f\<lparr>entry_id := entry_id f0\<rparr>)"
  using assms by (simp_all add: leaderboard_entry_from_json_def leaderboard_entry_to_json_def
      score_stream_entry_from_json_def score_stream_entry_to_json_def json_lib_laws_def)

section \<open>Save files\<close>

text \<open>
  A file system maps paths to contents. The outcomes that the operating system decides are
  the record \<open>io_outcomes\<close>: whether \<open>std::ofstream\<close> opens, whether the stream is good
  after \<open>flush\<close>, what a failed write left behind, whether \<open>rename\<close> throws and whether
  \<open>remove\<close> succeeds.
\<close>

type_synonym 'txt file_system = "string \<rightharpoonup> 'txt"

record 'txt io_outcomes =
  open_ok :: bool
  truncated :: 'txt
  flush_ok :: bool
  partly_written :: 'txt
  rename_ok :: bool
  remove_ok :: bool

definition temp_path :: "string \<Rightarrow> string" where
  "temp_path file_path = file_path @ ''.tmp''"

definition remove_file :: "'txt io_outcomes \<Rightarrow> string \<Rightarrow> 'txt file_system \<Rightarrow> 'txt file_system" where
  "remove_file io p fs = (if remove_ok io then fs(p := None) else fs)"

text \<open>The body of the three \<open>save\<close> members, once the document is built.\<close>

definition write_document ::
    "('txt, 's) json_lib \<Rightarrow> 'txt io_outcomes \<Rightarrow> string \<Rightarrow> json \<Rightarrow> 'txt file_system \<Rightarrow>
     bool \<times> 'txt file_system" where
  "write_document lib io file_path j fs =
     (let tmp = temp_path file_path in
      if \<not> open_ok io then (False, fs)
      else let fs1 = fs(tmp \<mapsto> truncated io) in
        case dump lib j of
          None \<Rightarrow> (False, remove_file io tmp fs1)
        | Some text \<Rightarrow>
            if \<not> flush_ok io then (False, fs1(tmp \<mapsto> partly_written io))
            else let fs2 = fs1(tmp \<mapsto> text) in
              if rename_ok io then (True, (fs2(file_path \<mapsto> text))(tmp := None))
              else (False, remove_file io tmp fs2))"

lemma temp_path_neq [simp]: "temp_path p \<noteq> p" "p \<noteq> temp_path p"
  by (simp_all add: temp_path_def)

lemma write_document_outcome:
  assumes "write_document lib io p j fs = (ok, fs')"
  shows "ok \<Longrightarrow> \<exists>t. dump lib j = Some t \<and> fs' p = Some t \<and> fs' (temp_path p) = None"
    and "\<not> ok \<Longrightarrow> fs' p = fs p"
    and "q \<noteq> p \<Longrightarrow> q \<noteq> temp_path p \<Longrightarrow> fs' q = fs q"
  using assms
  by (auto simp: write_document_def Let_def remove_file_def split: if_splits option.splits)

text \<open>
  What a save promises: either it reports success and the file holds the document, or it
  reports failure and the file is as before; only the temporary file is touched besides.
\<close>

definition all_or_nothing ::
    "('txt, 's) json_lib \<Rightarrow> string \<Rightarrow> json \<Rightarrow> 'txt file_system \<Rightarrow> bool \<times> 'txt file_system \<Rightarrow> bool" where
  "all_or_nothing lib p j fs r \<longleftrightarrow>
     (\<exists>text. dump lib j = Some text \<and> r = (True, (fs(p \<mapsto> text))(temp_path p := None)))
     \<or> (\<exists>tmp. r = (False, fs(temp_path p := tmp)))"

lemma write_document_all_or_nothing: "all_or_nothing lib p j fs (write_document lib io p j fs)"
proof -
  have "\<exists>tmp. fs = fs(temp_path p := tmp)" by (rule exI [of _ "fs (temp_path p)"]) simp
  then show ?thesis
    unfolding all_or_nothing_def write_document_def Let_def remove_file_def
    by (auto simp: fun_upd_twist split: option.splits)
qed

section \<open>A concrete library, for examples\<close>

text \<open>Documents as their own serialisation: the laws can be met.\<close>

definition plain_json_lib :: "(json, int) json_lib" where
  "plain_json_lib =
     \<lparr>dump = Some, parse = Some,
      get_string = (\<lambda>j. case j of JString s \<Rightarrow> Some s | _ \<Rightarrow> None),
      get_int64 = (\<lambda>j. case j of JInt i \<Rightarrow> Some i | _ \<Rightarrow> None),
      get_uint64 = (\<lambda>j. case j of JInt i \<Rightarrow> Some (of_int i) | _ \<Rightarrow> None),
      get_score = (\<lambda>j. case j of JInt i \<Rightarrow> Some i | _ \<Rightarrow> None),
      put_score = JInt\<rparr>"

definition fair_weather :: "json io_outcomes" where
  "fair_weather =
     \<lparr>open_ok = True, truncated = JNull, flush_ok = True, partly_written = JNull,
      rename_ok = True, remove_ok = True\<rparr>"

lemma plain_json_lib_laws: "json_lib_laws plain_json_lib"
  by (simp add: json_lib_laws_def plain_json_lib_def)

text \<open>The item counter of the \<open>load\<close> loops, one step.\<close>

lemma item_count_step:
  assumes "n < unat msize"
  shows "(of_nat n :: u64) + 1 = of_nat (Suc n)" "(of_nat n :: u64) + 1 \<le> msize"
    "\<not> msize < (of_nat n :: u64) + 1"
proof -
  show e: "(of_nat n :: u64) + 1 = of_nat (Suc n)" by simp
  show le: "(of_nat n :: u64) + 1 \<le> msize"
    unfolding e using assms unat_u64_bound [of msize]
    by (simp only: word_le_nat_alt) (subst unat_of_nat_u64, simp_all)
  then show "\<not> msize < (of_nat n :: u64) + 1" by simp
qed

lemma item_count_break:
  assumes "msize \<noteq> - 1"
  shows "msize < (of_nat (unat msize) :: u64) + 1"
proof -
  have "1 + msize \<noteq> 0" using assms by (metis add_eq_0_iff)
  then have "unat (msize + 1) = Suc (unat msize)" by (simp add: unatSuc add.commute)
  then show ?thesis by (simp add: word_less_nat_alt)
qed

lemma item_count_next:
  fixes k msize :: u64
  assumes "\<not> msize < k + 1" "unat k \<le> unat msize" "msize \<noteq> - 1"
  shows "unat (k + 1) = Suc (unat k)" "Suc (unat k) \<le> unat msize"
proof -
  have "k \<noteq> - 1" using assms by (metis word_le_nat_alt word_order.extremum_uniqueI)
  then show "unat (k + 1) = Suc (unat k)" by (metis unatSuc add.commute eq_neg_iff_add_eq_0)
  with assms(1) show "Suc (unat k) \<le> unat msize" by (simp add: not_less word_le_nat_alt)
qed

end
