(* ===== verification/Http_Parser.thy ===== *)
theory Http_Parser
  imports Json_Store
begin

text \<open>
  \<open>network/communication/http_parser.hpp\<close>: the query-string parser and the functions
  that fill in a response.

  The HTTP messages themselves belong to Boost.Beast: the members the sources call are the
  record \<open>beast\<close>, a parameter of the model. \<open>std::stod\<close> reads numbers in the syntax of
  the process's C locale, so it is a parameter too: \<open>Some (d, n)\<close> is a double read from the
  first \<open>n\<close> characters, \<open>None\<close> an exception. \<open>std::stoll\<close> is modelled, for the blanks
  of the default locale.
\<close>

section \<open>Numbers\<close>

definition is_blank :: "char \<Rightarrow> bool" where
  "is_blank c \<longleftrightarrow> c \<in> {CHR 0x20, CHR 0x09, CHR 0x0A, CHR 0x0B, CHR 0x0C, CHR 0x0D}"

definition digit_value :: "char \<Rightarrow> nat" where
  "digit_value c = of_char c - 48"

definition is_digit :: "char \<Rightarrow> bool" where
  "is_digit c \<longleftrightarrow> 48 \<le> (of_char c :: nat) \<and> (of_char c :: nat) \<le> 57"

definition digits_value :: "string \<Rightarrow> nat" where
  "digits_value ds = foldl (\<lambda>n c. 10 * n + digit_value c) 0 ds"

text \<open>\<open>std::stoll(value, &pos)\<close>: the number and \<open>pos\<close>, or \<open>None\<close> for a throw.\<close>

definition stoll :: "string \<Rightarrow> (int \<times> nat) option" where
  "stoll value =
     (let blanks = takeWhile is_blank value;
          rest = dropWhile is_blank value;
          signed = rest \<noteq> [] \<and> (hd rest = CHR ''-'' \<or> hd rest = CHR ''+'');
          negative = rest \<noteq> [] \<and> hd rest = CHR ''-'';
          digits = takeWhile is_digit (if signed then tl rest else rest);
          i = (if negative then - int (digits_value digits) else int (digits_value digits))
      in if digits = [] then None
         else if \<not> in_int64 i then None
         else Some (i, length blanks + (if signed then 1 else 0) + length digits))"

section \<open>The query parser\<close>

datatype 'd query_value = Q_int int | Q_float 'd | Q_string string

type_synonym 'd params = "string \<rightharpoonup> 'd query_value"

text \<open>\<open>s.find(c, i)\<close> and \<open>s.substr(i, n)\<close>.\<close>

definition find_from :: "char \<Rightarrow> string \<Rightarrow> nat \<Rightarrow> nat option" where
  "find_from c s i =
     (if c \<in> set (drop i s) then Some (i + length (takeWhile (\<lambda>x. x \<noteq> c) (drop i s))) else None)"

definition substr :: "string \<Rightarrow> nat \<Rightarrow> nat \<Rightarrow> string" where
  "substr s i n = take n (drop i s)"

definition parse_value :: "(string \<Rightarrow> ('d \<times> nat) option) \<Rightarrow> string \<Rightarrow> 'd query_value" where
  "parse_value stod value =
     (let as_float = (case stod value of
            Some (f, pos) \<Rightarrow> if pos = length value then Q_float f else Q_string value
          | None \<Rightarrow> Q_string value)
      in case stoll value of
           Some (i, pos) \<Rightarrow> if pos = length value then Q_int i else as_float
         | None \<Rightarrow> as_float)"

definition parse_pair :: "(string \<Rightarrow> ('d \<times> nat) option) \<Rightarrow> string \<Rightarrow> 'd params \<Rightarrow> 'd params" where
  "parse_pair stod pair params =
     (case find_from (CHR ''='') pair 0 of
        None \<Rightarrow> params
      | Some eq \<Rightarrow> params(substr pair 0 eq \<mapsto> parse_value stod (drop (eq + 1) pair)))"

function parse_loop ::
    "(string \<Rightarrow> ('d \<times> nat) option) \<Rightarrow> string \<Rightarrow> nat \<Rightarrow> 'd params \<Rightarrow> 'd params" where
  "parse_loop stod query start params =
     (if start < length query then
        let amp = (case find_from (CHR ''&'') query start of None \<Rightarrow> length query | Some a \<Rightarrow> a)
        in parse_loop stod query (amp + 1) (parse_pair stod (substr query start (amp - start)) params)
      else params)"
  by pat_completeness auto
termination
  by (relation "measure (\<lambda>(stod, query, start, params). length query - start)")
    (auto simp: find_from_def split: option.splits)

definition parse_query :: "(string \<Rightarrow> ('d \<times> nat) option) \<Rightarrow> string \<Rightarrow> 'd params" where
  "parse_query stod target =
     (case find_from (CHR ''?'') target 0 of
        None \<Rightarrow> Map.empty
      | Some pos \<Rightarrow> parse_loop stod (drop (pos + 1) target) 0 Map.empty)"

section \<open>Responses\<close>

datatype http_status =
    Status_ok | Bad_request | Not_found | Unauthorized | Too_many_requests | Service_unavailable

record ('rq, 'rs) beast =
  rq_version :: "'rq \<Rightarrow> nat"
  rq_body_size :: "'rq \<Rightarrow> size_t"
  rq_moved_from :: "'rq \<Rightarrow> 'rq"
  fresh_response :: 'rs
  set_version :: "nat \<Rightarrow> 'rs \<Rightarrow> 'rs"
  set_result :: "http_status \<Rightarrow> 'rs \<Rightarrow> 'rs"
  set_content_type :: "string \<Rightarrow> 'rs \<Rightarrow> 'rs"
  set_body :: "string \<Rightarrow> 'rs \<Rightarrow> 'rs"
  prepare_payload :: "'rs \<Rightarrow> 'rs"
  set_keep_alive :: "bool \<Rightarrow> 'rs \<Rightarrow> 'rs"
  keep_alive :: "'rs \<Rightarrow> bool"

definition text_response :: "('rq, 'rs, 'z) beast_scheme \<Rightarrow> http_status \<Rightarrow> string \<Rightarrow> 'rs \<Rightarrow> 'rs" where
  "text_response bst status response_text response =
     set_body bst response_text (set_content_type bst ''text/plain'' (set_result bst status response))"

definition set_response_bad_request :: "('rq, 'rs, 'z) beast_scheme \<Rightarrow> string \<Rightarrow> 'rs \<Rightarrow> 'rs" where
  "set_response_bad_request bst response_text response = text_response bst Bad_request response_text response"

definition set_response_not_found :: "('rq, 'rs, 'z) beast_scheme \<Rightarrow> string \<Rightarrow> 'rs \<Rightarrow> 'rs" where
  "set_response_not_found bst response_text response =
     set_body bst response_text (set_result bst Not_found (set_content_type bst ''text/plain'' response))"

text \<open>
  \<open>dump\<close> may throw, after the content type has been set: the result pairs the outcome with
  the response the caller is left with.
\<close>

definition set_response_json ::
    "('rq, 'rs, 'z) beast_scheme \<Rightarrow> (string, 's) json_lib \<Rightarrow> json \<Rightarrow> 'rs \<Rightarrow> unit outcome \<times> 'rs" where
  "set_response_json bst lib j response =
     (let r = set_content_type bst ''application/json'' response in
      case dump lib j of
        None \<Rightarrow> (Inl (Runtime_error ''json.exception.type_error''), r)
      | Some text \<Rightarrow> (Inr (), set_body bst text r))"

definition set_response_unauthorized :: "('rq, 'rs, 'z) beast_scheme \<Rightarrow> string \<Rightarrow> 'rs \<Rightarrow> 'rs" where
  "set_response_unauthorized bst response_text response = text_response bst Unauthorized response_text response"

definition set_response_rate_limited :: "('rq, 'rs, 'z) beast_scheme \<Rightarrow> string \<Rightarrow> 'rs \<Rightarrow> 'rs" where
  "set_response_rate_limited bst response_text response =
     text_response bst Too_many_requests response_text response"

definition set_response_server_overloaded :: "('rq, 'rs, 'z) beast_scheme \<Rightarrow> 'rs \<Rightarrow> 'rs" where
  "set_response_server_overloaded bst response =
     text_response bst Service_unavailable ''Server overloaded'' response"

text \<open>
  What the connection relies on of Beast: \<open>keep_alive\<close> reads back what was set and is not
  touched by \<open>prepare_payload\<close>, which may be repeated.
\<close>

definition beast_laws :: "('rq, 'rs, 'z) beast_scheme \<Rightarrow> bool" where
  "beast_laws bst \<longleftrightarrow>
     (\<forall>b r. keep_alive bst (set_keep_alive bst b r) = b)
     \<and> (\<forall>r. keep_alive bst (prepare_payload bst r) = keep_alive bst r)
     \<and> (\<forall>r. prepare_payload bst (prepare_payload bst r) = prepare_payload bst r)"


section \<open>The loop against its specification\<close>

declare parse_loop.simps [simp del]

lemma takeWhile_before: "c \<notin> set a \<Longrightarrow> takeWhile (\<lambda>x. x \<noteq> c) (a @ c # b) = a"
  by (induction a) auto

lemma find_from_Some:
  "c \<notin> set a \<Longrightarrow> drop i s = a @ c # b \<Longrightarrow> find_from c s i = Some (i + length a)"
  by (simp add: find_from_def takeWhile_before)

lemma find_from_None: "c \<notin> set (drop i s) \<Longrightarrow> find_from c s i = None"
  by (simp add: find_from_def)

lemma parse_pair_empty [simp]: "parse_pair stod [] params = params"
  by (simp add: parse_pair_def find_from_def)

lemma parse_pair_key_value:
  "CHR ''='' \<notin> set k \<Longrightarrow> parse_pair stod (k @ CHR ''='' # v) params = params(k \<mapsto> parse_value stod v)"
  by (simp add: parse_pair_def find_from_Some substr_def)

lemma parse_loop_fold:
  "start \<le> length query \<Longrightarrow>
   parse_loop stod query start params =
     foldl (\<lambda>ps pair. parse_pair stod pair ps) params (split_on (CHR ''&'') (drop start query))"
proof (induction stod query start params rule: parse_loop.induct)
  case (1 stod query start params)
  consider "start = length query"
    | "start < length query" "CHR ''&'' \<notin> set (drop start query)"
    | a b where "start < length query" "CHR ''&'' \<notin> set a" "drop start query = a @ CHR ''&'' # b"
    using "1.prems" split_list_first [of "CHR ''&''" "drop start query"] by fastforce
  then show ?case
  proof cases
    case 1
    then show ?thesis by (simp add: parse_loop.simps)
  next
    case 2
    then show ?thesis
      by (subst parse_loop.simps) (simp add: find_from_None substr_def parse_loop.simps [of _ _ "Suc (length query)"])
  next
    case 3
    have "length query = start + length a + 1 + length b"
      using arg_cong [OF 3(3), of length] 3(1) by simp
    moreover have "drop (start + length a + 1) query = b"
      using arg_cong [OF 3(3), of "drop (length a + 1)"] by (simp add: add.commute add.left_commute)
    ultimately show ?thesis
      using "1.IH" [OF 3(1), of "start + length a"] 3 find_from_Some [OF 3(2,3)]
      by (subst parse_loop.simps) (simp add: substr_def split_on_snoc_sep)
  qed
qed

text \<open>Printing query strings and integers, the inverse of the parser.\<close>

definition query_pair :: "string \<times> string \<Rightarrow> string" where
  "query_pair kv = fst kv @ CHR ''='' # snd kv"

fun query_string :: "(string \<times> string) list \<Rightarrow> string" where
  "query_string [] = []"
| "query_string [kv] = query_pair kv"
| "query_string (kv # kvs) = query_pair kv @ CHR ''&'' # query_string kvs"

definition plain_pair :: "string \<times> string \<Rightarrow> bool" where
  "plain_pair kv \<longleftrightarrow> CHR ''='' \<notin> set (fst kv) \<and> CHR ''&'' \<notin> set (fst kv) \<and> CHR ''&'' \<notin> set (snd kv)"

fun decimal :: "nat \<Rightarrow> string" where
  "decimal n = (if n < 10 then [char_of (48 + n)] else decimal (n div 10) @ [char_of (48 + n mod 10)])"

definition decimal_int :: "int \<Rightarrow> string" where
  "decimal_int i = (if i < 0 then CHR ''-'' # decimal (nat (- i)) else decimal (nat i))"

declare decimal.simps [simp del]

lemma digit_char:
  assumes "d < 10"
  shows "is_digit (char_of (48 + d))" "digit_value (char_of (48 + d)) = d"
  using assms by (simp_all add: is_digit_def digit_value_def)

lemma decimal_digits: "list_all is_digit (decimal n) \<and> decimal n \<noteq> [] \<and> digits_value (decimal n) = n"
proof (induction n rule: decimal.induct)
  case (1 n)
  show ?case
  proof (cases "n < 10")
    case True
    then show ?thesis by (subst (1 2 3) decimal.simps) (simp add: digit_char digits_value_def)
  next
    case False
    with 1 have IH: "list_all is_digit (decimal (n div 10))" "digits_value (decimal (n div 10)) = n div 10"
      by blast+
    from False show ?thesis
      by (subst (1 2 3) decimal.simps) (simp add: IH digit_char digits_value_def [of "_ @ _"] flip: digits_value_def)
  qed
qed

lemma digit_not_special: "is_digit c \<Longrightarrow> \<not> is_blank c \<and> c \<noteq> CHR ''-'' \<and> c \<noteq> CHR ''+''"
  by (auto simp: is_digit_def is_blank_def)

lemma stoll_decimal:
  assumes "in_int64 i"
  shows "stoll (decimal_int i) = Some (i, length (decimal_int i))"
proof -
  have tw: "takeWhile is_digit (decimal n) = decimal n" for n
    using decimal_digits [of n] by (simp add: list_all_iff)
  show ?thesis
  proof (cases "i < 0")
    case True
    with assms decimal_digits [of "nat (- i)"] show ?thesis
      by (simp add: stoll_def decimal_int_def Let_def tw is_blank_def)
  next
    case False
    obtain d ds where d: "decimal (nat i) = d # ds" "is_digit d"
      using decimal_digits [of "nat i"] by (cases "decimal (nat i)") auto
    have "takeWhile is_digit ds = ds" "digits_value (d # ds) = nat i"
      using tw [of "nat i"] decimal_digits [of "nat i"] d(1) by (simp_all del: takeWhile_eq_all_conv split: if_splits)
    with False assms d digit_not_special [OF d(2)] show ?thesis
      by (simp add: stoll_def decimal_int_def Let_def del: takeWhile_eq_all_conv)
  qed
qed


lemma query_string_split:
  assumes "list_all plain_pair kvs" "kvs \<noteq> []"
  shows "split_on (CHR ''&'') (query_string kvs) = map query_pair kvs"
  using assms
proof (induction kvs rule: query_string.induct)
  case (3 kv kv' kvs)
  then have "CHR ''&'' \<notin> set (query_pair kv)" by (simp add: query_pair_def plain_pair_def)
  with 3 show ?case by (simp add: split_on_snoc_sep)
qed (simp_all add: query_pair_def plain_pair_def)

lemma foldl_parse_pairs:
  "list_all plain_pair kvs \<Longrightarrow>
   foldl (\<lambda>ps pair. parse_pair stod pair ps) ps (map query_pair kvs) =
     ps ++ map_of (rev (map (\<lambda>(k, v). (k, parse_value stod v)) kvs))"
proof (induction kvs arbitrary: ps)
  case (Cons kv kvs)
  obtain k v where "kv = (k, v)" by (cases kv)
  with Cons show ?case
    by (simp add: parse_pair_key_value query_pair_def plain_pair_def map_add_def fun_eq_iff split: option.splits)
qed simp

section \<open>Properties\<close>

text \<open>
  C31: The index loop of \<open>parse_query\<close> is the split it means to be, and ends on every
  input: it processes, from left to right, exactly the pieces between ampersands of what
  follows the first question mark; each piece with an equals sign binds what precedes the
  first one to the value that follows, later bindings overriding earlier ones.
\<close>

theorem parse_query_splits:
  "parse_query stod target =
     (if CHR ''?'' \<in> set target
      then foldl (\<lambda>params pair. parse_pair stod pair params) Map.empty
             (split_on (CHR ''&'') (tl (dropWhile (\<lambda>c. c \<noteq> CHR ''?'') target)))
      else Map.empty)"
proof (cases "CHR ''?'' \<in> set target")
  case True
  then obtain a b where t: "target = a @ CHR ''?'' # b" "CHR ''?'' \<notin> set a"
    by (meson split_list_first)
  then have "dropWhile (\<lambda>c. c \<noteq> CHR ''?'') target = CHR ''?'' # b"
    by (induction a arbitrary: target) auto
  moreover have "find_from (CHR ''?'') target 0 = Some (length a)"
    using t find_from_Some [of "CHR ''?''" a 0 target b] by simp
  ultimately show ?thesis using t by (simp add: parse_query_def parse_loop_fold)
qed (simp add: parse_query_def find_from_None)

text \<open>
  Typed values in a query string: an integer is written in decimal, a double by some printer and a
  string as it is. They can be told apart when the integer is a \<open>long long\<close>, the printed double is
  read back by \<open>std::stod\<close> and is not an integer to its end, and the string is not a number to its
  end; none may hold an ampersand.
\<close>

fun print_value :: "('d \<Rightarrow> string) \<Rightarrow> 'd query_value \<Rightarrow> string" where
  "print_value show_double (Q_int i) = decimal_int i"
| "print_value show_double (Q_float d) = show_double d"
| "print_value show_double (Q_string v) = v"

definition reads_all :: "(string \<Rightarrow> ('a \<times> nat) option) \<Rightarrow> string \<Rightarrow> bool" where
  "reads_all read v \<longleftrightarrow> map_option snd (read v) = Some (length v)"

fun printable_value :: "(string \<Rightarrow> ('d \<times> nat) option) \<Rightarrow> ('d \<Rightarrow> string) \<Rightarrow> 'd query_value \<Rightarrow> bool" where
  "printable_value stod show_double (Q_int i) \<longleftrightarrow> in_int64 i"
| "printable_value stod show_double (Q_float d) \<longleftrightarrow>
     stod (show_double d) = Some (d, length (show_double d)) \<and> \<not> reads_all stoll (show_double d) \<and>
     CHR ''&'' \<notin> set (show_double d)"
| "printable_value stod show_double (Q_string v) \<longleftrightarrow>
     \<not> reads_all stoll v \<and> \<not> reads_all stod v \<and> CHR ''&'' \<notin> set v"

definition plain_key :: "string \<Rightarrow> bool" where
  "plain_key k \<longleftrightarrow> CHR ''='' \<notin> set k \<and> CHR ''&'' \<notin> set k"

definition print_query :: "('d \<Rightarrow> string) \<Rightarrow> (string \<times> 'd query_value) list \<Rightarrow> string" where
  "print_query show_double kvs = query_string (map (\<lambda>(k, v). (k, print_value show_double v)) kvs)"

lemma decimal_int_plain: "CHR ''&'' \<notin> set (decimal_int i)"
proof -
  have "CHR ''&'' \<notin> set (decimal n)" for n
    using decimal_digits [of n] by (auto simp: list_all_iff is_digit_def)
  then show ?thesis by (simp add: decimal_int_def)
qed

lemma parse_print_value:
  assumes "printable_value stod show_double v"
  shows "parse_value stod (print_value show_double v) = v" and "CHR ''&'' \<notin> set (print_value show_double v)"
proof -
  have not_all: "\<not> reads_all read w \<Longrightarrow> read w = Some (x, n) \<Longrightarrow> n \<noteq> length w" for read :: "string \<Rightarrow> ('x \<times> nat) option" and w x n
    by (auto simp: reads_all_def)
  show "parse_value stod (print_value show_double v) = v"
  proof (cases v)
    case (Q_int i)
    with assms show ?thesis by (simp add: parse_value_def stoll_decimal)
  next
    case (Q_float d)
    with assms not_all [of stoll "show_double d"] show ?thesis
      by (simp add: parse_value_def Let_def split: option.splits prod.splits)
  next
    case (Q_string w)
    with assms not_all [of stoll w] not_all [of stod w] show ?thesis
      by (simp add: parse_value_def Let_def split: option.splits prod.splits)
  qed
  show "CHR ''&'' \<notin> set (print_value show_double v)" using assms by (cases v) (simp_all add: decimal_int_plain)
qed

lemma parse_query_pairs:
  assumes "CHR ''?'' \<notin> set path" and "list_all plain_pair kvs"
  shows "parse_query stod (path @ CHR ''?'' # query_string kvs) =
    map_of (rev (map (\<lambda>(k, v). (k, parse_value stod v)) kvs))"
proof -
  have "find_from (CHR ''?'') (path @ CHR ''?'' # query_string kvs) 0 = Some (length path)"
    using find_from_Some [of "CHR ''?''" path 0] assms(1) by simp
  then have "parse_query stod (path @ CHR ''?'' # query_string kvs) =
      foldl (\<lambda>ps pair. parse_pair stod pair ps) Map.empty (map query_pair kvs)"
    using query_string_split [OF assms(2)] by (cases "kvs = []") (simp_all add: parse_query_def parse_loop_fold)
  with foldl_parse_pairs [OF assms(2), of stod Map.empty] show ?thesis by simp
qed

text \<open>
  C32: Round trip of query strings. A list of keys with typed values is printed after a path
  without question mark, keys holding neither equals signs nor ampersands and values none of the
  latter. Parsing the result gives back exactly the keys, each with its last value: an integer in
  the range of \<open>long long\<close> as that integer, a double whose printed form \<open>std::stod\<close> reads back and
  that is not written like an integer as that double, and any text that is not to its end a number
  as that text. (So integers are tried before doubles; the comment in the code, \<open>float -> int\<close>,
  names the opposite order.)
\<close>

theorem parse_query_roundtrip:
  assumes "CHR ''?'' \<notin> set path"
    and "list_all (\<lambda>(k, v). plain_key k \<and> printable_value stod show_double v) kvs"
  shows "parse_query stod (path @ CHR ''?'' # print_query show_double kvs) = map_of (rev kvs)"
proof -
  let ?print = "\<lambda>(k, v). (k, print_value show_double v)"
  have given: "map (\<lambda>(k, v). (k, parse_value stod v)) (map ?print kvs) = kvs"
    using assms(2) by (induction kvs) (auto simp: parse_print_value(1))
  have "list_all plain_pair (map ?print kvs)"
    using assms(2) by (induction kvs) (auto simp: plain_pair_def plain_key_def parse_print_value(2))
  from parse_query_pairs [OF assms(1) this, of stod] show ?thesis by (simp only: print_query_def given)
qed

text \<open>A reader that knows one double, for the example below.\<close>

definition reads_half :: "string \<Rightarrow> (real \<times> nat) option" where
  "reads_half v = (if take 3 v = ''0.5'' then Some (1 / 2, 3) else None)"

lemma parse_query_roundtrip_witness:
  "parse_query reads_half ''/board?player=ann&score=-12&factor=0.5&player=bob'' =
     [''player'' \<mapsto> Q_string ''bob'', ''score'' \<mapsto> Q_int (- 12), ''factor'' \<mapsto> Q_float (1 / 2)]"
proof -
  let ?kvs = "[(''player'', Q_string ''ann''), (''score'', Q_int (- 12)), (''factor'', Q_float (1 / 2)),
    (''player'', Q_string ''bob'')]"
  have i: "decimal_int (- 12) = ''-12''"
    by (simp add: decimal_int_def decimal.simps) code_simp
  have printed: "print_query (\<lambda>_ :: real. ''0.5'') ?kvs = ''player=ann&score=-12&factor=0.5&player=bob''"
    by (simp add: print_query_def query_pair_def i)
  have "list_all (\<lambda>(k, v). plain_key k \<and> printable_value reads_half (\<lambda>_. ''0.5'') v) ?kvs"
    by (simp add: plain_key_def in_int64_def reads_all_def reads_half_def stoll_def is_digit_def is_blank_def Let_def)
  from parse_query_roundtrip [OF _ this, of "''/board''", unfolded printed] show ?thesis
    by (simp add: fun_upd_twist)
qed

end
