(* ===== verification/Http_Connection.thy ===== *)
theory Http_Connection
  imports Thread_Safe_Queue Http_Parser
begin

text \<open>
  \<open>network/communication/http_connection.hpp\<close>: one HTTP connection. All its handlers run on
  its strand, one at a time, so each is a function on the connection's state. The record adds
  to the members of the class what the asynchronous calls leave with Asio: whether a read is
  outstanding, the response being written, the handlers posted to the strand, and the
  responses that reached the wire completely.

  A completion handler's error code is a \<open>bool\<close> (\<open>True\<close>: an error). A
  \<open>shared_ptr<http_connection>\<close> is a number that identifies the connection.
\<close>

section \<open>State\<close>

type_synonym sequence_key = u64

record 'rq request_task =
  connection :: nat
  task_request :: 'rq
  client_ip :: string
  sequence_id :: sequence_key

datatype 'rs strand_job =
    Deliver sequence_key 'rs
  | Reject sequence_key nat

record 'rs http_connection =
  socket_open :: bool
  reading :: bool
  responses :: "sequence_key \<rightharpoonup> 'rs"
  writing :: bool
  next_sequence_id :: sequence_key
  next_response_sequence_id :: sequence_key
  in_flight :: "'rs option"
  posted :: "'rs strand_job list"
  wire :: "'rs list"

definition task_template :: "('rq, 'rs, 'z) beast_scheme \<Rightarrow> 'rq request_task queue_template" where
  "task_template bst =
     \<lparr>EnableMaxSize = True, EnableMaxBytes = True,
      traits_get = (\<lambda>task. rq_body_size bst (task_request task))\<rparr>"

definition new_http_connection :: "'rs http_connection" where
  "new_http_connection =
     \<lparr>socket_open = True, reading = False, responses = Map.empty, writing = False,
      next_sequence_id = 0, next_response_sequence_id = 0, in_flight = None, posted = [], wire = []\<rparr>"

section \<open>Operations and handlers\<close>

definition read :: "'rs http_connection \<Rightarrow> 'rs http_connection" where
  "read c = c\<lparr>reading := True\<rparr>"

definition start :: "'rs http_connection \<Rightarrow> 'rs http_connection" where
  "start c = read c"

definition close :: "'rs http_connection \<Rightarrow> 'rs http_connection" where
  "close c = c\<lparr>socket_open := False\<rparr>"

definition write_next :: "('rq, 'rs, 'z) beast_scheme \<Rightarrow> 'rs http_connection \<Rightarrow> 'rs http_connection" where
  "write_next bst c = (case responses c (next_response_sequence_id c) of
       None \<Rightarrow> c\<lparr>writing := False\<rparr>
     | Some response \<Rightarrow>
         let prepared = prepare_payload bst response in
         c\<lparr>writing := True, responses := (responses c)(next_response_sequence_id c \<mapsto> prepared),
           in_flight := Some prepared\<rparr>)"

definition on_write :: "('rq, 'rs, 'z) beast_scheme \<Rightarrow> bool \<Rightarrow> 'rs \<Rightarrow> 'rs http_connection \<Rightarrow> 'rs http_connection" where
  "on_write bst ec response c =
     (let c0 = c\<lparr>in_flight := None\<rparr> in
      if ec then close c0
      else let c1 = c0\<lparr>wire := wire c0 @ [response],
                      responses := (responses c0)(next_response_sequence_id c0 := None),
                      next_response_sequence_id := next_response_sequence_id c0 + 1\<rparr>
        in if keep_alive bst response then write_next bst c1 else close c1)"

definition emplace_response :: "sequence_key \<Rightarrow> 'rs \<Rightarrow> 'rs http_connection \<Rightarrow> 'rs http_connection" where
  "emplace_response sid response c =
     (case responses c sid of
        None \<Rightarrow> c\<lparr>responses := (responses c)(sid \<mapsto> response)\<rparr>
      | Some _ \<Rightarrow> c)"

definition send_response :: "'rs \<Rightarrow> sequence_key \<Rightarrow> 'rs http_connection \<Rightarrow> 'rs http_connection" where
  "send_response response sid c = c\<lparr>posted := posted c @ [Deliver sid response]\<rparr>"

definition reject_overloaded :: "sequence_key \<Rightarrow> nat \<Rightarrow> 'rs http_connection \<Rightarrow> 'rs http_connection" where
  "reject_overloaded sid request_version c = c\<lparr>posted := posted c @ [Reject sid request_version]\<rparr>"

definition overloaded_response :: "('rq, 'rs, 'z) beast_scheme \<Rightarrow> nat \<Rightarrow> 'rs" where
  "overloaded_response bst request_version =
     set_keep_alive bst False (prepare_payload bst
       (set_response_server_overloaded bst (set_version bst request_version (fresh_response bst))))"

text \<open>The two lambdas posted to the strand.\<close>

fun job_response :: "('rq, 'rs, 'z) beast_scheme \<Rightarrow> 'rs strand_job \<Rightarrow> sequence_key \<times> 'rs" where
  "job_response bst (Deliver sid response) = (sid, response)"
| "job_response bst (Reject sid request_version) = (sid, overloaded_response bst request_version)"

definition run_job :: "('rq, 'rs, 'z) beast_scheme \<Rightarrow> 'rs strand_job \<Rightarrow> 'rs http_connection \<Rightarrow> 'rs http_connection" where
  "run_job bst job c =
     (let c1 = emplace_response (fst (job_response bst job)) (snd (job_response bst job)) c
      in if writing c1 then c1 else write_next bst c1)"

text \<open>The address of the peer; \<open>remote_endpoint\<close> throws when the socket is not connected any more.\<close>

fun get_client_ip :: "string option \<Rightarrow> string outcome" where
  "get_client_ip None = Inl (System_error ''remote_endpoint'')"
| "get_client_ip (Some addr) = Inr addr"

text \<open>
  The completion handler of \<open>async_read\<close>. \<open>Inl ()\<close> is an error code; \<open>ip\<close> is the
  address of the peer, if it is still connected: the exception of \<open>get_client_ip\<close> leaves the
  handler, after the sequence number has been taken.
\<close>

definition on_read ::
    "('rq, 'rs, 'z) beast_scheme \<Rightarrow> nat \<Rightarrow> unit + 'rq \<Rightarrow> string option \<Rightarrow> 'rs http_connection \<Rightarrow>
     'rq request_task thread_safe_queue \<Rightarrow>
     exn option \<times> 'rs http_connection \<times> 'rq request_task thread_safe_queue" where
  "on_read bst self result ip c queue =
     (let c0 = c\<lparr>reading := False\<rparr> in
      case result of
        Inl _ \<Rightarrow> (None, close c0, queue)
      | Inr req \<Rightarrow>
          let sid = next_sequence_id c0; c1 = c0\<lparr>next_sequence_id := sid + 1\<rparr> in
          (case get_client_ip ip of
             Inl e \<Rightarrow> (Some e, c1, queue)
           | Inr addr \<Rightarrow>
               let task = \<lparr>connection = self, task_request = req, client_ip = addr, sequence_id = sid\<rparr>;
                   (ok, _, queue') = try_push_back (task_template bst) task queue
               in if \<not> ok
                  then (None, reject_overloaded sid (rq_version bst (rq_moved_from bst req)) c1, queue')
                  else (None, read c1, queue')))"

section \<open>The invariant of a connection\<close>

text \<open>
  \<open>good k r\<close> says that \<open>r\<close> is an answer to the request with index \<open>k\<close>; \<open>n\<close> counts
  the requests read. A response is held as it was computed or with its payload prepared, and
  sent prepared.
\<close>

definition sent :: "('rq, 'rs, 'z) beast_scheme \<Rightarrow> (nat \<Rightarrow> 'rs \<Rightarrow> bool) \<Rightarrow> nat \<Rightarrow> 'rs \<Rightarrow> bool" where
  "sent bst good k r \<longleftrightarrow> (\<exists>r0. good k r0 \<and> r = prepare_payload bst r0)"

definition held :: "('rq, 'rs, 'z) beast_scheme \<Rightarrow> (nat \<Rightarrow> 'rs \<Rightarrow> bool) \<Rightarrow> nat \<Rightarrow> 'rs \<Rightarrow> bool" where
  "held bst good k r \<longleftrightarrow> good k r \<or> sent bst good k r"

definition ordered_inv ::
    "('rq, 'rs, 'z) beast_scheme \<Rightarrow> (nat \<Rightarrow> 'rs \<Rightarrow> bool) \<Rightarrow> nat \<Rightarrow> 'rs http_connection \<Rightarrow> bool" where
  "ordered_inv bst good n c \<longleftrightarrow>
     next_sequence_id c = of_nat n
     \<and> next_response_sequence_id c = of_nat (length (wire c)) \<and> length (wire c) \<le> n
     \<and> (\<forall>k < length (wire c). sent bst good k (wire c ! k))
     \<and> (\<forall>i r. responses c i = Some r \<longrightarrow> (\<exists>k < n. i = of_nat k \<and> held bst good k r))
     \<and> (\<forall>j \<in> set (posted c). \<exists>k < n. fst (job_response bst j) = of_nat k \<and> good k (snd (job_response bst j)))
     \<and> (\<forall>r. in_flight c = Some r \<longrightarrow>
          responses c (next_response_sequence_id c) = Some r \<and> (\<exists>r0. r = prepare_payload bst r0))"

text \<open>Nothing is held back: a response whose turn it is, is being written, unless the socket was closed.\<close>

definition flowing_inv :: "'rs http_connection \<Rightarrow> bool" where
  "flowing_inv c \<longleftrightarrow>
     (\<not> writing c \<longrightarrow> responses c (next_response_sequence_id c) = None \<and> in_flight c = None)
     \<and> (writing c \<and> in_flight c = None \<longrightarrow> \<not> socket_open c)"

text \<open>Nothing follows a response that ends the connection.\<close>

definition closing_inv :: "('rq, 'rs, 'z) beast_scheme \<Rightarrow> 'rs http_connection \<Rightarrow> bool" where
  "closing_inv bst c \<longleftrightarrow>
     (\<forall>k < length (wire c). \<not> keep_alive bst (wire c ! k) \<longrightarrow>
        Suc k = length (wire c) \<and> in_flight c = None \<and> writing c \<and> \<not> socket_open c)"


definition conn_inv ::
    "('rq, 'rs, 'z) beast_scheme \<Rightarrow> (nat \<Rightarrow> 'rs \<Rightarrow> bool) \<Rightarrow> nat \<Rightarrow> 'rs http_connection \<Rightarrow> bool" where
  "conn_inv bst good n c \<longleftrightarrow> ordered_inv bst good n c \<and> flowing_inv c \<and> closing_inv bst c"

lemmas conn_inv_defs = conn_inv_def ordered_inv_def flowing_inv_def closing_inv_def

lemma ordered_invD:
  assumes "ordered_inv bst good n c"
  shows "next_sequence_id c = of_nat n"
    and "next_response_sequence_id c = of_nat (length (wire c))" and "length (wire c) \<le> n"
    and "k < length (wire c) \<Longrightarrow> sent bst good k (wire c ! k)"
    and "responses c i = Some r \<Longrightarrow> \<exists>k < n. i = of_nat k \<and> held bst good k r"
    and "j \<in> set (posted c) \<Longrightarrow>
      \<exists>k < n. fst (job_response bst j) = of_nat k \<and> good k (snd (job_response bst j))"
    and "in_flight c = Some r \<Longrightarrow>
      responses c (next_response_sequence_id c) = Some r \<and> (\<exists>r0. r = prepare_payload bst r0)"
  using assms unfolding ordered_inv_def by blast+

lemma conn_invD:
  assumes "conn_inv bst good n c"
  shows "ordered_inv bst good n c" and "flowing_inv c" and "closing_inv bst c"
  using assms by (simp_all add: conn_inv_def)

lemma conn_inv_new: "conn_inv bst good 0 (start new_http_connection)"
  by (simp add: conn_inv_defs start_def read_def new_http_connection_def)

lemma held_prepared:
  assumes "beast_laws bst" "held bst good k r"
  shows "sent bst good k (prepare_payload bst r)"
  using assms by (auto simp: held_def sent_def beast_laws_def)

lemma conn_inv_next_response:
  assumes "conn_inv bst good n c" "n < 2 ^ 64" "responses c (next_response_sequence_id c) = Some r"
  shows "length (wire c) < n" "held bst good (length (wire c)) r"
proof -
  note ord = conn_invD(1) [OF assms(1)]
  from ordered_invD(5) [OF ord assms(3)] ordered_invD(2) [OF ord]
  obtain k where k: "k < n" "(of_nat (length (wire c)) :: u64) = of_nat k" "held bst good k r" by auto
  have "length (wire c) \<le> n" by (rule ordered_invD(3) [OF ord])
  with k assms(2) have "length (wire c) = k" by (simp add: of_nat_u64_inject)
  with k show "length (wire c) < n" "held bst good (length (wire c)) r" by simp_all
qed

lemma write_next_inv:
  assumes "beast_laws bst" "ordered_inv bst good n c" "n < 2 ^ 64" "in_flight c = None"
    and "\<forall>k < length (wire c). keep_alive bst (wire c ! k)"
  shows "conn_inv bst good n (write_next bst c)"
proof (cases "responses c (next_response_sequence_id c)")
  case None
  with assms show ?thesis by (simp add: write_next_def conn_inv_defs)
next
  case (Some r)
  have "\<exists>k < n. next_response_sequence_id c = of_nat k \<and> held bst good k r"
    by (rule ordered_invD(5) [OF assms(2) Some])
  then have "\<exists>k < n. next_response_sequence_id c = of_nat k \<and> held bst good k (prepare_payload bst r)"
    using held_prepared [OF assms(1)] by (auto simp: held_def)
  moreover have "next_sequence_id c = of_nat n" "length (wire c) \<le> n"
      "next_response_sequence_id c = of_nat (length (wire c))"
      "\<forall>k < length (wire c). sent bst good k (wire c ! k)"
      "\<forall>i r. responses c i = Some r \<longrightarrow> (\<exists>k < n. i = of_nat k \<and> held bst good k r)"
      "\<forall>j \<in> set (posted c). \<exists>k < n. fst (job_response bst j) = of_nat k \<and> good k (snd (job_response bst j))"
    using assms(2) by (simp_all add: ordered_inv_def)
  ultimately have "ordered_inv bst good n (write_next bst c)"
    using Some by (simp add: ordered_inv_def write_next_def Let_def) blast
  then show ?thesis using assms(5) Some
    by (simp add: conn_inv_def flowing_inv_def closing_inv_def write_next_def Let_def)
qed

lemma emplace_inv:
  assumes "ordered_inv bst good n c" "\<exists>k < n. sid = of_nat k \<and> good k r"
  shows "ordered_inv bst good n (emplace_response sid r c)"
proof (cases "responses c sid")
  case None
  then have "in_flight c = Some r' \<Longrightarrow> next_response_sequence_id c \<noteq> sid" for r'
    using ordered_invD(7) [OF assms(1)] by auto
  moreover have "\<exists>k < n. sid = of_nat k \<and> held bst good k r" using assms(2) by (auto simp: held_def)
  ultimately show ?thesis
    using None ordered_invD [OF assms(1)] by (auto simp: emplace_response_def ordered_inv_def)
qed (use assms in \<open>simp add: emplace_response_def\<close>)

lemma emplace_frame [simp]:
  "in_flight (emplace_response sid r c) = in_flight c" "wire (emplace_response sid r c) = wire c"
  "writing (emplace_response sid r c) = writing c" "socket_open (emplace_response sid r c) = socket_open c"
  "posted (emplace_response sid r c) = posted c" "reading (emplace_response sid r c) = reading c"
  "next_response_sequence_id (emplace_response sid r c) = next_response_sequence_id c"
  "next_sequence_id (emplace_response sid r c) = next_sequence_id c"
  by (simp_all add: emplace_response_def split: option.splits)

lemma run_job_inv:
  assumes "beast_laws bst" "conn_inv bst good n c" "n < 2 ^ 64"
    and "\<exists>k < n. fst (job_response bst j) = of_nat k \<and> good k (snd (job_response bst j))"
  shows "conn_inv bst good n (run_job bst j c)"
proof -
  let ?c = "emplace_response (fst (job_response bst j)) (snd (job_response bst j)) c"
  have ord: "ordered_inv bst good n ?c"
    using assms(2) by (intro emplace_inv assms(4)) (simp add: conn_inv_def)
  show ?thesis
  proof (cases "writing c")
    case True
    with ord assms(2) show ?thesis
      by (simp add: run_job_def conn_inv_def flowing_inv_def closing_inv_def)
  next
    case False
    with assms(2) have "in_flight ?c = None" "\<forall>k < length (wire ?c). keep_alive bst (wire ?c ! k)"
      by (auto simp: conn_inv_def flowing_inv_def closing_inv_def)
    with write_next_inv [OF assms(1) ord assms(3)] False show ?thesis by (simp add: run_job_def)
  qed
qed

lemma drop_job_inv:
  "conn_inv bst good n c \<Longrightarrow> set js \<subseteq> set (posted c) \<Longrightarrow> conn_inv bst good n (c\<lparr>posted := js\<rparr>)"
  by (auto simp: conn_inv_defs)

lemma post_job_inv:
  "conn_inv bst good n c \<Longrightarrow> \<exists>k < n. fst (job_response bst j) = of_nat k \<and> good k (snd (job_response bst j)) \<Longrightarrow>
   conn_inv bst good n (c\<lparr>posted := posted c @ [j]\<rparr>)"
  by (auto simp: conn_inv_defs)

lemma close_inv: "conn_inv bst good n c \<Longrightarrow> conn_inv bst good n (close c)"
  by (auto simp: conn_inv_defs close_def)

lemma reading_inv [simp]: "conn_inv bst good n (c\<lparr>reading := b\<rparr>) = conn_inv bst good n c"
  by (simp add: conn_inv_defs)

lemma on_write_inv:
  assumes "beast_laws bst" "conn_inv bst good n c" "n < 2 ^ 64" "in_flight c = Some r"
  shows "conn_inv bst good n (on_write bst ec r c)"
proof -
  note inv = ordered_invD [OF conn_invD(1) [OF assms(2)]]
  have alive: "\<forall>k < length (wire c). keep_alive bst (wire c ! k)" and wr: "writing c"
    using conn_invD(2,3) [OF assms(2)] assms(4) by (auto simp: flowing_inv_def closing_inv_def)
  from inv(7) [OF assms(4)] assms(1) have next_r: "responses c (next_response_sequence_id c) = Some r"
    and prep: "prepare_payload bst r = r"
    by (auto simp: beast_laws_def)
  note k = conn_inv_next_response [OF assms(2,3) next_r]
  have "sent bst good (length (wire c)) r" using held_prepared [OF assms(1) k(2)] prep by simp
  show ?thesis
  proof (cases ec)
    case True
    have "ordered_inv bst good n (close (c\<lparr>in_flight := None\<rparr>))"
      using conn_invD(1) [OF assms(2)] by (simp add: ordered_inv_def close_def)
    with True alive wr show ?thesis
      by (simp add: on_write_def Let_def close_def conn_inv_def flowing_inv_def closing_inv_def)
  next
    case False
    let ?c = "c\<lparr>in_flight := None, wire := wire c @ [r],
      responses := (responses c)(next_response_sequence_id c := None),
      next_response_sequence_id := next_response_sequence_id c + 1\<rparr>"
    have ord: "ordered_inv bst good n ?c"
      unfolding ordered_inv_def
      using inv k(1) \<open>sent bst good (length (wire c)) r\<close>
      by (auto simp: nth_append less_Suc_eq add.commute)
    show ?thesis
    proof (cases "keep_alive bst r")
      case True
      with alive write_next_inv [OF assms(1) ord assms(3)] False show ?thesis
        by (simp add: on_write_def Let_def nth_append less_Suc_eq)
    next
      case ends: False
      with alive wr have "flowing_inv (close ?c)" "closing_inv bst (close ?c)"
        by (auto simp: flowing_inv_def closing_inv_def close_def nth_append less_Suc_eq)
      moreover have "ordered_inv bst good n (close ?c)"
        using ord by (simp add: ordered_inv_def close_def)
      ultimately show ?thesis using False ends by (simp add: on_write_def Let_def conn_inv_def)
    qed
  qed
qed

text \<open>Taking the next sequence number for a request whose answers \<open>good'\<close> describes too.\<close>

lemma take_sequence_inv:
  assumes "conn_inv bst good n c" "\<And>k r. k < n \<Longrightarrow> good k r \<Longrightarrow> good' k r"
  shows "conn_inv bst good' (Suc n) (c\<lparr>next_sequence_id := next_sequence_id c + 1\<rparr>)"
proof -
  have s: "k < n \<Longrightarrow> sent bst good k r \<Longrightarrow> sent bst good' k r" for k r
    using assms(2) by (auto simp: sent_def)
  have h: "k < n \<Longrightarrow> held bst good k r \<Longrightarrow> held bst good' k r" for k r
    using assms(2) s by (auto simp: held_def)
  note inv = ordered_invD [OF conn_invD(1) [OF assms(1)]]
  have "responses c i = Some r \<Longrightarrow> \<exists>k < Suc n. i = of_nat k \<and> held bst good' k r" for i r
    using inv(5) h less_SucI by blast
  moreover have "j \<in> set (posted c) \<Longrightarrow>
      \<exists>k < Suc n. fst (job_response bst j) = of_nat k \<and> good' k (snd (job_response bst j))" for j
    using inv(6) assms(2) less_SucI by blast
  ultimately have "ordered_inv bst good' (Suc n) (c\<lparr>next_sequence_id := next_sequence_id c + 1\<rparr>)"
    unfolding ordered_inv_def using inv(1-4,7) s by (auto simp: add.commute)
  then show ?thesis
    using conn_invD(2,3) [OF assms(1)] by (simp add: conn_inv_def flowing_inv_def closing_inv_def)
qed


section \<open>Requests on their way\<close>

text \<open>A sequence number whose response the connection has, posted or waiting for its turn.\<close>

definition response_pending :: "('rq, 'rs, 'z) beast_scheme \<Rightarrow> 'rs http_connection \<Rightarrow> sequence_key \<Rightarrow> bool" where
  "response_pending bst c i \<longleftrightarrow>
     i \<in> (\<lambda>j. fst (job_response bst j)) ` set (posted c) \<or> i \<in> dom (responses c)"

lemma write_next_frame [simp]:
  "dom (responses (write_next bst c)) = dom (responses c)" "posted (write_next bst c) = posted c"
  "wire (write_next bst c) = wire c" "socket_open (write_next bst c) = socket_open c"
  "reading (write_next bst c) = reading c"
  by (auto simp: write_next_def Let_def split: option.splits)

lemma emplace_dom: "dom (responses (emplace_response sid r c)) = insert sid (dom (responses c))"
  by (auto simp: emplace_response_def split: option.splits)

lemma run_job_frame [simp]:
  "posted (run_job bst j c) = posted c" "wire (run_job bst j c) = wire c"
  by (simp_all add: run_job_def Let_def)

lemma run_job_pending:
  "response_pending bst (c\<lparr>posted := xs @ j # ys\<rparr>) i \<Longrightarrow>
   response_pending bst (run_job bst j (c\<lparr>posted := xs @ ys\<rparr>)) i"
  by (auto simp: response_pending_def run_job_def Let_def emplace_dom)

lemma on_write_pending:
  "response_pending bst c i \<Longrightarrow> ec \<or> i \<noteq> next_response_sequence_id c \<Longrightarrow>
   response_pending bst (on_write bst ec r c) i"
  by (auto simp: response_pending_def on_write_def Let_def close_def)

lemma on_write_wire:
  "wire (on_write bst ec r c) = (if ec then wire c else wire c @ [r])"
  by (simp add: on_write_def Let_def close_def)

end
