(* ===== verification/Server_Base.thy ===== *)
theory Server_Base
  imports Prelude
begin

text \<open>
  \<open>network/servers/server_base.hpp\<close>: what the two servers share, the life of the I/O context and
  of the thread that runs it.

  \<open>stop\<close> is a virtual function whose overrides call \<open>server_base::stop\<close> first, then stop their
  queue, then join their threads; it runs in the thread that won \<open>try_stop\<close>, concurrently with
  everything else. \<open>stop_progress\<close> says how far that thread has come, and one base event is one
  of its steps, a step of the context thread, or a call by an application thread.
  \<open>io_context::stop\<close> makes \<open>run\<close> return soon: until it does, handlers may still complete.

  The locale \<open>stoppable_server\<close> is the interface towards the servers built on the class: a
  transition system whose events project to base events. Its lemmas hold for both servers.
\<close>

section \<open>State\<close>

text \<open>A \<open>std::thread\<close> that runs the context: none, in \<open>run\<close>, or back from it and not joined.\<close>

datatype thread_state = No_thread | Executing | Finished

text \<open>
  Who calls \<open>try_stop\<close>: a thread of the application, the context thread from a handler, or a
  thread that the derived server joins in \<open>stop\<close>, by its number.
\<close>

datatype caller = Application_thread | Context_thread | Pool_thread nat

text \<open>Who is blocked in \<open>context_thread.join()\<close>: \<open>stop\<close>, or an application thread.\<close>

datatype joining_thread = Stopper | Waiter

datatype stop_progress =
  Not_stopping | Stop_entered | Joining_context | Base_stopped | Queue_stopped | Stop_returned

fun progress_rank :: "stop_progress \<Rightarrow> nat" where
  "progress_rank Not_stopping = 0"
| "progress_rank Stop_entered = 1"
| "progress_rank Joining_context = 2"
| "progress_rank Base_stopped = 3"
| "progress_rank Queue_stopped = 4"
| "progress_rank Stop_returned = 5"

lemma progress_rank_inject: "progress_rank p = progress_rank q \<longleftrightarrow> p = q"
  by (cases p; cases q) simp_all

instantiation stop_progress :: linorder
begin

definition less_eq_stop_progress :: "stop_progress \<Rightarrow> stop_progress \<Rightarrow> bool" where
  "p \<le> q \<longleftrightarrow> progress_rank p \<le> progress_rank q"

definition less_stop_progress :: "stop_progress \<Rightarrow> stop_progress \<Rightarrow> bool" where
  "p < q \<longleftrightarrow> progress_rank p < progress_rank q"

instance
  by intro_classes (auto simp: less_eq_stop_progress_def less_stop_progress_def progress_rank_inject)

end

lemmas progress_order = less_eq_stop_progress_def less_stop_progress_def

record server_base =
  context_stopped :: bool
  context_thread :: thread_state
  accept_pending :: bool
  joiner :: "joining_thread option"
  stopping :: bool
  stop_caller :: caller
  stop_progress :: stop_progress
  failure :: "exn option"

section \<open>Operations\<close>

text \<open>Opening, binding and listening happen in the acceptor's constructor, which may throw.\<close>

definition new_server_base :: "exn option \<Rightarrow> server_base outcome" where
  "new_server_base bind_error = (case bind_error of
       Some e \<Rightarrow> Inl e
     | None \<Rightarrow>
         Inr \<lparr>context_stopped = False, context_thread = No_thread, accept_pending = False, joiner = None,
              stopping = False, stop_caller = Application_thread, stop_progress = Not_stopping,
              failure = None\<rparr>)"

definition joinable :: "server_base \<Rightarrow> bool" where
  "joinable b \<longleftrightarrow> context_thread b \<noteq> No_thread"

definition io_running :: "server_base \<Rightarrow> bool" where
  "io_running b \<longleftrightarrow> context_thread b = Executing"

definition is_running :: "server_base \<Rightarrow> bool" where
  "is_running b \<longleftrightarrow> \<not> context_stopped b"

definition start_accept_async :: "server_base \<Rightarrow> server_base" where
  "start_accept_async b = b\<lparr>accept_pending := True\<rparr>"

text \<open>
  Assigning to a joinable \<open>std::thread\<close> ends the program; on a stopped context \<open>run\<close> returns
  at once without running a handler.
\<close>

definition launch :: "server_base \<Rightarrow> server_base" where
  "launch b =
     (let b1 = start_accept_async b in
      if joinable b1 then b1\<lparr>failure := Some Terminate\<rparr>
      else b1\<lparr>context_thread := (if context_stopped b1 then Finished else Executing)\<rparr>)"

text \<open>
  \<open>join_context_thread\<close> up to the point where the caller blocks: a thread that joins itself gets
  a \<open>std::system_error\<close>, and two threads that join at the same time race on the object.
\<close>

definition join_context_thread :: "caller \<Rightarrow> joining_thread \<Rightarrow> server_base \<Rightarrow> server_base" where
  "join_context_thread c j b =
     (if \<not> joinable b then b
      else if c = Context_thread then b\<lparr>failure := Some (System_error ''resource_deadlock_would_occur'')\<rparr>
      else if joiner b \<noteq> None then b\<lparr>failure := Some (Undefined_behaviour ''concurrent joins'')\<rparr>
      else b\<lparr>joiner := Some j\<rparr>)"

text \<open>\<open>stopping.exchange(true)\<close>: only the first caller goes on to \<open>stop\<close>.\<close>

definition try_stop :: "caller \<Rightarrow> server_base \<Rightarrow> server_base" where
  "try_stop c b =
     (if stopping b then b
      else b\<lparr>stopping := True, stop_caller := c, stop_progress := Stop_entered\<rparr>)"

text \<open>The thread \<open>w\<close> of the derived server is the one that executes \<open>stop\<close>.\<close>

definition in_stop :: "nat \<Rightarrow> server_base \<Rightarrow> bool" where
  "in_stop w b \<longleftrightarrow> stopping b \<and> stop_caller b = Pool_thread w"

definition base_stop :: "server_base \<Rightarrow> server_base" where
  "base_stop b =
     (let b1 = b\<lparr>context_stopped := True, stop_progress := Joining_context\<rparr>
      in join_context_thread (stop_caller b1) Stopper b1)"

datatype base_event =
    Launch
  | Accepted bool
  | Accepted_while_running
  | Run_returns
  | Try_stop caller
  | Stop_context
  | Wait_for_context
  | Join_returns
  | Base_stop_returns
  | Queue_stops
  | Stop_returns

text \<open>
  An accept handler accepts again always (\<open>Accepted True\<close>), not at all when it throws, or as
  long as the server is running.
\<close>

fun base_step :: "base_event \<Rightarrow> server_base \<Rightarrow> server_base option" where
  "base_step Launch b = Some (launch b)"
| "base_step (Accepted again) b =
     (if io_running b \<and> accept_pending b then Some (b\<lparr>accept_pending := again\<rparr>) else None)"
| "base_step Accepted_while_running b =
     (if io_running b \<and> accept_pending b then Some (b\<lparr>accept_pending := is_running b\<rparr>) else None)"
| "base_step Run_returns b =
     (if io_running b \<and> context_stopped b then Some (b\<lparr>context_thread := Finished\<rparr>) else None)"
| "base_step (Try_stop c) b =
     (if c \<noteq> Context_thread \<or> io_running b then Some (try_stop c b) else None)"
| "base_step Stop_context b =
     (if stop_progress b = Stop_entered then Some (base_stop b) else None)"
| "base_step Wait_for_context b = Some (join_context_thread Application_thread Waiter b)"
| "base_step Join_returns b =
     (if joiner b \<noteq> None \<and> context_thread b = Finished
      then Some (b\<lparr>joiner := None, context_thread := No_thread\<rparr>) else None)"
| "base_step Base_stop_returns b =
     (if stop_progress b = Joining_context \<and> joiner b \<noteq> Some Stopper
      then Some (b\<lparr>stop_progress := Base_stopped\<rparr>) else None)"
| "base_step Queue_stops b =
     (if stop_progress b = Base_stopped then Some (b\<lparr>stop_progress := Queue_stopped\<rparr>) else None)"
| "base_step Stop_returns b =
     (if stop_progress b = Queue_stopped then Some (b\<lparr>stop_progress := Stop_returned\<rparr>) else None)"

text \<open>The events that are steps of \<open>server_base\<close> alone, without code of the derived servers.\<close>

fun shared_event :: "base_event \<Rightarrow> bool" where
  "shared_event (Accepted again) = False"
| "shared_event Accepted_while_running = False"
| "shared_event Queue_stops = False"
| "shared_event Stop_returns = False"
| "shared_event _ = True"

text \<open>
  The destructor once its \<open>try_stop\<close> has returned: the destructor of a joinable \<open>std::thread\<close>
  ends the program.
\<close>

definition destroy_base :: "server_base \<Rightarrow> exn option" where
  "destroy_base b = (if joinable b then Some Terminate else None)"

inductive base_run :: "base_event list \<Rightarrow> server_base \<Rightarrow> bool" where
  base_constructed: "new_server_base None = Inr b \<Longrightarrow> base_run [] b"
| base_event: "\<lbrakk> base_run es b; failure b = None; base_step e b = Some b' \<rbrakk> \<Longrightarrow> base_run (es @ [e]) b'"

inductive_cases base_run_snocE: "base_run (es @ [e]) b"

lemmas base_defs = launch_def try_stop_def base_stop_def join_context_thread_def start_accept_async_def
  io_running_def is_running_def joinable_def Let_def

text \<open>A server as constructed, and one that is running.\<close>

definition fresh_base :: server_base where
  "fresh_base =
     \<lparr>context_stopped = False, context_thread = No_thread, accept_pending = False, joiner = None,
      stopping = False, stop_caller = Application_thread, stop_progress = Not_stopping, failure = None\<rparr>"

definition running_base :: server_base where
  "running_base = fresh_base\<lparr>context_thread := Executing, accept_pending := True\<rparr>"

lemma fresh_base_new: "new_server_base None = Inr fresh_base"
  by (simp add: new_server_base_def fresh_base_def)

section \<open>The invariant\<close>

definition base_inv :: "server_base \<Rightarrow> bool" where
  "base_inv b \<longleftrightarrow>
     (stopping b \<longleftrightarrow> stop_progress b \<noteq> Not_stopping)
     \<and> (context_stopped b \<longleftrightarrow> Joining_context \<le> stop_progress b)
     \<and> (failure b = None \<longrightarrow>
          (joiner b \<noteq> None \<longrightarrow> joinable b)
          \<and> (joiner b = Some Stopper \<longrightarrow> stop_progress b = Joining_context)
          \<and> (Joining_context \<le> stop_progress b \<and> joiner b \<noteq> Some Stopper \<longrightarrow> \<not> io_running b))"

lemma base_step_progress: "base_step e b = Some b' \<Longrightarrow> base_inv b \<Longrightarrow> stop_progress b \<le> stop_progress b'"
  by (cases e) (auto simp: base_defs progress_order base_inv_def split: if_splits)

lemma base_step_inv:
  assumes "base_inv b" "failure b = None" "base_step e b = Some b'"
  shows "base_inv b'"
  using assms
  by (cases e) (auto simp: base_defs progress_order base_inv_def split: if_splits option.splits)

lemma new_base_inv: "new_server_base None = Inr b \<Longrightarrow> base_inv b \<and> failure b = None"
  by (auto simp: new_server_base_def base_inv_def base_defs progress_order)

lemma new_base_progress: "new_server_base None = Inr b \<Longrightarrow> stop_progress b = Not_stopping"
  by (auto simp: new_server_base_def)

lemma base_run_inv: "base_run es b \<Longrightarrow> base_inv b"
  by (induction rule: base_run.induct) (auto simp: new_base_inv intro: base_step_inv)

lemma base_invD:
  assumes "base_inv b"
  shows "stopping b \<longleftrightarrow> stop_progress b \<noteq> Not_stopping"
    and "context_stopped b \<longleftrightarrow> Joining_context \<le> stop_progress b"
    and "failure b = None \<Longrightarrow> joiner b \<noteq> None \<Longrightarrow> joinable b"
    and "failure b = None \<Longrightarrow> joiner b = Some Stopper \<Longrightarrow> stop_progress b = Joining_context"
    and "failure b = None \<Longrightarrow> Base_stopped \<le> stop_progress b \<Longrightarrow> \<not> io_running b"
  using assms by (auto simp: base_inv_def progress_order)


section \<open>The stop sequence\<close>

definition stop_sequence :: "base_event list" where
  "stop_sequence = [Stop_context, Base_stop_returns, Queue_stops, Stop_returns]"

lemma base_step_sequence:
  assumes "base_step e b = Some b'" "base_inv b"
  shows "(e \<notin> set stop_sequence \<and> progress_rank (stop_progress b') - 1 = progress_rank (stop_progress b) - 1)
    \<or> (e \<in> set stop_sequence \<and> progress_rank (stop_progress b') = Suc (progress_rank (stop_progress b))
       \<and> stop_progress b \<noteq> Not_stopping \<and> progress_rank (stop_progress b) \<le> 4
       \<and> e = stop_sequence ! (progress_rank (stop_progress b) - 1))"
  using assms
  by (cases e) (auto simp: stop_sequence_def base_defs base_inv_def split: if_splits)

lemma stop_events_in_sequence:
  "base_run es b \<Longrightarrow>
   filter (\<lambda>e. e \<in> set stop_sequence) es = take (progress_rank (stop_progress b) - 1) stop_sequence"
proof (induction rule: base_run.induct)
  case (base_constructed b)
  then show ?case by (auto simp: new_server_base_def)
next
  case (base_event es b e b')
  from base_step_sequence [OF base_event.hyps(3) base_run_inv [OF base_event.hyps(1)]] base_event.IH
  show ?case
  proof (elim disjE conjE)
    assume e: "e \<in> set stop_sequence" and rank: "progress_rank (stop_progress b') = Suc (progress_rank (stop_progress b))"
      and le: "progress_rank (stop_progress b) \<le> 4" and nz: "stop_progress b \<noteq> Not_stopping"
      and nth: "e = stop_sequence ! (progress_rank (stop_progress b) - 1)"
    define k where "k = progress_rank (stop_progress b) - 1"
    have k: "progress_rank (stop_progress b) = Suc k" "k < length stop_sequence"
      using nz le by (cases "stop_progress b"; simp add: k_def stop_sequence_def)+
    with base_event.IH e rank nth show ?thesis by (simp add: take_Suc_conv_app_nth)
  qed simp
qed

lemma base_step_reaches:
  "base_step e b = Some b' \<Longrightarrow> Queue_stopped \<le> stop_progress b' \<Longrightarrow>
   e = Queue_stops \<or> Queue_stopped \<le> stop_progress b"
  by (cases e) (auto simp: base_defs progress_order split: if_splits)

text \<open>Further base events, up to a failure.\<close>

fun base_steps :: "base_event list \<Rightarrow> server_base \<Rightarrow> server_base option" where
  "base_steps [] b = Some b"
| "base_steps (e # es) b =
     (if failure b = None then Option.bind (base_step e b) (base_steps es) else None)"

lemma base_steps_run:
  "base_run es b \<Longrightarrow> base_steps es' b = Some b' \<Longrightarrow> base_run (es @ es') b'"
proof (induction es' arbitrary: es b)
  case (Cons e es')
  from Cons.prems(2) obtain b1 where "failure b = None" "base_step e b = Some b1" "base_steps es' b1 = Some b'"
    by (auto simp: bind_eq_Some_conv split: if_splits)
  with Cons.IH [of "es @ [e]" b1] base_run.base_event [OF Cons.prems(1)] show ?case by simp
qed simp

lemma waited_step:
  assumes "base_inv b" "failure b = None" "joiner b = Some Waiter" "io_running b"
    and "base_step e b = Some b'" "failure b' = None"
  shows "joiner b' = Some Waiter \<and> io_running b' \<and> \<not> context_stopped b'"
  using assms
  by (cases e) (auto simp: base_defs progress_order base_inv_def split: if_splits)

lemma base_steps_alive: "base_steps es b = Some b' \<Longrightarrow> failure b' = None \<Longrightarrow> failure b = None"
  by (cases es) (auto split: if_splits)

lemma waited_steps:
  "base_inv b \<Longrightarrow> joiner b = Some Waiter \<Longrightarrow> io_running b \<Longrightarrow> base_steps es b = Some b' \<Longrightarrow>
   failure b' = None \<Longrightarrow> joiner b' = Some Waiter \<and> io_running b' \<and> \<not> context_stopped b'"
proof (induction es arbitrary: b)
  case Nil
  then show ?case by (auto simp: base_inv_def progress_order)
next
  case (Cons e es)
  from Cons.prems(4) obtain b1 where b1: "failure b = None" "base_step e b = Some b1" "base_steps es b1 = Some b'"
    by (auto simp: bind_eq_Some_conv split: if_splits)
  have "failure b1 = None" by (rule base_steps_alive [OF b1(3) Cons.prems(5)])
  with waited_step [OF Cons.prems(1) b1(1) Cons.prems(2,3) b1(2)] base_step_inv [OF Cons.prems(1) b1(1,2)]
    b1(3) Cons.prems(5) Cons.IH [of b1]
  show ?case by simp
qed

text \<open>
  A server on which a thread waits with \<open>join_context_thread\<close> cannot be stopped: as long as
  the program goes on without an error the context is not stopped, its thread runs and the
  caller stays blocked. A \<open>try_stop\<close> of another thread gets through the exchange, but its
  \<open>stop\<close> joins the thread that the first caller is joining already.
\<close>

theorem waited_server_cannot_stop:
  assumes "base_run es b" and "joiner b = Some Waiter" and "io_running b"
  shows "(base_steps es' b = Some b' \<longrightarrow> failure b' = None \<longrightarrow> joiner b' = Some Waiter \<and> is_running b' \<and> io_running b') \<and>
    (stop_progress b = Stop_entered \<longrightarrow> stop_caller b \<noteq> Context_thread \<longrightarrow>
       base_step Stop_context b = Some (b\<lparr>context_stopped := True, stop_progress := Joining_context,
         failure := Some (Undefined_behaviour ''concurrent joins'')\<rparr>))"
  using waited_steps [OF base_run_inv [OF assms(1)] assms(2,3), of es' b'] assms(2,3)
  by (auto simp: base_defs)

text \<open>The program of the README: \<open>launch\<close>, then \<open>join_context_thread\<close>; another thread stops it.\<close>

definition waiting_base :: server_base where
  "waiting_base =
     running_base\<lparr>joiner := Some Waiter, stopping := True, stop_progress := Stop_entered\<rparr>"

lemmas base_examples = fresh_base_def running_base_def waiting_base_def

lemma waiting_base_run: "base_run [Launch, Wait_for_context, Try_stop Application_thread] waiting_base"
proof -
  have "base_steps [Launch, Wait_for_context, Try_stop Application_thread] fresh_base = Some waiting_base"
    by (simp add: base_examples base_defs)
  from base_steps_run [OF base_run.base_constructed [OF fresh_base_new] this] show ?thesis by simp
qed

lemma waited_server_cannot_stop_witness:
  "\<exists>b. base_step Stop_context waiting_base = Some b
     \<and> failure b = Some (Undefined_behaviour ''concurrent joins'')"
  using waited_server_cannot_stop [OF waiting_base_run]
  by (simp add: base_examples base_defs)

lemma unlaunched_step:
  assumes "base_inv b" "failure b = None" "base_step e b = Some b'" "e \<noteq> Launch"
    and "Base_stopped \<le> stop_progress b \<longrightarrow> \<not> joinable b"
    and "stop_progress b = Joining_context \<longrightarrow> joiner b = Some Stopper \<or> \<not> joinable b"
    and "failure b' = None"
  shows "(Base_stopped \<le> stop_progress b' \<longrightarrow> \<not> joinable b') \<and>
    (stop_progress b' = Joining_context \<longrightarrow> joiner b' = Some Stopper \<or> \<not> joinable b')"
  using assms
  by (cases e; cases "stop_progress b")
    (simp_all add: base_defs progress_order base_inv_def split: if_splits, auto)

lemma unlaunched_steps:
  "base_inv b \<Longrightarrow> Base_stopped \<le> stop_progress b \<longrightarrow> \<not> joinable b \<Longrightarrow>
   stop_progress b = Joining_context \<longrightarrow> joiner b = Some Stopper \<or> \<not> joinable b \<Longrightarrow>
   base_steps es b = Some b' \<Longrightarrow> Launch \<notin> set es \<Longrightarrow> failure b' = None \<Longrightarrow>
   Base_stopped \<le> stop_progress b' \<longrightarrow> \<not> joinable b'"
proof (induction es arbitrary: b)
  case (Cons e es)
  from Cons.prems(4) obtain b1 where b1: "failure b = None" "base_step e b = Some b1" "base_steps es b1 = Some b'"
    by (auto simp: bind_eq_Some_conv split: if_splits)
  have "failure b1 = None" by (rule base_steps_alive [OF b1(3) Cons.prems(6)])
  with unlaunched_step [OF Cons.prems(1) b1(1,2) _ Cons.prems(2,3)] base_step_inv [OF Cons.prems(1) b1(1,2)]
    b1(3) Cons.prems(5,6)
  show ?case by (intro Cons.IH [of b1]) auto
qed simp

text \<open>
  The context thread has been joined when \<open>server_base::stop\<close> has returned, so the
  destructor is safe, provided that \<open>launch\<close> is not called once \<open>stop\<close> has begun; a call
  of \<open>launch\<close> after that leaves a joinable thread behind that no \<open>try_stop\<close> joins, and the
  destructor ends the program.
\<close>

theorem destructor_after_stop:
  assumes "base_run es b" and "stop_progress b = Stop_entered"
    and "base_steps es' b = Some b'" and "failure b' = None" and "Launch \<notin> set es'"
    and "Base_stopped \<le> stop_progress b'"
  shows "destroy_base b' = None \<and> try_stop c b' = b' \<and>
    base_step Launch b' = Some (launch b') \<and> failure (launch b') = None \<and>
    destroy_base (try_stop c (launch b')) = Some Terminate"
proof -
  have "\<not> joinable b'"
    using unlaunched_steps [OF base_run_inv [OF assms(1)] _ _ assms(3,5,4)] assms(2,6)
    by (simp add: progress_order)
  moreover have "stopping b'"
    using base_invD(1) [OF base_run_inv [OF base_steps_run [OF assms(1,3)]]] assms(6)
    by (auto simp: progress_order)
  ultimately show ?thesis using assms(4) by (simp add: destroy_base_def base_defs)
qed

definition stopping_base :: server_base where
  "stopping_base = waiting_base\<lparr>joiner := None\<rparr>"

lemma stopping_base_run: "base_run [Launch, Try_stop Application_thread] stopping_base"
proof -
  have "base_steps [Launch, Try_stop Application_thread] fresh_base = Some stopping_base"
    by (simp add: stopping_base_def base_examples base_defs)
  from base_steps_run [OF base_run.base_constructed [OF fresh_base_new] this] show ?thesis by simp
qed

lemma destructor_after_stop_witness:
  "destroy_base (stopping_base\<lparr>context_stopped := True, context_thread := No_thread, stop_progress := Base_stopped\<rparr>) = None"
proof -
  let ?b = "stopping_base\<lparr>context_stopped := True, context_thread := No_thread, stop_progress := Base_stopped\<rparr>"
  have "base_steps [Stop_context, Run_returns, Join_returns, Base_stop_returns] stopping_base = Some ?b"
    by (simp add: stopping_base_def base_examples base_defs)
  from destructor_after_stop [OF stopping_base_run _ this] show ?thesis
    by (simp add: stopping_base_def base_examples progress_order)
qed

text \<open>
  \<open>server_base::stop\<close> returns: from any point of it the steps of the stopping thread and of the
  context thread lead past it, unless a waiting thread already joins the context thread or
  the context thread itself called \<open>try_stop\<close>.
\<close>

text \<open>The steps of \<open>server_base::stop\<close> and of the context thread that ends.\<close>

fun stop_path :: "base_event \<Rightarrow> bool" where
  "stop_path Stop_context = True"
| "stop_path Run_returns = True"
| "stop_path Join_returns = True"
| "stop_path Base_stop_returns = True"
| "stop_path _ = False"

lemma stop_path_shared: "stop_path e \<Longrightarrow> shared_event e \<and> e \<noteq> Launch"
  by (cases e) simp_all

lemma stop_path_caller:
  "list_all stop_path es \<Longrightarrow> base_steps es b = Some b' \<Longrightarrow> stop_caller b' = stop_caller b \<and> stopping b' = stopping b"
proof (induction es arbitrary: b)
  case (Cons e es)
  then obtain b1 where b1: "base_step e b = Some b1" "base_steps es b1 = Some b'"
    by (auto simp: bind_eq_Some_conv split: if_splits)
  have "stop_caller b1 = stop_caller b \<and> stopping b1 = stopping b"
    using b1(1) Cons.prems(1) by (cases e) (auto simp: base_defs split: if_splits)
  with Cons b1(2) show ?case by simp
qed simp

lemma joining_completes:
  assumes "base_inv b" "failure b = None" "stop_progress b = Joining_context" "joiner b \<noteq> Some Waiter"
  shows "\<exists>es b'. list_all stop_path es \<and> base_steps es b = Some b' \<and> failure b' = None \<and>
    stop_progress b' = Base_stopped"
proof (cases "joiner b")
  case None
  then show ?thesis using assms by (intro exI [of _ "[Base_stop_returns]"] exI) auto
next
  case (Some j)
  with assms(4) have j: "joiner b = Some Stopper" by (cases j) simp_all
  have "context_thread b \<noteq> No_thread" using base_invD(3) [OF assms(1,2)] j by (simp add: joinable_def)
  then consider "context_thread b = Executing" | "context_thread b = Finished"
    by (cases "context_thread b") simp_all
  then show ?thesis
  proof cases
    case 1
    have "context_stopped b" using base_invD(2) [OF assms(1)] assms(3) by simp
    with 1 j assms show ?thesis
      by (intro exI [of _ "[Run_returns, Join_returns, Base_stop_returns]"] exI) (auto simp: io_running_def)
  next
    case 2
    with j assms show ?thesis by (intro exI [of _ "[Join_returns, Base_stop_returns]"] exI) auto
  qed
qed

lemma base_stop_completes:
  assumes "base_inv b" "failure b = None" "stopping b" "joiner b \<noteq> Some Waiter" "stop_caller b \<noteq> Context_thread"
  shows "\<exists>es b'. list_all stop_path es \<and> base_steps es b = Some b' \<and> failure b' = None \<and>
    Base_stopped \<le> stop_progress b'"
proof (cases "stop_progress b")
  case Stop_entered
  have "joiner b \<noteq> Some Stopper" using base_invD(4) [OF assms(1,2)] Stop_entered by auto
  with assms(4) have "joiner b = None" by (metis joining_thread.exhaust option.exhaust)
  then have "failure (base_stop b) = None \<and> stop_progress (base_stop b) = Joining_context \<and> joiner (base_stop b) \<noteq> Some Waiter"
    using assms by (simp add: base_defs)
  moreover have "base_step Stop_context b = Some (base_stop b)" using Stop_entered by simp
  moreover have "base_inv (base_stop b)" using base_step_inv [OF assms(1,2)] calculation(2) by blast
  ultimately obtain es b' where "list_all stop_path es" "base_steps es (base_stop b) = Some b'"
      "failure b' = None" "stop_progress b' = Base_stopped"
    using joining_completes [of "base_stop b"] by blast
  with Stop_entered assms(2) show ?thesis by (intro exI [of _ "Stop_context # es"] exI [of _ b']) simp
next
  case Joining_context
  with joining_completes [OF assms(1,2)] assms(4) show ?thesis by fastforce
next
  case Not_stopping
  with assms(3) base_invD(1) [OF assms(1)] show ?thesis by simp
qed (use assms in \<open>auto simp: progress_order intro!: exI [of _ "[]"]\<close>)

lemma base_step_in_stop:
  "base_step be b = Some b' \<Longrightarrow> in_stop w b' \<Longrightarrow> in_stop w b \<or> be = Try_stop (Pool_thread w)"
  by (cases be) (auto simp: in_stop_def base_defs split: if_splits)

section \<open>The interface towards the servers\<close>

text \<open>
  A server is a transition system with runs \<open>run\<close> and steps \<open>step\<close>; \<open>base\<close> is its base
  object, \<open>base_event_of\<close> the base event that an event of the server contains, and
  \<open>queue_stopped\<close> says that its queue has been stopped.
\<close>

locale stoppable_server =
  fixes base :: "'s \<Rightarrow> server_base"
    and run :: "'e list \<Rightarrow> 's \<Rightarrow> bool"
    and step :: "'e \<Rightarrow> 's \<Rightarrow> 's option"
    and base_event_of :: "'e \<Rightarrow> base_event option"
    and queue_stopped :: "'s \<Rightarrow> bool"
  assumes run_start: "run [] s \<Longrightarrow> new_server_base None = Inr (base s)"
    and run_step: "run (es @ [e]) s' \<Longrightarrow> \<exists>s. run es s \<and> failure (base s) = None \<and> step e s = Some s'"
    and step_base: "step e s = Some s' \<Longrightarrow>
      (case base_event_of e of None \<Rightarrow> base s' = base s | Some be \<Rightarrow> base_step be (base s) = Some (base s'))"
    and step_stops: "step e s = Some s' \<Longrightarrow> base_event_of e = Some Queue_stops \<Longrightarrow> queue_stopped s'"
    and step_keeps_stopped: "step e s = Some s' \<Longrightarrow> queue_stopped s \<Longrightarrow> queue_stopped s'"
begin

lemma run_projects: "run es s \<Longrightarrow> base_run (List.map_filter base_event_of es) (base s)"
proof (induction es arbitrary: s rule: rev_induct)
  case Nil
  then show ?case by (auto simp: map_filter_simps intro: base_constructed run_start)
next
  case (snoc e es)
  from run_step [OF snoc.prems] obtain s0 where s0: "run es s0" "failure (base s0) = None" "step e s0 = Some s"
    by blast
  have run: "base_run (List.map_filter base_event_of es) (base s0)" by (rule snoc.IH [OF s0(1)])
  from step_base [OF s0(3)] run base_run.base_event [OF run s0(2)] show ?case
    by (cases "base_event_of e") (simp_all add: map_filter_def)
qed

lemma run_base_inv: "run es s \<Longrightarrow> base_inv (base s)"
  by (rule base_run_inv [OF run_projects])

lemma progress_mono:
  assumes "run es s" "step e s = Some s'"
  shows "stop_progress (base s) \<le> stop_progress (base s')"
  using step_base [OF assms(2)] base_step_progress [OF _ run_base_inv [OF assms(1)]]
  by (cases "base_event_of e") auto

lemma queue_stopped_progress: "run es s \<Longrightarrow> Queue_stopped \<le> stop_progress (base s) \<Longrightarrow> queue_stopped s"
proof (induction es arbitrary: s rule: rev_induct)
  case Nil
  with new_base_progress [OF run_start] show ?case by (simp add: progress_order)
next
  case (snoc e es)
  from run_step [OF snoc.prems(1)] obtain s0 where s0: "run es s0" "step e s0 = Some s" by blast
  show ?case
  proof (cases "base_event_of e = Some Queue_stops")
    case False
    with step_base [OF s0(2)] base_step_reaches [of _ "base s0" "base s"] snoc.prems(2)
    have "Queue_stopped \<le> stop_progress (base s0)" by (cases "base_event_of e") auto
    with snoc.IH [OF s0(1)] step_keeps_stopped [OF s0(2)] show ?thesis by blast
  qed (rule step_stops [OF s0(2)])
qed

lemma no_io_after_base_stop:
  "run es s \<Longrightarrow> failure (base s) = None \<Longrightarrow> Base_stopped \<le> stop_progress (base s) \<Longrightarrow> \<not> io_running (base s)"
  by (rule base_invD(5) [OF run_base_inv])

lemma stop_once_in_order:
  "run es s \<Longrightarrow> filter (\<lambda>e. e \<in> set stop_sequence) (List.map_filter base_event_of es) =
     take (progress_rank (stop_progress (base s)) - 1) stop_sequence"
  by (rule stop_events_in_sequence [OF run_projects])

end

end
