(* ===== verification/Request_Server.thy ===== *)
theory Request_Server
  imports Http_Connection Rate_Limiter Server_Base
begin

text \<open>
  \<open>network/servers/request_server_base.hpp\<close> on top of \<open>server_base.hpp\<close>: the accept
  handler with its per-address rate limit, the connections, the request queue, the pool of
  worker threads and the stop sequence, as one transition system.

  \<open>handle\<close> is the effect of one event: the completion of an asynchronous operation or the
  run of a posted handler on the context thread, a worker's return from \<open>wait_and_pop\<close> or
  from \<open>process_client_request\<close>, a sweep of the limiter's cleanup thread, a step of \<open>stop\<close>; \<open>None\<close> where the event cannot happen. All
  interleavings are event lists. The application's \<open>process_client_request\<close> is the
  parameter \<open>process\<close>: \<open>process ip req resp\<close> allows the response \<open>resp\<close>.

  An exception that leaves a handler or a worker's loop ends the program
  (\<open>std::terminate\<close>): \<open>aborted\<close> records it, and no event follows.
\<close>

section \<open>State\<close>

datatype 'rq worker = Waiting | Processing "'rq request_task" | Ended

record ('rq, 'rs) request_server =
  base :: server_base
  connections :: "nat \<rightharpoonup> 'rs http_connection"
  request_queue :: "'rq request_task thread_safe_queue"
  workers :: "'rq worker list"
  ip_rate_limiter :: rate_limiter
  aborted :: "exn option"

datatype ('rq, 'rs) event =
    Ev_accept nat "string option" int
  | Ev_accept_error
  | Ev_read nat 'rq "string option"
  | Ev_read_error nat
  | Ev_job nat nat
  | Ev_write nat bool
  | Ev_pop nat
  | Ev_respond nat 'rs
  | Ev_worker_throws nat exn
  | Ev_cleanup int
  | Ev_base base_event
  | Ev_queue_stop
  | Ev_joined
  | Ev_join_self

definition DEFAULT_WORKER_THREAD_COUNT :: nat where
  "DEFAULT_WORKER_THREAD_COUNT = 4"

definition DEFAULT_MAX_PENDING_REQUESTS :: size_t where
  "DEFAULT_MAX_PENDING_REQUESTS = 64 * 1024"

definition DEFAULT_MAX_REQUEST_BYTES :: size_t where
  "DEFAULT_MAX_REQUEST_BYTES = 64 * 1024 * 1024"

definition DEFAULT_MAX_IP_RATE_TOKENS :: real where
  "DEFAULT_MAX_IP_RATE_TOKENS = 50"

definition DEFAULT_IP_TOKEN_REFILL_RATE :: real where
  "DEFAULT_IP_TOKEN_REFILL_RATE = 1 / 2"

definition new_request_server ::
    "exn option \<Rightarrow> nat \<Rightarrow> size_t \<Rightarrow> size_t \<Rightarrow> real \<Rightarrow> real \<Rightarrow> ('rq, 'rs) request_server outcome" where
  "new_request_server bind_error worker_count max_pending_requests max_request_bytes max_ip_rate_tokens
       ip_token_refill_rate =
     (case new_server_base bind_error of
        Inl e \<Rightarrow> Inl e
      | Inr b \<Rightarrow>
          (case new_rate_limiter max_ip_rate_tokens ip_token_refill_rate
                  DEFAULT_RATE_LIMITER_CLEANUP_AFTER_IDLE_DURATION of
             Inl e \<Rightarrow> Inl e
           | Inr limiter \<Rightarrow>
               Inr \<lparr>base = b, connections = Map.empty,
                    request_queue = new_queue max_pending_requests max_request_bytes,
                    workers = replicate worker_count Waiting,
                    ip_rate_limiter = limiter, aborted = None\<rparr>))"

text \<open>The constructor with its default arguments.\<close>

definition new_default_request_server :: "exn option \<Rightarrow> ('rq, 'rs) request_server outcome" where
  "new_default_request_server bind_error =
     new_request_server bind_error DEFAULT_WORKER_THREAD_COUNT DEFAULT_MAX_PENDING_REQUESTS
       DEFAULT_MAX_REQUEST_BYTES DEFAULT_MAX_IP_RATE_TOKENS DEFAULT_IP_TOKEN_REFILL_RATE"

section \<open>Events\<close>

text \<open>The accept handler; every path but the one that throws accepts again.\<close>

definition on_accept ::
    "(real \<Rightarrow> real) \<Rightarrow> nat \<Rightarrow> string option \<Rightarrow> int \<Rightarrow> ('rq, 'rs) request_server \<Rightarrow> ('rq, 'rs) request_server" where
  "on_accept fl cid ip now s =
     (let s0 = s\<lparr>base := (base s)\<lparr>accept_pending := False\<rparr>\<rparr> in
      case ip of
        None \<Rightarrow> s0\<lparr>aborted := Some (System_error ''remote_endpoint'')\<rparr>
      | Some addr \<Rightarrow>
          let (ok, limiter) = consume fl now addr 1 (ip_rate_limiter s0);
              s1 = s0\<lparr>base := start_accept_async (base s0), ip_rate_limiter := limiter\<rparr> in
          if \<not> ok then s1
          else s1\<lparr>connections := (connections s1)(cid \<mapsto> start new_http_connection)\<rparr>)"

definition on_accept_error :: "('rq, 'rs) request_server \<Rightarrow> ('rq, 'rs) request_server" where
  "on_accept_error s = s\<lparr>base := start_accept_async ((base s)\<lparr>accept_pending := False\<rparr>)\<rparr>"

definition on_read_event ::
    "('rq, 'rs, 'z) beast_scheme \<Rightarrow> nat \<Rightarrow> unit + 'rq \<Rightarrow> string option \<Rightarrow> 'rs http_connection \<Rightarrow>
     ('rq, 'rs) request_server \<Rightarrow> ('rq, 'rs) request_server" where
  "on_read_event bst cid result ip c s =
     (let (e, c', q) = on_read bst cid result ip c (request_queue s)
      in s\<lparr>connections := (connections s)(cid \<mapsto> c'), request_queue := q, aborted := e\<rparr>)"

definition worker_pop ::
    "('rq, 'rs, 'z) beast_scheme \<Rightarrow> nat \<Rightarrow> ('rq, 'rs) request_server \<Rightarrow> ('rq, 'rs) request_server option" where
  "worker_pop bst w s = (case wait_and_pop (task_template bst) (request_queue s) of
       (Blocks, q) \<Rightarrow> None
     | (Returns None, q) \<Rightarrow> Some (s\<lparr>request_queue := q, workers := (workers s)[w := Ended]\<rparr>)
     | (Returns (Some task), q) \<Rightarrow>
         Some (s\<lparr>request_queue := q, workers := (workers s)[w := Processing task]\<rparr>))"

definition worker_respond ::
    "nat \<Rightarrow> 'rq request_task \<Rightarrow> 'rs \<Rightarrow> ('rq, 'rs) request_server \<Rightarrow> ('rq, 'rs) request_server" where
  "worker_respond w task response s =
     s\<lparr>workers := (workers s)[w := Waiting],
       connections := (connections s)(connection task :=
         map_option (send_response response (sequence_id task)) (connections s (connection task)))\<rparr>"

text \<open>
  \<open>request_server_base::stop\<close> after \<open>server_base::stop\<close>: \<open>request_queue.stop()\<close>, and
  then the joins of the workers.
\<close>

definition stop_queue :: "('rq, 'rs) request_server \<Rightarrow> ('rq, 'rs) request_server option" where
  "stop_queue s =
     map_option (\<lambda>b. s\<lparr>base := b, request_queue := snd (stop (request_queue s))\<rparr>)
       (base_step Queue_stops (base s))"

definition join_workers :: "('rq, 'rs) request_server \<Rightarrow> ('rq, 'rs) request_server option" where
  "join_workers s =
     (if list_all (\<lambda>w. w = Ended) (workers s)
      then map_option (\<lambda>b. s\<lparr>base := b\<rparr>) (base_step Stop_returns (base s)) else None)"

text \<open>
  The joins when a worker is itself in \<open>stop\<close>, because \<open>process_client_request\<close> called
  \<open>try_stop\<close>: they come to that worker once those before it have ended, and a thread that joins
  itself gets a \<open>std::system_error\<close>, which leaves \<open>process_client_request\<close> and the worker's loop.
\<close>

definition join_self :: "('rq, 'rs) request_server \<Rightarrow> ('rq, 'rs) request_server option" where
  "join_self s = (case stop_caller (base s) of
       Pool_thread w \<Rightarrow>
         if stop_progress (base s) = Queue_stopped \<and> list_all (\<lambda>w. w = Ended) (take w (workers s))
         then Some (s\<lparr>aborted := Some (System_error ''resource_deadlock_would_occur'')\<rparr>) else None
     | _ \<Rightarrow> None)"

text \<open>A worker can call \<open>try_stop\<close> while it processes a request, and goes on when \<open>stop\<close> has returned.\<close>

fun caller_present :: "base_event \<Rightarrow> ('rq, 'rs) request_server \<Rightarrow> bool" where
  "caller_present (Try_stop (Pool_thread w)) s \<longleftrightarrow> w < length (workers s) \<and> \<not> in_stop w (base s) \<and>
     (case workers s ! w of Processing task \<Rightarrow> True | _ \<Rightarrow> False)"
| "caller_present _ s \<longleftrightarrow> True"

text \<open>
  The destructor once its \<open>try_stop\<close> has returned, which is at once when another thread is in
  \<open>stop\<close>: destroying a worker that has not been joined ends the program.
\<close>

definition destroy :: "('rq, 'rs) request_server \<Rightarrow> exn option" where
  "destroy s =
     (if workers s \<noteq> [] \<and> stop_progress (base s) \<noteq> Stop_returned then Some Terminate
      else destroy_base (base s))"

fun handle ::
    "('rq, 'rs, 'z) beast_scheme \<Rightarrow> (real \<Rightarrow> real) \<Rightarrow> (string \<Rightarrow> 'rq \<Rightarrow> 'rs \<Rightarrow> bool) \<Rightarrow>
     ('rq, 'rs) event \<Rightarrow> ('rq, 'rs) request_server \<Rightarrow> ('rq, 'rs) request_server option" where
  "handle bst fl process (Ev_accept cid ip now) s =
     (if io_running (base s) \<and> accept_pending (base s) \<and> connections s cid = None then Some (on_accept fl cid ip now s) else None)"
| "handle bst fl process Ev_accept_error s =
     (if io_running (base s) \<and> accept_pending (base s) then Some (on_accept_error s) else None)"
| "handle bst fl process (Ev_read cid req ip) s =
     (case connections s cid of
        Some c \<Rightarrow> if io_running (base s) \<and> reading c then Some (on_read_event bst cid (Inr req) ip c s) else None
      | None \<Rightarrow> None)"
| "handle bst fl process (Ev_read_error cid) s =
     (case connections s cid of
        Some c \<Rightarrow> if io_running (base s) \<and> reading c then Some (on_read_event bst cid (Inl ()) None c s) else None
      | None \<Rightarrow> None)"
| "handle bst fl process (Ev_job cid k) s =
     (case connections s cid of
        Some c \<Rightarrow>
          if io_running (base s) \<and> k < length (posted c)
          then Some (s\<lparr>connections := (connections s)(cid \<mapsto>
                 run_job bst (posted c ! k) (c\<lparr>posted := take k (posted c) @ drop (Suc k) (posted c)\<rparr>))\<rparr>)
          else None
      | None \<Rightarrow> None)"
| "handle bst fl process (Ev_write cid ec) s =
     (case connections s cid of
        Some c \<Rightarrow>
          (case in_flight c of
             Some response \<Rightarrow>
               if io_running (base s)
               then Some (s\<lparr>connections := (connections s)(cid \<mapsto> on_write bst ec response c)\<rparr>) else None
           | None \<Rightarrow> None)
      | None \<Rightarrow> None)"
| "handle bst fl process (Ev_pop w) s =
     (if w < length (workers s) then
        (case workers s ! w of Waiting \<Rightarrow> worker_pop bst w s | _ \<Rightarrow> None)
      else None)"
| "handle bst fl process (Ev_respond w response) s =
     (if w < length (workers s) \<and> \<not> in_stop w (base s) then
        (case workers s ! w of
           Processing task \<Rightarrow>
             if process (client_ip task) (task_request task) response
             then Some (worker_respond w task response s) else None
         | _ \<Rightarrow> None)
      else None)"
| "handle bst fl process (Ev_worker_throws w e) s =
     (if w < length (workers s) \<and> \<not> in_stop w (base s) then
        (case workers s ! w of Processing task \<Rightarrow> Some (s\<lparr>aborted := Some e\<rparr>) | _ \<Rightarrow> None)
      else None)"
| "handle bst fl process (Ev_cleanup now) s =
     Some (s\<lparr>ip_rate_limiter := cleanup fl now (ip_rate_limiter s)\<rparr>)"
| "handle bst fl process (Ev_base be) s =
     (if shared_event be \<and> caller_present be s
      then map_option (\<lambda>b. s\<lparr>base := b\<rparr>) (base_step be (base s)) else None)"
| "handle bst fl process Ev_queue_stop s = stop_queue s"
| "handle bst fl process Ev_joined s = join_workers s"
| "handle bst fl process Ev_join_self s = join_self s"

text \<open>The base event in an event.\<close>

fun request_base_event :: "('rq, 'rs) event \<Rightarrow> base_event option" where
  "request_base_event (Ev_accept cid None now) = Some (Accepted False)"
| "request_base_event (Ev_accept cid (Some ip) now) = Some (Accepted True)"
| "request_base_event Ev_accept_error = Some (Accepted True)"
| "request_base_event (Ev_base be) = Some be"
| "request_base_event Ev_queue_stop = Some Queue_stops"
| "request_base_event Ev_joined = Some Stop_returns"
| "request_base_event _ = None"

definition alive :: "('rq, 'rs) request_server \<Rightarrow> bool" where
  "alive s \<longleftrightarrow> aborted s = None \<and> failure (base s) = None"

text \<open>A run from a constructed server, with the events in the order in which they happened.\<close>

inductive server_run ::
    "('rq, 'rs, 'z) beast_scheme \<Rightarrow> (real \<Rightarrow> real) \<Rightarrow> (string \<Rightarrow> 'rq \<Rightarrow> 'rs \<Rightarrow> bool) \<Rightarrow>
     ('rq, 'rs) event list \<Rightarrow> ('rq, 'rs) request_server \<Rightarrow> bool"
  for bst fl process where
  constructed: "new_request_server None n ms mb mt rate = Inr s \<Longrightarrow> server_run bst fl process [] s"
| event: "\<lbrakk> server_run bst fl process es s; alive s; handle bst fl process e s = Some s' \<rbrakk> \<Longrightarrow>
     server_run bst fl process (es @ [e]) s'"

text \<open>The requests read on a connection, with the address of the client, in order of arrival.\<close>

fun read_by :: "nat \<Rightarrow> ('rq, 'rs) event \<Rightarrow> (string \<times> 'rq) list" where
  "read_by cid (Ev_read cid' req (Some ip)) = (if cid' = cid then [(ip, req)] else [])"
| "read_by cid _ = []"

definition requests_read :: "nat \<Rightarrow> ('rq, 'rs) event list \<Rightarrow> (string \<times> 'rq) list" where
  "requests_read cid es = concat (map (read_by cid) es)"

text \<open>What may answer a request: a response of the application, or the overload response.\<close>

definition answers ::
    "('rq, 'rs, 'z) beast_scheme \<Rightarrow> (string \<Rightarrow> 'rq \<Rightarrow> 'rs \<Rightarrow> bool) \<Rightarrow> string \<times> 'rq \<Rightarrow> 'rs \<Rightarrow> bool" where
  "answers bst process rq r \<longleftrightarrow> process (fst rq) (snd rq) r
     \<or> r = overloaded_response bst (rq_version bst (rq_moved_from bst (snd rq)))"


section \<open>The invariant\<close>

definition processing :: "'rq worker list \<Rightarrow> 'rq request_task set" where
  "processing ws = {task. Processing task \<in> set ws}"

text \<open>The tasks under way: queued or in a worker's hands.\<close>

definition tasks :: "('rq, 'rs) request_server \<Rightarrow> 'rq request_task set" where
  "tasks s = set (dequeue (request_queue s)) \<union> processing (workers s)"

definition answer_at ::
    "('rq, 'rs, 'z) beast_scheme \<Rightarrow> (string \<Rightarrow> 'rq \<Rightarrow> 'rs \<Rightarrow> bool) \<Rightarrow> (string \<times> 'rq) list \<Rightarrow> nat \<Rightarrow> 'rs \<Rightarrow> bool" where
  "answer_at bst process rs k r \<longleftrightarrow> k < length rs \<and> answers bst process (rs ! k) r"

definition task_ok :: "(string \<times> 'rq) list \<Rightarrow> 'rq request_task \<Rightarrow> bool" where
  "task_ok rs task \<longleftrightarrow>
     (\<exists>k < length rs. sequence_id task = of_nat k \<and> rs ! k = (client_ip task, task_request task))"

definition conn_ok ::
    "('rq, 'rs, 'z) beast_scheme \<Rightarrow> (string \<Rightarrow> 'rq \<Rightarrow> 'rs \<Rightarrow> bool) \<Rightarrow> (string \<times> 'rq) list \<Rightarrow>
     'rq request_task set \<Rightarrow> nat \<Rightarrow> 'rs http_connection \<Rightarrow> bool" where
  "conn_ok bst process rs T cid c \<longleftrightarrow> conn_inv bst (answer_at bst process rs) (length rs) c
     \<and> (\<forall>k. length (wire c) \<le> k \<longrightarrow> k < length rs \<longrightarrow>
          response_pending bst c (of_nat k) \<or> (\<exists>task \<in> T. connection task = cid \<and> sequence_id task = of_nat k))"

definition server_inv ::
    "('rq, 'rs, 'z) beast_scheme \<Rightarrow> (string \<Rightarrow> 'rq \<Rightarrow> 'rs \<Rightarrow> bool) \<Rightarrow> ('rq, 'rs) event list \<Rightarrow>
     ('rq, 'rs) request_server \<Rightarrow> bool" where
  "server_inv bst process es s \<longleftrightarrow> queue_invar (task_template bst) (request_queue s)
     \<and> (\<forall>cid. connections s cid = None \<longrightarrow> requests_read cid es = [])
     \<and> (\<forall>cid c. connections s cid = Some c \<longrightarrow>
          conn_ok bst process (requests_read cid es) (tasks s) cid c)
     \<and> (\<forall>task \<in> tasks s. task_ok (requests_read (connection task) es) task)"

lemma requests_read_snoc [simp]: "requests_read cid (es @ [e]) = requests_read cid es @ read_by cid e"
  by (simp add: requests_read_def)

lemma requests_read_length: "length (requests_read cid es) \<le> length es"
proof (induction es rule: rev_induct)
  case (snoc e es)
  have "length (read_by cid e) \<le> 1" by (cases "(cid, e)" rule: read_by.cases) auto
  with snoc show ?case by simp
qed (simp add: requests_read_def)

lemma processing_update:
  assumes "w < length ws"
  shows "ws ! w = Waiting \<Longrightarrow> processing (ws[w := Processing task]) = insert task (processing ws)"
    and "ws ! w = Waiting \<Longrightarrow> processing (ws[w := Ended]) = processing ws"
    and "ws ! w = Processing task \<Longrightarrow> processing (ws[w := Waiting]) \<subseteq> processing ws"
    and "ws ! w = Processing task \<Longrightarrow> processing ws \<subseteq> insert task (processing (ws[w := Waiting]))"
proof -
  have other: "x \<in> set (ws[w := y]) \<longleftrightarrow> x = y \<or> (\<exists>v < length ws. v \<noteq> w \<and> ws ! v = x)" for x y
    using assms by (auto simp: in_set_conv_nth nth_list_update)
  have mem: "x \<in> set ws \<longleftrightarrow> x = ws ! w \<or> (\<exists>v < length ws. v \<noteq> w \<and> ws ! v = x)" for x
    using assms by (auto simp: in_set_conv_nth)
  show "ws ! w = Waiting \<Longrightarrow> processing (ws[w := Processing task]) = insert task (processing ws)"
    "ws ! w = Waiting \<Longrightarrow> processing (ws[w := Ended]) = processing ws"
    "ws ! w = Processing task \<Longrightarrow> processing (ws[w := Waiting]) \<subseteq> processing ws"
    "ws ! w = Processing task \<Longrightarrow> processing ws \<subseteq> insert task (processing (ws[w := Waiting]))"
    unfolding processing_def other mem by auto
qed

lemma conn_ok_mono: "conn_ok bst process rs T cid c \<Longrightarrow> T \<subseteq> T' \<Longrightarrow> conn_ok bst process rs T' cid c"
  by (fastforce simp: conn_ok_def)

lemma conn_ok_new: "conn_ok bst process [] T cid (start new_http_connection)"
  by (simp add: conn_ok_def conn_inv_new)

lemma conn_ok_close:
  "conn_ok bst process rs T cid c \<Longrightarrow> conn_ok bst process rs T cid (close (c\<lparr>reading := False\<rparr>))"
  by (simp add: conn_ok_def close_inv) (simp add: close_def response_pending_def)

lemma conn_ok_job:
  assumes "beast_laws bst" "conn_ok bst process rs T cid c" "length rs < 2 ^ 64" "k < length (posted c)"
  shows "conn_ok bst process rs T cid
    (run_job bst (posted c ! k) (c\<lparr>posted := take k (posted c) @ drop (Suc k) (posted c)\<rparr>))"
proof -
  let ?c = "c\<lparr>posted := take k (posted c) @ drop (Suc k) (posted c)\<rparr>" and ?j = "posted c ! k"
  have inv: "conn_inv bst (answer_at bst process rs) (length rs) c" using assms(2) by (simp add: conn_ok_def)
  have "conn_inv bst (answer_at bst process rs) (length rs) ?c"
    by (rule drop_job_inv [OF inv]) (auto dest: in_set_takeD in_set_dropD)
  then have "conn_inv bst (answer_at bst process rs) (length rs) (run_job bst ?j ?c)"
    using run_job_inv [OF assms(1) _ assms(3)] ordered_invD(6) [OF conn_invD(1) [OF inv], of ?j] assms(4)
    by simp
  moreover have "response_pending bst (run_job bst ?j ?c) i" if "response_pending bst c i" for i
    using run_job_pending [where c = c and xs = "take k (posted c)" and j = ?j and ys = "drop (Suc k) (posted c)"] that
    by (simp add: id_take_nth_drop [OF assms(4), symmetric])
  ultimately show ?thesis using assms(2) by (simp add: conn_ok_def) blast
qed

lemma conn_ok_write:
  assumes "beast_laws bst" "conn_ok bst process rs T cid c" "length rs < 2 ^ 64" "in_flight c = Some r"
  shows "conn_ok bst process rs T cid (on_write bst ec r c)"
proof -
  have inv: "conn_inv bst (answer_at bst process rs) (length rs) c" using assms(2) by (simp add: conn_ok_def)
  note ord = ordered_invD [OF conn_invD(1) [OF inv]]
  have "response_pending bst (on_write bst ec r c) (of_nat k)"
    if "response_pending bst c (of_nat k)" "length (wire (on_write bst ec r c)) \<le> k" "k < length rs" for k
  proof (rule on_write_pending [OF that(1)])
    have "\<not> ec \<Longrightarrow> (of_nat k :: u64) \<noteq> of_nat (length (wire c))"
      using that(2,3) assms(3) by (subst of_nat_u64_inject) (simp_all add: on_write_wire)
    then show "ec \<or> of_nat k \<noteq> next_response_sequence_id c" using ord(2) by auto
  qed
  moreover have "length (wire c) \<le> length (wire (on_write bst ec r c))" by (simp add: on_write_wire)
  ultimately show ?thesis
    using assms(2) on_write_inv [OF assms(1) inv assms(3,4)] unfolding conn_ok_def by (meson order_trans)
qed


text \<open>The state of a connection that has taken the sequence number of the request it just read.\<close>

abbreviation numbered :: "'rs http_connection \<Rightarrow> 'rs http_connection" where
  "numbered c \<equiv> c\<lparr>reading := False, next_sequence_id := next_sequence_id c + 1\<rparr>"

lemma numbered_inv:
  assumes "conn_inv bst (answer_at bst process rs) (length rs) c"
  shows "conn_inv bst (answer_at bst process (rs @ [x])) (Suc (length rs)) (numbered c)"
  using take_sequence_inv [where c = "c\<lparr>reading := False\<rparr>" and good = "answer_at bst process rs"
      and good' = "answer_at bst process (rs @ [x])"] assms
  by (simp add: answer_at_def nth_append)

lemma numbered_pending:
  assumes "conn_ok bst process rs T cid c" "length (wire c) \<le> k" "k < length rs"
  shows "response_pending bst (numbered c) (of_nat k) \<or>
    (\<exists>task \<in> T. connection task = cid \<and> sequence_id task = of_nat k)"
  using assms by (auto simp: conn_ok_def response_pending_def)

lemma conn_ok_accepted:
  assumes "conn_ok bst process rs T cid c" "connection task = cid" "sequence_id task = next_sequence_id c"
  shows "conn_ok bst process (rs @ [x]) (insert task T) cid (read (numbered c))"
proof -
  have "sequence_id task = of_nat (length rs)"
    using assms by (simp add: conn_ok_def conn_inv_def ordered_inv_def)
  moreover have "conn_inv bst (answer_at bst process (rs @ [x])) (length (rs @ [x])) (read (numbered c))"
    using numbered_inv [of bst process rs c x] assms(1) unfolding read_def reading_inv
    by (simp add: conn_ok_def)
  ultimately show ?thesis
    using assms(2) numbered_pending [OF assms(1)] unfolding conn_ok_def
    by (auto simp: read_def less_Suc_eq response_pending_def)
qed

lemma conn_ok_rejected:
  assumes "conn_ok bst process rs T cid c"
  shows "conn_ok bst process (rs @ [x]) T cid
    (reject_overloaded (next_sequence_id c) (rq_version bst (rq_moved_from bst (snd x))) (numbered c))"
proof -
  let ?j = "Reject (next_sequence_id c) (rq_version bst (rq_moved_from bst (snd x)))"
  have inv: "conn_inv bst (answer_at bst process rs) (length rs) c" using assms by (simp add: conn_ok_def)
  have sid: "next_sequence_id c = of_nat (length rs)"
    by (rule ordered_invD(1) [OF conn_invD(1) [OF inv]])
  have "answer_at bst process (rs @ [x]) (length rs) (snd (job_response bst ?j))"
    by (simp add: answer_at_def answers_def)
  with sid have "conn_inv bst (answer_at bst process (rs @ [x])) (Suc (length rs))
      ((numbered c)\<lparr>posted := posted (numbered c) @ [?j]\<rparr>)"
    by (intro post_job_inv numbered_inv inv) auto
  moreover have "response_pending bst ((numbered c)\<lparr>posted := posted c @ [?j]\<rparr>) (of_nat (length rs))"
    using sid by (simp add: response_pending_def)
  ultimately show ?thesis
    using numbered_pending [OF assms]
    by (auto simp: conn_ok_def reject_overloaded_def less_Suc_eq response_pending_def)
qed

lemma conn_ok_send:
  assumes "conn_ok bst process rs T cid c" "task_ok rs task" "connection task = cid"
    and "process (client_ip task) (task_request task) r" "T \<subseteq> insert task T'"
  shows "conn_ok bst process rs T' cid (send_response r (sequence_id task) c)"
proof -
  from assms(2) obtain k where "k < length rs" "sequence_id task = of_nat k"
      "rs ! k = (client_ip task, task_request task)"
    by (auto simp: task_ok_def)
  then have "conn_inv bst (answer_at bst process rs) (length rs) (send_response r (sequence_id task) c)"
    using assms(1,4) unfolding send_response_def
    by (intro post_job_inv) (auto simp: conn_ok_def answer_at_def answers_def)
  moreover have "response_pending bst c i \<Longrightarrow> response_pending bst (send_response r (sequence_id task) c) i"
    "response_pending bst (send_response r (sequence_id task) c) (sequence_id task)"
    "wire (send_response r (sequence_id task) c) = wire c" for i
    by (auto simp: response_pending_def send_response_def)
  ultimately show ?thesis using assms(1,5) unfolding conn_ok_def by (metis insertE subsetD)
qed

lemma conn_ok_other:
  assumes "conn_ok bst process rs T cid c" "connection task \<noteq> cid" "T \<subseteq> insert task T'"
  shows "conn_ok bst process rs T' cid c"
  using assms unfolding conn_ok_def by blast


lemma conn_ok_rest:
  assumes "conn_ok bst process rs {} cid c" "posted c = []" "in_flight c = None" "socket_open c"
  shows "length (wire c) = length rs"
proof (rule ccontr)
  have inv: "conn_inv bst (answer_at bst process rs) (length rs) c" using assms(1) by (simp add: conn_ok_def)
  note ord = ordered_invD [OF conn_invD(1) [OF inv]]
  assume "length (wire c) \<noteq> length rs"
  with ord(3) assms(1) have "response_pending bst c (of_nat (length (wire c)))"
    by (auto simp: conn_ok_def)
  then have "responses c (next_response_sequence_id c) \<noteq> None"
    using assms(2) ord(2) by (auto simp: response_pending_def)
  with conn_invD(2) [OF inv] assms(3,4) show False by (auto simp: flowing_inv_def)
qed

section \<open>Every event keeps the invariant\<close>

lemma server_invD:
  assumes "server_inv bst process es s"
  shows "queue_invar (task_template bst) (request_queue s)"
    and "connections s cid = None \<Longrightarrow> requests_read cid es = []"
    and "connections s cid = Some c \<Longrightarrow> conn_ok bst process (requests_read cid es) (tasks s) cid c"
    and "task \<in> tasks s \<Longrightarrow> task_ok (requests_read (connection task) es) task"
  using assms unfolding server_inv_def by blast+

lemma server_inv_connection:
  assumes "server_inv bst process es s" "\<And>cid. read_by cid e = []"
    and "queue_invar (task_template bst) (request_queue s')" "tasks s' = tasks s"
    and "connections s' = (connections s)(cid \<mapsto> c)"
    and "conn_ok bst process (requests_read cid es) (tasks s) cid c"
  shows "server_inv bst process (es @ [e]) s'"
proof -
  have "requests_read cid (es @ [e]) = requests_read cid es" for cid using assms(2) by simp
  with assms(3-6) server_invD [OF assms(1)] show ?thesis
    unfolding server_inv_def by (simp add: fun_upd_def del: requests_read_snoc)
qed

lemma server_inv_tasks:
  assumes "server_inv bst process es s" "\<And>cid. read_by cid e = []"
    and "queue_invar (task_template bst) (request_queue s')" "tasks s' = tasks s" "connections s' = connections s"
  shows "server_inv bst process (es @ [e]) s'"
proof -
  have "requests_read cid (es @ [e]) = requests_read cid es" for cid using assms(2) by simp
  with assms(3-5) server_invD [OF assms(1)] show ?thesis
    unfolding server_inv_def by (simp del: requests_read_snoc)
qed

lemma accept_inv:
  assumes "server_inv bst process es s" "connections s cid = None" "aborted (on_accept fl cid ip now s) = None"
  shows "server_inv bst process (es @ [Ev_accept cid ip now]) (on_accept fl cid ip now s)"
proof (cases ip)
  case (Some addr)
  obtain ok rl where r: "consume fl now addr 1 (ip_rate_limiter s) = (ok, rl)" by fastforce
  show ?thesis
  proof (cases ok)
    case True
    have "conn_ok bst process (requests_read cid es) (tasks s) cid (start new_http_connection)"
      using server_invD(2) [OF assms(1,2)] conn_ok_new [of bst process "tasks s" cid] by simp
    with True Some r show ?thesis
      using server_invD(1) [OF assms(1)]
      by (intro server_inv_connection [OF assms(1), where cid = cid]) (simp_all add: on_accept_def tasks_def)
  next
    case False
    with Some r show ?thesis
      using server_invD(1) [OF assms(1)]
      by (intro server_inv_tasks [OF assms(1)]) (simp_all add: on_accept_def tasks_def)
  qed
qed (use assms in \<open>simp add: on_accept_def\<close>)

lemma read_event_inv:
  assumes "server_inv bst process es s" "connections s cid = Some c"
    and "aborted (on_read_event bst cid (Inr req) ip c s) = None"
  shows "server_inv bst process (es @ [Ev_read cid req ip]) (on_read_event bst cid (Inr req) ip c s)"
proof (cases ip)
  case None
  with assms(3) show ?thesis by (simp add: on_read_event_def on_read_def Let_def)
next
  case (Some addr)
  let ?rs = "requests_read cid es" and ?q = "request_queue s" and ?tp = "task_template bst"
  let ?task = "\<lparr>connection = cid, task_request = req, client_ip = addr, sequence_id = next_sequence_id c\<rparr>"
  let ?s = "on_read_event bst cid (Inr req) ip c s"
  note inv = server_invD [OF assms(1)]
  have c: "conn_ok bst process ?rs (tasks s) cid c" by (rule inv(3) [OF assms(2)])
  obtain ok nt q where push: "try_push_back ?tp ?task ?q = (ok, nt, q)" by (metis prod.exhaust)
  have q: "dequeue q = dequeue ?q @ (if ok then [?task] else [])" "queue_invar ?tp q"
    using tsq.contents_offer [OF inv(1), of ?task] tsq.invar_offer [OF inv(1), of ?task] push by simp_all
  have tasks': "tasks ?s = (if ok then insert ?task (tasks s) else tasks s)"
    using q(1) Some push by (auto simp: tasks_def on_read_event_def on_read_def Let_def)
  have "sequence_id ?task = of_nat (length ?rs)"
    using ordered_invD(1) [OF conn_invD(1)] c by (auto simp: conn_ok_def)
  then have task: "task_ok (?rs @ [(addr, req)]) ?task" by (auto simp: task_ok_def)
  have later: "task_ok rs t \<Longrightarrow> task_ok (rs @ ys) t" for rs ys and t :: "'a request_task"
    by (fastforce simp: task_ok_def nth_append)
  have "conn_ok bst process (?rs @ [(addr, req)]) (tasks ?s) cid
      (if ok then read (numbered c)
       else reject_overloaded (next_sequence_id c) (rq_version bst (rq_moved_from bst req)) (numbered c))"
    using conn_ok_accepted [OF c, of ?task] conn_ok_rejected [OF c, of "(addr, req)"] tasks' by simp
  moreover have "connections ?s = (connections s)(cid \<mapsto> (if ok then read (numbered c)
       else reject_overloaded (next_sequence_id c) (rq_version bst (rq_moved_from bst req)) (numbered c)))"
    "request_queue ?s = q"
    using Some push by (auto simp: on_read_event_def on_read_def Let_def)
  moreover have "task_ok (requests_read (connection t) (es @ [Ev_read cid req ip])) t" if "t \<in> tasks ?s" for t
    using that task tasks' Some inv(4) [of t] later [of "requests_read (connection t) es" t]
    by (cases "t = ?task") (simp_all split: if_splits)
  moreover have "conn_ok bst process (requests_read cid' es) (tasks ?s) cid' c'"
    if "connections s cid' = Some c'" for cid' c'
    by (rule conn_ok_mono [OF inv(3) [OF that]]) (auto simp: tasks')
  ultimately show ?thesis
    using q(2) inv(2) Some unfolding server_inv_def by (simp split: if_splits)
qed

lemma pop_inv:
  assumes "server_inv bst process es s" "w < length (workers s)" "workers s ! w = Waiting"
    and "worker_pop bst w s = Some s'"
  shows "server_inv bst process (es @ [Ev_pop w]) s'"
proof -
  let ?q = "request_queue s" and ?tp = "task_template bst"
  note qinv = server_invD(1) [OF assms(1)]
  obtain r q where pop: "wait_and_pop ?tp ?q = (Returns r, q)"
    using assms(4) by (cases "wait_and_pop ?tp ?q"; cases "fst (wait_and_pop ?tp ?q)")
      (auto simp: worker_pop_def)
  have "dequeue ?q = (case r of Some t \<Rightarrow> [t] | None \<Rightarrow> []) @ dequeue q" "queue_invar ?tp q"
    using tsq.contents_take [OF qinv] tsq.invar_take [OF qinv] pop by (simp_all split: option.splits)
  moreover have "s' = s\<lparr>request_queue := q,
      workers := (workers s)[w := (case r of Some t \<Rightarrow> Processing t | None \<Rightarrow> Ended)]\<rparr>"
    using assms(4) pop by (simp add: worker_pop_def split: option.splits)
  ultimately show ?thesis
    using processing_update(1,2) [OF assms(2,3)]
    by (intro server_inv_tasks [OF assms(1)]) (auto simp: tasks_def split: option.splits)
qed

lemma respond_inv:
  assumes "server_inv bst process es s" "w < length (workers s)" "workers s ! w = Processing task"
    and "process (client_ip task) (task_request task) r"
  shows "server_inv bst process (es @ [Ev_respond w r]) (worker_respond w task r s)"
proof -
  let ?s = "worker_respond w task r s"
  note inv = server_invD [OF assms(1)]
  have sub: "tasks s \<subseteq> insert task (tasks ?s)" "tasks ?s \<subseteq> tasks s"
    using processing_update(3,4) [OF assms(2,3)] by (auto simp: tasks_def worker_respond_def)
  have "Processing task \<in> set (workers s)" using assms(2,3) by (metis nth_mem)
  then have task: "task \<in> tasks s" by (simp add: tasks_def processing_def)
  have "conn_ok bst process (requests_read cid es) (tasks ?s) cid c'" if c': "connections ?s cid = Some c'" for cid c'
  proof (cases "connection task = cid")
    case True
    with c' obtain c where "connections s cid = Some c" "c' = send_response r (sequence_id task) c"
      by (auto simp: worker_respond_def)
    with conn_ok_send [OF inv(3) _ True assms(4) sub(1)] inv(4) [OF task] True show ?thesis by simp
  next
    case False
    with c' conn_ok_other [OF inv(3) False sub(1)] show ?thesis by (simp add: worker_respond_def)
  qed
  moreover have "connections ?s cid = None \<Longrightarrow> connections s cid = None" for cid
    by (simp add: worker_respond_def split: if_splits)
  moreover have "request_queue ?s = request_queue s" by (simp add: worker_respond_def)
  ultimately show ?thesis
    using inv(1,2,4) sub(2) unfolding server_inv_def by auto
qed


lemma handle_inv:
  assumes "beast_laws bst" "server_inv bst process es s" and bound: "\<And>cid. length (requests_read cid es) < 2 ^ 64"
    and "handle bst fl process e s = Some s'" "aborted s' = None"
  shows "server_inv bst process (es @ [e]) s'"
proof -
  note inv = server_invD [OF assms(2)]
  note connection = server_inv_connection [OF assms(2)] and same = server_inv_tasks [OF assms(2)]
  show ?thesis
  proof (cases e)
    case (Ev_accept cid ip now)
    with assms accept_inv [OF assms(2), of cid fl ip now] show ?thesis by (simp split: if_splits)
  next
    case (Ev_read cid req ip)
    with assms read_event_inv [OF assms(2), of cid _ req ip] show ?thesis
      by (auto split: option.splits if_splits)
  next
    case (Ev_read_error cid)
    with assms(4) obtain c where c: "connections s cid = Some c" "s' = on_read_event bst cid (Inl ()) None c s"
      by (auto split: option.splits if_splits)
    with Ev_read_error inv(1) conn_ok_close [OF inv(3) [OF c(1)]] show ?thesis
      by (intro connection [where cid = cid]) (simp_all add: on_read_event_def on_read_def tasks_def)
  next
    case (Ev_job cid k)
    with assms(4) obtain c where c: "connections s cid = Some c" "k < length (posted c)"
      "s' = s\<lparr>connections := (connections s)(cid \<mapsto>
         run_job bst (posted c ! k) (c\<lparr>posted := take k (posted c) @ drop (Suc k) (posted c)\<rparr>))\<rparr>"
      by (auto split: option.splits if_splits)
    with Ev_job inv(1) conn_ok_job [OF assms(1) inv(3) [OF c(1)] bound c(2)] show ?thesis
      by (intro connection [where cid = cid]) (simp_all add: tasks_def)
  next
    case (Ev_write cid ec)
    with assms(4) obtain c r where c: "connections s cid = Some c" "in_flight c = Some r"
      "s' = s\<lparr>connections := (connections s)(cid \<mapsto> on_write bst ec r c)\<rparr>"
      by (auto split: option.splits if_splits)
    with Ev_write inv(1) conn_ok_write [OF assms(1) inv(3) [OF c(1)] bound c(2)] show ?thesis
      by (intro connection [where cid = cid]) (simp_all add: tasks_def)
  next
    case (Ev_pop w)
    with assms(4) pop_inv [OF assms(2), of w s'] show ?thesis by (auto split: if_splits worker.splits)
  next
    case (Ev_respond w r)
    with assms(4) respond_inv [OF assms(2), of w _ r] show ?thesis by (auto split: if_splits worker.splits)
  next
    case Ev_queue_stop
    with assms(4) obtain b where "s' = s\<lparr>base := b, request_queue := snd (stop (request_queue s))\<rparr>"
      by (auto simp: stop_queue_def)
    with Ev_queue_stop inv(1) show ?thesis
      by (intro same) (simp_all add: tasks_def queue_invar_stop)
  qed (use assms inv(1) same in \<open>auto simp: tasks_def on_accept_error_def join_workers_def join_self_def
         split: if_splits worker.splits caller.splits\<close>)
qed

lemma server_run_inv_reads:
  assumes "beast_laws bst" "server_run bst fl process es s" "\<forall>cid. length (requests_read cid es) < 2 ^ 64"
    and "aborted s = None"
  shows "server_inv bst process es s"
  using assms(2-4)
proof (induction rule: server_run.induct)
  case (constructed n ms mb mt rate s)
  then show ?case
    by (auto simp: new_request_server_def server_inv_def queue_invar_def requests_read_def tasks_def
        processing_def new_queue_def bytes_accounted_def within_capacity_def split: sum.splits)
next
  case (event es s e s')
  have "length (requests_read cid es) < 2 ^ 64" for cid
    using spec [OF event.prems(1), of cid] by simp
  with event show ?case by (intro handle_inv [OF assms(1)]) (simp_all add: alive_def)
qed

lemma server_run_inv:
  assumes "beast_laws bst" "server_run bst fl process es s" "length es < 2 ^ 64" "aborted s = None"
  shows "server_inv bst process es s"
proof (rule server_run_inv_reads [OF assms(1,2) _ assms(4)])
  show "\<forall>cid. length (requests_read cid es) < 2 ^ 64"
    using requests_read_length assms(3) le_less_trans by blast
qed

section \<open>An example run\<close>

text \<open>Event lists as executions, and a server with two workers that answers two pipelined requests.\<close>

fun run_events ::
    "('rq, 'rs, 'z) beast_scheme \<Rightarrow> (real \<Rightarrow> real) \<Rightarrow> (string \<Rightarrow> 'rq \<Rightarrow> 'rs \<Rightarrow> bool) \<Rightarrow>
     ('rq, 'rs) event list \<Rightarrow> ('rq, 'rs) request_server \<Rightarrow> ('rq, 'rs) request_server option" where
  "run_events bst fl process [] s = Some s"
| "run_events bst fl process (e # es) s =
     (if alive s
      then Option.bind (handle bst fl process e s) (run_events bst fl process es) else None)"

lemma run_events_run:
  "server_run bst fl process es s \<Longrightarrow> run_events bst fl process es' s = Some s' \<Longrightarrow>
   server_run bst fl process (es @ es') s'"
proof (induction es' arbitrary: es s)
  case (Cons e es')
  from Cons.prems(2) obtain s1 where "alive s" "handle bst fl process e s = Some s1"
      "run_events bst fl process es' s1 = Some s'"
    by (auto simp: bind_eq_Some_conv split: if_splits)
  with Cons.IH [of "es @ [e]" s1] Cons.prems(1) show ?case by (simp add: server_run.event)
qed simp

definition plain_beast :: "(string, string \<times> bool) beast" where
  "plain_beast =
     \<lparr>rq_version = (\<lambda>_. 11), rq_body_size = (\<lambda>r. of_nat (length r)), rq_moved_from = (\<lambda>_. []),
      fresh_response = ([], True), set_version = (\<lambda>_ r. r), set_result = (\<lambda>_ r. r),
      set_content_type = (\<lambda>_ r. r), set_body = (\<lambda>b r. (b, snd r)), prepare_payload = (\<lambda>r. r),
      set_keep_alive = (\<lambda>k r. (fst r, k)), keep_alive = snd\<rparr>"

lemma plain_beast_laws: "beast_laws plain_beast"
  by (simp add: beast_laws_def plain_beast_def)

definition echo :: "string \<Rightarrow> string \<Rightarrow> string \<times> bool \<Rightarrow> bool" where
  "echo ip req r \<longleftrightarrow> r = (req @ ''!'', True)"

definition demo_start :: "(string, string \<times> bool) request_server" where
  "demo_start =
     \<lparr>base = fresh_base, connections = Map.empty, request_queue = new_queue 8 100, workers = [Waiting, Waiting],
      ip_rate_limiter = \<lparr>requests = [], max_tokens = 50, refill_rate = 1 / 2,
        cleanup_after_idle_duration = 120, stop_flag = False\<rparr>,
      aborted = None\<rparr>"

definition demo_events :: "(string, string \<times> bool) event list" where
  "demo_events =
     [Ev_base Launch, Ev_accept 0 (Some ''ip'') 7, Ev_read 0 ''a'' (Some ''ip''), Ev_read 0 ''b'' (Some ''ip''),
      Ev_pop 0, Ev_pop 1, Ev_respond 1 (''b!'', True), Ev_job 0 0]"

definition demo_finish :: "(string, string \<times> bool) event list" where
  "demo_finish = [Ev_respond 0 (''a!'', True), Ev_job 0 0, Ev_write 0 False, Ev_write 0 False]"

definition demo_connection :: "(string \<times> bool) http_connection" where
  "demo_connection =
     \<lparr>socket_open = True, reading = True, responses = [1 \<mapsto> (''b!'', True)], writing = False,
      next_sequence_id = 2, next_response_sequence_id = 0, in_flight = None, posted = [], wire = []\<rparr>"

definition demo_server :: "(string, string \<times> bool) request_server" where
  "demo_server =
     \<lparr>base = running_base, connections = [0 \<mapsto> demo_connection], request_queue = new_queue 8 100,
      workers = [Processing \<lparr>connection = 0, task_request = ''a'', client_ip = ''ip'', sequence_id = 0\<rparr>, Waiting],
      ip_rate_limiter = \<lparr>requests = [(''ip'', \<lparr>tokens = 49, last_refill = 7\<rparr>)], max_tokens = 50,
        refill_rate = 1 / 2, cleanup_after_idle_duration = 120, stop_flag = False\<rparr>,
      aborted = None\<rparr>"

definition answered_connection :: "(string \<times> bool) http_connection" where
  "answered_connection =
     demo_connection\<lparr>responses := Map.empty, next_response_sequence_id := 2,
       wire := [(''a!'', True), (''b!'', True)]\<rparr>"

definition answered_server :: "(string, string \<times> bool) request_server" where
  "answered_server = demo_server\<lparr>connections := [0 \<mapsto> answered_connection], workers := [Waiting, Waiting]\<rparr>"

lemmas server_eval =
  base_defs base_examples alive_def on_accept_def consume_def start_def read_def new_http_connection_def
  on_read_event_def on_read_def try_push_back_def pre_addition_check_protocol_def task_template_def
  worker_pop_def wait_and_pop_def wait_predicate_def removal_protocol_def worker_respond_def
  send_response_def run_job_def emplace_response_def write_next_def on_write_def close_def
  new_queue_def plain_beast_def echo_def in_stop_def

lemma demo_started: "server_run plain_beast exact echo [] demo_start"
  by (rule server_run.constructed [of 2 8 100 50 "1 / 2"])
    (simp add: new_request_server_def fresh_base_new new_rate_limiter_def demo_start_def numeral_2_eq_2)

lemma demo_runs: "run_events plain_beast exact echo demo_events demo_start = Some demo_server"
  by (simp add: demo_events_def demo_start_def demo_server_def demo_connection_def server_eval Let_def)

lemma demo_finishes: "run_events plain_beast exact echo demo_finish demo_server = Some answered_server"
  by (simp add: demo_finish_def demo_server_def answered_server_def answered_connection_def
      demo_connection_def server_eval Let_def)

lemmas demo_run = run_events_run [OF demo_started demo_runs, simplified]
lemmas answered_run = run_events_run [OF demo_run demo_finishes]

section \<open>Properties\<close>

lemma run_connection:
  assumes "beast_laws bst" "server_run bst fl process es s" "length es < 2 ^ 64" "aborted s = None"
    and "connections s cid = Some c"
  shows "conn_ok bst process (requests_read cid es) (tasks s) cid c"
  by (rule server_invD(3) [OF server_run_inv [OF assms(1-4)] assms(5)])

lemma overloaded_closes: "beast_laws bst \<Longrightarrow> \<not> keep_alive bst (prepare_payload bst (overloaded_response bst v))"
  unfolding beast_laws_def overloaded_response_def by metis

lemma closing_alive: "closing_inv bst c \<Longrightarrow> Suc k < length (wire c) \<Longrightarrow> keep_alive bst (wire c ! k)"
  unfolding closing_inv_def by (metis Suc_lessD less_irrefl)

text \<open>
  C1: Responses leave in the order of the requests, for every interleaving of reads, workers,
  posted handlers and writes over all connections: the responses on a connection's wire are,
  one for one and in order, answers to the first requests read on that connection (the
  application's response, or the overload response), and all but the last are the
  application's. Pipelined requests answered out of order by the workers are reordered, never
  dropped, duplicated or sent to another connection.
\<close>

theorem responses_in_request_order:
  assumes "beast_laws bst" and "server_run bst fl process es s" and "length es < 2 ^ 64"
    and "aborted s = None" and "connections s cid = Some c"
  shows "length (wire c) \<le> length (requests_read cid es) \<and>
    (\<forall>k < length (wire c). \<exists>r. wire c ! k = prepare_payload bst r
       \<and> answers bst process (requests_read cid es ! k) r
       \<and> (Suc k < length (wire c) \<longrightarrow>
            process (fst (requests_read cid es ! k)) (snd (requests_read cid es ! k)) r))"
proof -
  have inv: "conn_inv bst (answer_at bst process (requests_read cid es)) (length (requests_read cid es)) c"
    using run_connection [OF assms] by (simp add: conn_ok_def)
  note ord = ordered_invD [OF conn_invD(1) [OF inv]] and closing = conn_invD(3) [OF inv]
  have "\<exists>r. wire c ! k = prepare_payload bst r \<and> answers bst process (requests_read cid es ! k) r
      \<and> (Suc k < length (wire c) \<longrightarrow>
            process (fst (requests_read cid es ! k)) (snd (requests_read cid es ! k)) r)"
    if k: "k < length (wire c)" for k
  proof -
    from ord(4) [OF k] obtain r where r: "answers bst process (requests_read cid es ! k) r"
        "wire c ! k = prepare_payload bst r"
      by (auto simp: sent_def answer_at_def)
    have "process (fst (requests_read cid es ! k)) (snd (requests_read cid es ! k)) r" if "Suc k < length (wire c)"
      using closing_alive [OF closing that] r overloaded_closes [OF assms(1)] by (metis answers_def)
    with r show ?thesis by blast
  qed
  with ord(3) show ?thesis by blast
qed

lemmas demo_facts = demo_server_def demo_connection_def answered_server_def answered_connection_def

lemma demo_bounds: "length demo_events < 2 ^ 64" "length (demo_events @ demo_finish) < 2 ^ 64"
  by (simp_all add: demo_events_def demo_finish_def)

lemma answered_state: "aborted answered_server = None" "connections answered_server 0 = Some answered_connection"
  by (simp_all add: demo_facts)

lemma demo_reads:
  "requests_read 0 demo_events = [(''ip'', ''a''), (''ip'', ''b'')]"
  "requests_read 0 (demo_events @ demo_finish) = [(''ip'', ''a''), (''ip'', ''b'')]"
  by (simp_all add: requests_read_def demo_events_def demo_finish_def)

lemma responses_in_request_order_witness:
  "\<exists>r. wire answered_connection ! 0 = prepare_payload plain_beast r \<and> echo ''ip'' ''a'' r"
  using responses_in_request_order [OF plain_beast_laws answered_run demo_bounds(2) answered_state,
      THEN conjunct2, THEN spec [of _ 0]]
  by (simp add: demo_reads) (auto simp: demo_facts)

text \<open>
  C2: No request is lost. At any moment of any run every request read on a connection and not
  yet answered is in one of the places from which the code still answers it: in the request
  queue or in a worker's hands as a task of that connection, posted to the connection's
  strand, or waiting in its \<open>responses\<close> for its turn.
\<close>

theorem no_request_lost:
  assumes "beast_laws bst" and "server_run bst fl process es s" and "length es < 2 ^ 64"
    and "aborted s = None" and "connections s cid = Some c"
    and "length (wire c) \<le> k" and "k < length (requests_read cid es)"
  shows "response_pending bst c (of_nat k) \<or>
    (\<exists>task \<in> set (dequeue (request_queue s)) \<union> processing (workers s).
       connection task = cid \<and> sequence_id task = of_nat k)"
  using run_connection [OF assms(1-5)] assms(6,7) by (simp add: conn_ok_def tasks_def)

lemma no_request_lost_witness:
  "response_pending plain_beast demo_connection (of_nat 0) \<or>
    (\<exists>task \<in> set (dequeue (request_queue demo_server)) \<union> processing (workers demo_server).
       connection task = 0 \<and> sequence_id task = of_nat 0)"
  by (rule no_request_lost [OF plain_beast_laws demo_run demo_bounds(1)])
    (simp_all add: demo_reads, simp_all add: demo_facts)

text \<open>
  When the server has come to rest every request has been answered: in any reachable state
  with an empty queue, no worker processing, and a connection that is still open with no
  handler posted and no write under way, as many responses have been written on the connection
  as requests have been read.
\<close>

theorem quiescent_server_answered_all:
  assumes "beast_laws bst" and "server_run bst fl process es s" and "length es < 2 ^ 64"
    and "aborted s = None" and "connections s cid = Some c"
    and "dequeue (request_queue s) = []" and "processing (workers s) = {}"
    and "posted c = []" and "in_flight c = None" and "socket_open c"
  shows "length (wire c) = length (requests_read cid es)"
  using run_connection [OF assms(1-5)] assms(6-10) by (intro conn_ok_rest [of bst process _ cid]) (simp_all add: tasks_def)

lemma quiescent_server_answered_all_witness:
  "length (wire answered_connection) = length (requests_read 0 (demo_events @ demo_finish))"
  by (rule quiescent_server_answered_all [OF plain_beast_laws answered_run demo_bounds(2)])
    (simp_all add: demo_facts processing_def new_queue_def)

text \<open>
  Nothing follows a response that ends the connection: of the responses on a wire all but
  the last keep the connection alive, and once the last one does not, the socket is closed, no
  write is under way and none will be started.
\<close>

theorem nothing_after_closing_response:
  assumes "beast_laws bst" and "server_run bst fl process es s" and "length es < 2 ^ 64"
    and "aborted s = None" and "connections s cid = Some c"
  shows "list_all (keep_alive bst) (butlast (wire c)) \<and>
    (wire c = [] \<or> keep_alive bst (last (wire c)) \<or>
       (\<not> socket_open c \<and> in_flight c = None \<and> in_flight (run_job bst j c) = None))"
proof -
  have inv: "closing_inv bst c"
    using run_connection [OF assms] by (simp add: conn_ok_def conn_inv_def)
  have "list_all (keep_alive bst) (butlast (wire c))"
    using closing_alive [OF inv] by (auto simp: list_all_length nth_butlast)
  moreover have "\<not> socket_open c \<and> in_flight c = None \<and> writing c"
    if "wire c \<noteq> []" "\<not> keep_alive bst (last (wire c))"
  proof -
    have "length (wire c) - 1 < length (wire c)" "\<not> keep_alive bst (wire c ! (length (wire c) - 1))"
      using that by (simp_all add: last_conv_nth)
    with inv show ?thesis unfolding closing_inv_def by blast
  qed
  moreover have "in_flight (run_job bst j c) = in_flight c" if "writing c"
    using that by (simp add: run_job_def)
  ultimately show ?thesis by auto
qed

lemma nothing_after_closing_response_witness:
  "list_all snd (butlast (wire answered_connection))"
  using nothing_after_closing_response [OF plain_beast_laws answered_run demo_bounds(2), of 0 answered_connection]
  by (simp add: demo_facts plain_beast_def)

text \<open>
  The backlog is bounded: in every reachable state the queued requests respect the
  configured number and the configured total of body bytes (0 meaning no limit).
\<close>

theorem pending_requests_bounded:
  assumes "beast_laws bst" and "server_run bst fl process es s" and "length es < 2 ^ 64"
    and "aborted s = None"
  shows "(maximum_size (request_queue s) = 0 \<or>
      length (dequeue (request_queue s)) \<le> unat (maximum_size (request_queue s))) \<and>
    (maximum_bytes (request_queue s) = 0 \<or>
      (\<Sum>task \<leftarrow> dequeue (request_queue s). unat (rq_body_size bst (task_request task)))
        \<le> unat (maximum_bytes (request_queue s)))"
  using server_invD(1) [OF server_run_inv [OF assms]]
  by (auto simp: queue_invar_def within_capacity_def counts_bytes_def queued_bytes_def task_template_def)

lemma pending_requests_bounded_witness:
  "length (dequeue (request_queue demo_server)) \<le> 8"
  using pending_requests_bounded [OF plain_beast_laws demo_run demo_bounds(1)]
  by (simp add: demo_facts new_queue_def)


section \<open>Accepting connections\<close>

fun limiter_call_of :: "('rq, 'rs) event \<Rightarrow> string limiter_call list" where
  "limiter_call_of (Ev_accept cid (Some ip) now) = [Consume now ip 1]"
| "limiter_call_of (Ev_cleanup now) = [Cleanup now]"
| "limiter_call_of _ = []"

definition limiter_history :: "('rq, 'rs) event list \<Rightarrow> string limiter_call list" where
  "limiter_history es = concat (map limiter_call_of es)"

text \<open>The addresses whose connections were accepted, in order.\<close>

definition accepted :: "(real \<Rightarrow> real) \<Rightarrow> ('rq, 'rs) event list \<Rightarrow> rate_limiter \<Rightarrow> string list" where
  "accepted fl es limiter =
     map fst (fst (run_limiter (consume fl) (cleanup fl) (limiter_history es) (limiter\<lparr>requests := []\<rparr>)))"

lemma run_limiter_append:
  "run_limiter request sweep (cs @ ds) s =
     (let (a, s1) = run_limiter request sweep cs s; (b, s2) = run_limiter request sweep ds s1 in (a @ b, s2))"
proof (induction cs arbitrary: s)
  case (Cons c cs)
  then show ?case by (cases c) (simp_all add: split_beta Let_def)
qed simp

lemma run_limiter_params:
  "\<exists>r. snd (run_limiter (consume fl) (cleanup fl) cs rl) = rl\<lparr>requests := r\<rparr>"
proof (induction cs arbitrary: rl)
  case (Cons call cs)
  show ?case
  proof (cases call)
    case (Consume t i x)
    have "snd (consume fl t i x rl) = rl\<lparr>requests := requests (snd (consume fl t i x rl))\<rparr>"
      by (simp add: consume_def Let_def split: option.splits)
    then obtain r where "snd (consume fl t i x rl) = rl\<lparr>requests := r\<rparr>" by blast
    with Cons [of "rl\<lparr>requests := r\<rparr>"] Consume show ?thesis by (simp add: split_beta)
  next
    case (Cleanup t)
    with Cons [of "cleanup fl t rl"] show ?thesis by (simp add: cleanup_def)
  qed
next
  case (Nil rl)
  show ?case by (rule exI [of _ "requests rl"]) simp
qed

lemma limiter_history_snoc [simp]: "limiter_history (es @ [e]) = limiter_history es @ limiter_call_of e"
  by (simp add: limiter_history_def)

lemma run_limiter_costs:
  "list_all (\<lambda>c. case c of Consume t i x \<Rightarrow> x = 1 | Cleanup t \<Rightarrow> True) cs \<Longrightarrow>
   admitted_cost i (fst (run_limiter request sweep cs s)) =
     real (count_list (map fst (fst (run_limiter request sweep cs s))) i)"
proof (induction cs arbitrary: s)
  case (Cons c cs)
  then show ?case by (cases c) (auto simp: split_beta admitted_cost_def)
qed (simp add: admitted_cost_def)

lemma limiter_history_costs:
  "list_all (\<lambda>c. case c of Consume t i x \<Rightarrow> x = 1 | Cleanup t \<Rightarrow> True) (limiter_history es)"
proof (induction es)
  case (Cons e es)
  then show ?case by (cases e rule: limiter_call_of.cases) (simp_all add: limiter_history_def)
qed (simp add: limiter_history_def)

lemma server_run_limiter:
  assumes "server_run bst fl process es s"
  shows "\<exists>rl0. requests rl0 = [] \<and> 0 < max_tokens rl0 \<and> 0 < refill_rate rl0
    \<and> ip_rate_limiter s = snd (run_limiter (consume fl) (cleanup fl) (limiter_history es) rl0)
    \<and> finite (dom (connections s))
    \<and> card (dom (connections s)) = length (fst (run_limiter (consume fl) (cleanup fl) (limiter_history es) rl0))"
  using assms
proof (induction rule: server_run.induct)
  case (constructed n ms mb mt rate s)
  then show ?case
    by (auto simp: new_request_server_def new_rate_limiter_def limiter_history_def split: sum.splits if_splits)
next
  case (event es s e s')
  then obtain rl0 where rl0: "requests rl0 = []" "0 < max_tokens rl0" "0 < refill_rate rl0"
    "ip_rate_limiter s = snd (run_limiter (consume fl) (cleanup fl) (limiter_history es) rl0)"
    "finite (dom (connections s))"
    "card (dom (connections s)) = length (fst (run_limiter (consume fl) (cleanup fl) (limiter_history es) rl0))"
    by blast
  have dom_map: "dom ((connections s)(cid := map_option f (connections s cid))) = dom (connections s)" for cid f
    by (auto split: if_splits)
  show ?case
  proof (cases "\<exists>cid ip now. e = Ev_accept cid (Some ip) now")
    case True
    then obtain cid ip now where e: "e = Ev_accept cid (Some ip) now" by blast
    with event.hyps(3) have "connections s cid = None" "s' = on_accept fl cid (Some ip) now s"
      by (simp_all split: if_splits)
    moreover obtain ok rl where "consume fl now ip 1 (ip_rate_limiter s) = (ok, rl)" by fastforce
    ultimately show ?thesis
      using rl0 by (intro exI [of _ rl0])
        (auto simp: on_accept_def e run_limiter_append split_beta domIff card_insert_if)
  next
    case False
    then have "dom (connections s') = dom (connections s) \<and>
        ip_rate_limiter s' = snd (run_limiter (consume fl) (cleanup fl) (limiter_call_of e) (ip_rate_limiter s)) \<and>
        fst (run_limiter (consume fl) (cleanup fl) (limiter_call_of e) (ip_rate_limiter s)) = []"
      using event.hyps(3)
      by (cases e rule: limiter_call_of.cases)
        (auto simp: on_accept_def on_accept_error_def on_read_event_def worker_pop_def worker_respond_def
          stop_queue_def join_workers_def join_self_def dom_map split_beta Let_def simp del: dom_fun_upd
          split: if_splits option.splits worker.splits caller.splits wait_result.splits)
    with rl0 show ?thesis
      by (intro exI [of _ rl0]) (simp add: run_limiter_append split_beta)
  qed
qed

text \<open>
  C28: Accepting is rate limited per address: the connections the server holds are those whose
  address the limiter admitted, and over any stretch of time no address is admitted more often
  than \<open>max_tokens\<close> plus \<open>refill_rate\<close> times the seconds elapsed, cleanups included, in
  exact arithmetic and for parameters under which idle buckets refill before they are swept
  (the defaults are such).
\<close>

theorem connections_rate_limited:
  assumes "server_run bst exact process es s" and "refills_while_idle (ip_rate_limiter s)"
    and "sorted (now # map call_time (limiter_history es))"
    and "list_all (\<lambda>c. call_time c \<le> final) (limiter_history es)" and "now \<le> final"
  shows "card (dom (connections s)) = length (accepted exact es (ip_rate_limiter s)) \<and>
    real (count_list (accepted exact es (ip_rate_limiter s)) ip) \<le>
      max_tokens (ip_rate_limiter s) + seconds (final - now) * refill_rate (ip_rate_limiter s)"
proof -
  obtain rl0 where rl0: "requests rl0 = []" "0 < max_tokens rl0" "0 < refill_rate rl0"
    "ip_rate_limiter s = snd (run_limiter (consume exact) (cleanup exact) (limiter_history es) rl0)"
    "card (dom (connections s)) = length (fst (run_limiter (consume exact) (cleanup exact) (limiter_history es) rl0))"
    using server_run_limiter [OF assms(1)] by blast
  let ?run = "run_limiter (consume exact) (cleanup exact) (limiter_history es) rl0"
  obtain r where s: "ip_rate_limiter s = rl0\<lparr>requests := r\<rparr>"
    using run_limiter_params [of exact "limiter_history es" rl0] rl0(4) by metis
  have start: "(ip_rate_limiter s)\<lparr>requests := []\<rparr> = rl0" using s rl0(1) by simp
  have inv: "limiter_inv now rl0" using rl0(1-3) by (simp add: limiter_inv_def)
  have "refills_while_idle rl0" using assms(2) s by (simp add: refills_while_idle_def)
  then have "admitted_cost ip (fst ?run) \<le> available now ip rl0 + seconds (final - now) * refill_rate rl0"
    using inv assms(3-5) by (intro rl.admission_bound) simp_all
  then have "real (count_list (map fst (fst ?run)) ip) \<le> max_tokens rl0 + seconds (final - now) * refill_rate rl0"
    using available_bounds(2) [OF inv, of ip] unfolding run_limiter_costs [OF limiter_history_costs]
    by linarith
  then show ?thesis unfolding accepted_def start using rl0(5) s by simp
qed

lemma connections_rate_limited_witness:
  "card (dom (connections demo_server)) = 1"
  using connections_rate_limited [OF demo_run, of 0 10]
  by (simp add: demo_server_def refills_while_idle_def limiter_history_def demo_events_def)


section \<open>Order of service\<close>

text \<open>The task an event puts into the queue, and the one it gives to a worker.\<close>

fun queued_by ::
    "('rq, 'rs, 'z) beast_scheme \<Rightarrow> ('rq, 'rs) event \<Rightarrow> ('rq, 'rs) request_server \<Rightarrow> 'rq request_task list" where
  "queued_by bst (Ev_read cid req (Some ip)) s =
     (case connections s cid of
        Some c \<Rightarrow>
          let task = \<lparr>connection = cid, task_request = req, client_ip = ip, sequence_id = next_sequence_id c\<rparr>
          in if fst (try_push_back (task_template bst) task (request_queue s)) then [task] else []
      | None \<Rightarrow> [])"
| "queued_by bst _ s = []"

fun started_by :: "('rq, 'rs) event \<Rightarrow> ('rq, 'rs) request_server \<Rightarrow> 'rq request_task list" where
  "started_by (Ev_pop w) s' = (case workers s' ! w of Processing task \<Rightarrow> [task] | _ \<Rightarrow> [])"
| "started_by _ s' = []"

text \<open>The tasks queued and the tasks started in the course of events.\<close>

fun service_log ::
    "('rq, 'rs, 'z) beast_scheme \<Rightarrow> (real \<Rightarrow> real) \<Rightarrow> (string \<Rightarrow> 'rq \<Rightarrow> 'rs \<Rightarrow> bool) \<Rightarrow>
     ('rq, 'rs) event list \<Rightarrow> ('rq, 'rs) request_server \<Rightarrow> 'rq request_task list \<times> 'rq request_task list" where
  "service_log bst fl process [] s = ([], [])"
| "service_log bst fl process (e # es) s =
     (case handle bst fl process e s of
        None \<Rightarrow> ([], [])
      | Some s' \<Rightarrow>
          let (queued, started) = service_log bst fl process es s'
          in (queued_by bst e s @ queued, started_by e s' @ started))"

lemma service_step:
  assumes "handle bst fl process e s = Some s'"
  shows "dequeue (request_queue s) @ queued_by bst e s = started_by e s' @ dequeue (request_queue s')"
proof (cases e)
  case (Ev_read cid req ip)
  with assms obtain c where c: "connections s cid = Some c" "s' = on_read_event bst cid (Inr req) ip c s"
    by (auto split: option.splits if_splits)
  show ?thesis
  proof (cases ip)
    case (Some addr)
    with Ev_read c show ?thesis
      by (simp add: on_read_event_def on_read_def Let_def split_beta dequeue_try_push_back)
  qed (use Ev_read c in \<open>simp add: on_read_event_def on_read_def Let_def\<close>)
next
  case (Ev_pop w)
  with assms show ?thesis
    by (auto simp: worker_pop_def wait_and_pop_def split: if_splits worker.splits list.splits)
qed (use assms in \<open>auto simp: on_accept_def on_accept_error_def on_read_event_def on_read_def worker_respond_def
    stop_queue_def join_workers_def join_self_def Let_def split_beta split: if_splits option.splits worker.splits caller.splits\<close>)

text \<open>
  C20: Requests are served in the order in which they were queued, over all connections and
  workers: in any run the tasks handed to the workers are the first of the tasks that were
  accepted into the queue, in the same order, and the rest is what the queue holds.
\<close>

theorem requests_started_in_order:
  assumes "run_events bst fl process es s = Some s'" and "dequeue (request_queue s) = []"
  shows "fst (service_log bst fl process es s) =
    snd (service_log bst fl process es s) @ dequeue (request_queue s')"
proof -
  have "dequeue (request_queue s) @ fst (service_log bst fl process es s) =
      snd (service_log bst fl process es s) @ dequeue (request_queue s')"
    using assms(1)
  proof (induction es arbitrary: s)
    case (Cons e es)
    then obtain s1 where s1: "handle bst fl process e s = Some s1" "run_events bst fl process es s1 = Some s'"
      by (auto simp: bind_eq_Some_conv split: if_splits)
    from Cons.IH [OF s1(2)] service_step [OF s1(1)] s1(1) show ?case
      by (simp add: split_beta) (metis append.assoc)
  qed simp
  with assms(2) show ?thesis by simp
qed

lemma requests_started_in_order_witness:
  "fst (service_log plain_beast exact echo demo_events demo_start) =
   snd (service_log plain_beast exact echo demo_events demo_start)"
  using requests_started_in_order [OF demo_runs]
  by (simp add: demo_start_def demo_server_def new_queue_def)

section \<open>Overload\<close>

lemma run_job_reading [simp]: "reading (run_job bst j c) = reading c"
  by (auto simp: run_job_def write_next_def emplace_response_def Let_def split_beta split: option.splits)

lemma on_write_reading [simp]: "reading (on_write bst ec r c) = reading c"
  by (auto simp: on_write_def write_next_def close_def Let_def split: option.splits)

lemma not_reading_stays:
  assumes "handle bst fl process e s = Some s'" "connections s cid = Some c" "\<not> reading c"
  shows "read_by cid e = [] \<and> (\<exists>c'. connections s' cid = Some c' \<and> \<not> reading c')"
proof (cases e)
  case (Ev_read i req ip)
  with assms have "i \<noteq> cid" by auto
  with Ev_read assms show ?thesis
    by (cases ip) (auto simp: on_read_event_def split_beta split: option.splits if_splits)
next
  case (Ev_read_error i)
  with assms have "i \<noteq> cid" by auto
  with Ev_read_error assms show ?thesis
    by (auto simp: on_read_event_def split_beta split: option.splits if_splits)
qed (use assms in \<open>auto simp: on_accept_def on_accept_error_def worker_pop_def worker_respond_def
    send_response_def stop_queue_def join_workers_def join_self_def Let_def split_beta
    split: if_splits option.splits worker.splits caller.splits wait_result.splits\<close>)

lemma not_reading_run:
  "run_events bst fl process es s = Some s' \<Longrightarrow> connections s cid = Some c \<Longrightarrow> \<not> reading c \<Longrightarrow>
   requests_read cid es = []"
proof (induction es arbitrary: s c)
  case (Cons e es)
  from Cons.prems(1) obtain s1 where s1: "handle bst fl process e s = Some s1" "run_events bst fl process es s1 = Some s'"
    by (auto simp: bind_eq_Some_conv split: if_splits)
  from not_reading_stays [OF s1(1) Cons.prems(2,3)] Cons.IH [OF s1(2)] show ?case
    by (auto simp: requests_read_def)
qed (simp add: requests_read_def)

text \<open>
  C22: Back pressure: once the queue has refused a request of a connection, the connection gets
  the overload response posted for that request and reads nothing more, whatever happens
  afterwards.
\<close>

theorem overload_stops_reading:
  assumes "connections s cid = Some c"
    and "handle bst fl process (Ev_read cid req (Some ip)) s = Some s1"
    and "dequeue (request_queue s1) = dequeue (request_queue s)"
    and "run_events bst fl process es s1 = Some s'"
  shows "requests_read cid es = [] \<and>
    (\<exists>c1. connections s1 cid = Some c1 \<and>
       posted c1 = posted c @ [Reject (next_sequence_id c) (rq_version bst (rq_moved_from bst req))])"
proof -
  let ?task = "\<lparr>connection = cid, task_request = req, client_ip = ip, sequence_id = next_sequence_id c\<rparr>"
  have s1: "s1 = on_read_event bst cid (Inr req) (Some ip) c s"
    using assms(1,2) by (simp split: if_splits)
  have refused: "\<not> fst (try_push_back (task_template bst) ?task (request_queue s))"
    using assms(3) dequeue_try_push_back [of "task_template bst" ?task "request_queue s"]
    by (auto simp: s1 on_read_event_def on_read_def Let_def split_beta)
  then have c1: "connections s1 cid =
      Some (reject_overloaded (next_sequence_id c) (rq_version bst (rq_moved_from bst req)) (numbered c))"
    by (simp add: s1 on_read_event_def on_read_def Let_def split_beta)
  from not_reading_run [OF assms(4) c1] c1 show ?thesis by (simp add: reject_overloaded_def)
qed

definition full_server :: "(string, string \<times> bool) request_server" where
  "full_server = demo_server\<lparr>request_queue := (new_queue 1 100)\<lparr>
     dequeue := [\<lparr>connection = 0, task_request = ''x'', client_ip = ''ip'', sequence_id = 9\<rparr>],
     current_bytes := 1\<rparr>\<rparr>"

lemma overload_stops_reading_witness:
  "\<exists>c1. connections (the (handle plain_beast exact echo (Ev_read 0 ''c'' (Some ''ip'')) full_server)) 0 = Some c1
     \<and> posted c1 = [Reject 2 11]"
proof -
  let ?h = "handle plain_beast exact echo (Ev_read 0 ''c'' (Some ''ip'')) full_server"
  have "connections full_server 0 = Some demo_connection" by (simp add: full_server_def demo_server_def)
  moreover have "?h = Some (the ?h)"
    by (simp add: full_server_def demo_server_def demo_connection_def base_defs base_examples)
  moreover have "dequeue (request_queue (the ?h)) = dequeue (request_queue full_server)"
    by (simp add: full_server_def demo_server_def demo_connection_def server_eval Let_def)
  ultimately show ?thesis
    using overload_stops_reading [of full_server 0 demo_connection plain_beast exact echo "''c''" "''ip''" "the ?h" "[]"]
    by (simp add: demo_connection_def plain_beast_def)
qed

end
