(* ===== verification/Request_Shutdown.thy ===== *)
theory Request_Shutdown
  imports Request_Server
begin

text \<open>
  Stopping the request server (\<open>request_server_base::stop\<close> on top of \<open>server_base::stop\<close>):
  the server as a \<open>stoppable_server\<close>, the order of the stop sequence, that the workers end, and
  that \<open>stop\<close> can always run to its return.
\<close>

section \<open>Stopping\<close>

text \<open>
  The work left for the workers once the context is stopped, when nothing new is queued: two
  steps for a queued task, one for a task in a worker's hands, one for a worker to end.
\<close>

fun worker_load :: "'rq worker \<Rightarrow> nat" where
  "worker_load Waiting = 1"
| "worker_load (Processing task) = 2"
| "worker_load Ended = 0"

definition remaining_work :: "('rq, 'rs) request_server \<Rightarrow> nat" where
  "remaining_work s = 2 * length (dequeue (request_queue s)) + sum_list (map worker_load (workers s))"

lemma sum_list_update_nat:
  fixes f :: "'b \<Rightarrow> nat"
  shows "w < length ws \<Longrightarrow> sum_list (map f (ws[w := x])) + f (ws ! w) = sum_list (map f ws) + f x"
  by (induction ws arbitrary: w) (auto split: nat.splits)

lemma request_base_step:
  assumes "handle bst fl process e s = Some s'"
  shows "case request_base_event e of None \<Rightarrow> base s' = base s
    | Some be \<Rightarrow> base_step be (base s) = Some (base s')"
  using assms
  by (cases e rule: request_base_event.cases)
    (auto simp: on_accept_def on_accept_error_def on_read_event_def worker_pop_def worker_respond_def
      stop_queue_def join_workers_def join_self_def start_accept_async_def split_beta Let_def
      split: if_splits option.splits worker.splits caller.splits wait_result.splits)

text \<open>
  The server uses its queue through three members only: the connections' \<open>try_push_back\<close>, the
  workers' \<open>wait_and_pop\<close> and \<open>stop\<close>.
\<close>

fun server_call :: "'a queue_call \<Rightarrow> bool" where
  "server_call (Try_push_back x) = True"
| "server_call Wait_and_pop = True"
| "server_call Stop = True"
| "server_call _ = False"

lemma on_read_queue:
  "\<exists>cs. list_all server_call cs \<and>
     snd (snd (on_read bst cid result ip c q)) = run_calls (task_template bst) cs q"
proof (cases "\<exists>req addr. result = Inr req \<and> ip = Some addr")
  case True
  then obtain req addr where "result = Inr req" "ip = Some addr" by blast
  then show ?thesis
    by (intro exI [of _ "[Try_push_back \<lparr>connection = cid, task_request = req, client_ip = addr,
          sequence_id = next_sequence_id c\<rparr>]"])
      (simp add: on_read_def Let_def split_beta)
next
  case False
  then show ?thesis
    by (intro exI [of _ "[]"]) (auto simp: on_read_def Let_def split: sum.splits option.splits)
qed

lemma handle_queue_calls:
  assumes "handle bst fl process e s = Some s'"
  shows "\<exists>cs. list_all server_call cs \<and> request_queue s' = run_calls (task_template bst) cs (request_queue s)"
proof -
  have none: "\<exists>cs. list_all server_call cs \<and> q = run_calls tp cs q" for tp and q :: "'a request_task thread_safe_queue"
    by (intro exI [of _ "[]"]) simp
  show ?thesis
  proof (cases e)
    case (Ev_read cid req ip)
    with assms obtain c where "s' = on_read_event bst cid (Inr req) ip c s"
      by (auto split: option.splits if_splits)
    then show ?thesis using on_read_queue [of bst cid "Inr req" ip c "request_queue s"]
      by (simp add: on_read_event_def split_beta)
  next
    case (Ev_read_error cid)
    with assms obtain c where "s' = on_read_event bst cid (Inl ()) None c s"
      by (auto split: option.splits if_splits)
    then show ?thesis using on_read_queue [of bst cid "Inl ()" None c "request_queue s"]
      by (simp add: on_read_event_def split_beta)
  next
    case (Ev_pop w)
    with assms have "request_queue s' = run_calls (task_template bst) [Wait_and_pop] (request_queue s)"
      by (auto simp: worker_pop_def split: if_splits worker.splits prod.splits wait_result.splits option.splits)
    then show ?thesis by (intro exI [of _ "[Wait_and_pop]"]) simp
  next
    case Ev_queue_stop
    with assms have "request_queue s' = run_calls (task_template bst) [Stop] (request_queue s)"
      by (auto simp: stop_queue_def split_beta)
    then show ?thesis by (intro exI [of _ "[Stop]"]) simp
  qed (use assms in \<open>auto simp: on_accept_def on_accept_error_def worker_respond_def
      join_workers_def join_self_def Let_def split_beta intro!: none split: if_splits option.splits worker.splits caller.splits\<close>)
qed

lemma handle_keeps_stopped:
  "handle bst fl process e s = Some s' \<Longrightarrow> stopped (request_queue s) \<Longrightarrow> stopped (request_queue s')"
  using handle_queue_calls run_calls_keeps_stopped by metis

interpretation rqs: stoppable_server base "server_run bst fl process" "handle bst fl process"
    request_base_event "\<lambda>s. stopped (request_queue s)"
  for bst fl process
proof
  show "server_run bst fl process [] s \<Longrightarrow> new_server_base None = Inr (base s)" for s
    by (erule server_run.cases) (auto simp: new_request_server_def split: sum.splits)
  show "server_run bst fl process (es @ [e]) s' \<Longrightarrow>
      \<exists>s. server_run bst fl process es s \<and> failure (base s) = None \<and> handle bst fl process e s = Some s'"
    for es e s'
    by (erule server_run.cases) (auto simp: alive_def)
  show "handle bst fl process e s = Some s' \<Longrightarrow>
      (case request_base_event e of None \<Rightarrow> base s' = base s | Some be \<Rightarrow> base_step be (base s) = Some (base s'))"
    for e s s'
    by (rule request_base_step)
  show "stopped (request_queue s')"
    if "handle bst fl process e s = Some s'" "request_base_event e = Some Queue_stops" for e s s'
  proof -
    have "e = Ev_queue_stop \<or> e = Ev_base Queue_stops"
      using that(2) by (cases e rule: request_base_event.cases) simp_all
    with that(1) show ?thesis by (auto simp: stop_queue_def)
  qed
  show "handle bst fl process e s = Some s' \<Longrightarrow> stopped (request_queue s) \<Longrightarrow> stopped (request_queue s')"
    for e s s'
    by (rule handle_keeps_stopped)
qed

text \<open>The events of the workers' shutdown.\<close>

fun worker_event :: "('rq, 'rs) event \<Rightarrow> bool" where
  "worker_event (Ev_pop w) = True"
| "worker_event (Ev_respond w r) = True"
| "worker_event _ = False"

lemma worker_can_step:
  assumes "stopped (request_queue s)" "\<And>ip req. \<exists>r. process ip req r"
    and "w < length (workers s)" "workers s ! w \<noteq> Ended" "\<not> in_stop w (base s)"
  shows "\<exists>e s'. worker_event e \<and> handle bst fl process e s = Some s'"
proof (cases "workers s ! w")
  case Waiting
  have "worker_pop bst w s \<noteq> None"
    using assms(1) by (simp add: worker_pop_def wait_and_pop_def wait_predicate_def split: list.splits)
  with assms(3) Waiting have "handle bst fl process (Ev_pop w) s \<noteq> None" by simp
  moreover have "worker_event (Ev_pop w)" by simp
  ultimately show ?thesis by blast
next
  case (Processing task)
  obtain r where "process (client_ip task) (task_request task) r" using assms(2) by blast
  with assms(3,5) Processing have "handle bst fl process (Ev_respond w r) s \<noteq> None" by simp
  moreover have "worker_event (Ev_respond w r)" by simp
  ultimately show ?thesis by blast
qed (use assms(4) in simp)

lemma worker_event_work:
  assumes "handle bst fl process e s = Some s'" "worker_event e"
  shows "remaining_work s' < remaining_work s"
proof (cases e)
  case (Ev_pop w)
  with assms(1) have w: "w < length (workers s)" "workers s ! w = Waiting" "worker_pop bst w s = Some s'"
    by (auto split: if_splits worker.splits)
  then show ?thesis
    using sum_list_update_nat [OF w(1), of worker_load Ended] sum_list_update_nat [OF w(1), of worker_load "Processing _"]
    by (auto simp: worker_pop_def wait_and_pop_def remaining_work_def split: if_splits list.splits)
next
  case (Ev_respond w r)
  with assms(1) obtain task where w: "w < length (workers s)" "workers s ! w = Processing task"
      "s' = worker_respond w task r s"
    by (auto split: if_splits worker.splits)
  then show ?thesis
    using sum_list_update_nat [OF w(1), of worker_load Waiting]
    by (simp add: worker_respond_def remaining_work_def)
qed (use assms(2) in simp_all)

lemma shutdown_step:
  assumes "\<not> io_running (base s)" "handle bst fl process e s = Some s'"
  shows "remaining_work s' \<le> remaining_work s \<and> (worker_event e \<longrightarrow> remaining_work s' < remaining_work s)"
proof (cases "worker_event e")
  case True
  with worker_event_work [OF assms(2)] show ?thesis by simp
next
  case False
  with assms show ?thesis
    by (cases e) (auto simp: remaining_work_def stop_queue_def join_workers_def join_self_def
       split: if_splits option.splits worker.splits caller.splits)
qed

text \<open>
  \<open>stop\<close> terminates. Once the queue is stopped, the joins of \<open>request_server_base::stop\<close>
  cannot hang as long as the application answers and no worker is itself in \<open>stop\<close>: unless all workers have ended some worker
  can take a step; every event leaves the server in that or a later phase and does not increase
  the remaining work, a natural number, and every step of a worker reduces it.
\<close>

theorem stop_joins_workers:
  assumes "server_run bst fl process es s" and "alive s" and "Queue_stopped \<le> stop_progress (base s)"
    and "\<And>ip req. \<exists>r. process ip req r" and "\<And>w. \<not> in_stop w (base s)"
  shows "(list_all (\<lambda>w. w = Ended) (workers s) \<or> (\<exists>e s'. worker_event e \<and> handle bst fl process e s = Some s')) \<and>
    (handle bst fl process e s = Some s1 \<longrightarrow>
       Queue_stopped \<le> stop_progress (base s1) \<and> remaining_work s1 \<le> remaining_work s
       \<and> (worker_event e \<longrightarrow> remaining_work s1 < remaining_work s))"
proof -
  have "stopped (request_queue s)" by (rule rqs.queue_stopped_progress [OF assms(1,3)])
  then have "list_all (\<lambda>w. w = Ended) (workers s) \<or> (\<exists>e s'. worker_event e \<and> handle bst fl process e s = Some s')"
    using worker_can_step [of s process, OF _ assms(4) _ _ assms(5)] unfolding list_all_length by blast
  moreover have "Queue_stopped \<le> stop_progress (base s1)" if "handle bst fl process e s = Some s1"
    using rqs.progress_mono [OF assms(1) that] assms(3) by (rule order_trans [rotated])
  moreover have "\<not> io_running (base s)"
    using rqs.no_io_after_base_stop [OF assms(1)] assms(2,3) by (simp add: alive_def progress_order)
  ultimately show ?thesis using shutdown_step by blast
qed

definition stopping_server :: "(string, string \<times> bool) request_server" where
  "stopping_server = demo_server\<lparr>
     base := running_base\<lparr>context_stopped := True, context_thread := No_thread, stopping := True,
       stop_progress := Queue_stopped\<rparr>,
     request_queue := (new_queue 8 100)\<lparr>stopped := True\<rparr>\<rparr>"

definition stop_events :: "(string, string \<times> bool) event list" where
  "stop_events =
     [Ev_base (Try_stop Application_thread), Ev_base Stop_context, Ev_base Run_returns, Ev_base Join_returns,
      Ev_base Base_stop_returns, Ev_queue_stop]"

lemma stopping_run: "server_run plain_beast exact echo (demo_events @ stop_events) stopping_server"
  by (rule run_events_run [OF demo_run])
    (simp add: stop_events_def stopping_server_def demo_server_def stop_queue_def stop_def new_queue_def
      base_defs base_examples alive_def)

lemma stop_joins_workers_witness:
  "\<exists>e s'. worker_event e \<and> handle plain_beast exact echo e stopping_server = Some s'"
proof -
  have "\<exists>r. echo ip req r" for ip req by (simp add: echo_def)
  from stop_joins_workers [OF stopping_run _ _ this] show ?thesis
    by (simp add: stopping_server_def demo_server_def progress_order alive_def base_examples in_stop_def)
qed

section \<open>The stop sequence\<close>

lemma Ended_stays:
  assumes "handle bst fl process e s = Some s'" "list_all (\<lambda>w. w = Ended) (workers s)"
  shows "workers s' = workers s"
proof -
  have "workers s ! w = Ended" if "w < length (workers s)" for w using that assms(2) by (simp add: list_all_length)
  with assms(1) show ?thesis
    by (cases e) (auto simp: on_accept_def on_accept_error_def on_read_event_def stop_queue_def join_workers_def join_self_def
        split_beta Let_def split: if_splits option.splits caller.splits)
qed

lemma handle_returned:
  "handle bst fl process e s = Some s' \<Longrightarrow> stop_progress (base s') = Stop_returned \<Longrightarrow>
   e = Ev_joined \<or> stop_progress (base s) = Stop_returned"
  by (cases e) (auto simp: on_accept_def on_accept_error_def on_read_event_def stop_queue_def worker_pop_def
      worker_respond_def join_self_def base_defs split_beta
      elim!: shared_event.elims split: if_splits option.splits worker.splits wait_result.splits caller.splits)

lemma returned_joined:
  "server_run bst fl process es s \<Longrightarrow> stop_progress (base s) = Stop_returned \<Longrightarrow>
   list_all (\<lambda>w. w = Ended) (workers s)"
proof (induction rule: server_run.induct)
  case (constructed n ms mb mt rate s)
  then show ?case by (auto simp: new_request_server_def new_server_base_def split: sum.splits)
next
  case (event es s e s')
  show ?case
  proof (cases "e = Ev_joined")
    case True
    with event.hyps(3) show ?thesis by (auto simp: join_workers_def join_self_def split: if_splits)
  next
    case False
    with handle_returned [OF event.hyps(3) event.prems] event.IH Ended_stays [OF event.hyps(3)]
    show ?thesis by metis
  qed
qed

text \<open>
  C12: Stopping happens once and in order, whichever threads call \<open>try_stop\<close> and however often:
  the steps of \<open>stop\<close> that have happened are the first ones of the sequence stop the context,
  join its thread, stop the queue, join the workers. When \<open>server_base::stop\<close> has returned no
  handler runs any more; from the third step on the queue is stopped; and when \<open>stop\<close> has
  returned every worker has ended.
\<close>

theorem stop_once_and_in_order:
  assumes "server_run bst fl process es s" and "alive s"
  shows "filter (\<lambda>e. e \<in> set stop_sequence) (List.map_filter request_base_event es) =
      take (progress_rank (stop_progress (base s)) - 1) stop_sequence \<and>
    (Base_stopped \<le> stop_progress (base s) \<longrightarrow> \<not> io_running (base s)) \<and>
    (Queue_stopped \<le> stop_progress (base s) \<longrightarrow> stopped (request_queue s)) \<and>
    (stop_progress (base s) = Stop_returned \<longrightarrow> list_all (\<lambda>w. w = Ended) (workers s))"
  using rqs.stop_once_in_order [OF assms(1)] rqs.no_io_after_base_stop [OF assms(1)]
    rqs.queue_stopped_progress [OF assms(1)] returned_joined [OF assms(1)] assms(2)
  by (simp add: alive_def)

lemma stop_once_and_in_order_witness:
  "\<not> io_running (base stopping_server) \<and> stopped (request_queue stopping_server)"
  using stop_once_and_in_order [OF stopping_run]
  by (simp add: stopping_server_def demo_server_def alive_def base_examples progress_order)

text \<open>
  A second \<open>try_stop\<close> does not wait for the first: it returns with the server as it is, and a
  destructor that made the call then destroys workers that are still joinable.
\<close>

lemma lost_try_stop_destroys_workers:
  assumes "stopping (base s)" "stop_progress (base s) \<noteq> Stop_returned" "workers s \<noteq> []"
  shows "handle bst fl process (Ev_base (Try_stop Application_thread)) s = Some s \<and> destroy s = Some Terminate"
  using assms by (simp add: try_stop_def destroy_def)

section \<open>Stopping completes\<close>

lemma run_base_events:
  "aborted s = None \<Longrightarrow> list_all stop_path es \<Longrightarrow> base_steps es (base s) = Some b \<Longrightarrow>
   run_events bst fl process (map Ev_base es) s = Some (s\<lparr>base := b\<rparr>)"
proof (induction es arbitrary: s)
  case (Cons e es)
  from Cons.prems(3) obtain b1 where "failure (base s) = None" "base_step e (base s) = Some b1"
      "base_steps es b1 = Some b"
    by (auto simp: bind_eq_Some_conv split: if_splits)
  moreover have "shared_event e" "caller_present e s"
    using Cons.prems(2) stop_path_shared [of e] by (cases "(e, s)" rule: caller_present.cases; simp)+
  ultimately show ?case using Cons.prems Cons.IH [of "s\<lparr>base := b1\<rparr>"] by (simp add: alive_def)
qed simp

lemma run_events_append:
  "run_events bst fl process es s = Some s1 \<Longrightarrow> run_events bst fl process es' s1 = Some s2 \<Longrightarrow>
   run_events bst fl process (es @ es') s = Some s2"
  by (induction es arbitrary: s) (auto simp: bind_eq_Some_conv split: if_splits)

lemma worker_event_frame:
  "worker_event e \<Longrightarrow> handle bst fl process e s = Some s' \<Longrightarrow> base s' = base s \<and> aborted s' = aborted s"
  by (cases e) (auto simp: worker_pop_def worker_respond_def
      split: if_splits worker.splits wait_result.splits option.splits prod.splits)

lemma workers_end:
  assumes "\<And>ip req. \<exists>r. process ip req r"
  shows "alive s \<Longrightarrow> stopped (request_queue s) \<Longrightarrow> \<not> io_running (base s) \<Longrightarrow>
    \<exists>es s'. run_events bst fl process es s = Some s' \<and> base s' = base s \<and> aborted s' = aborted s \<and>
      (\<forall>w < length (workers s'). workers s' ! w = Ended \<or> in_stop w (base s'))"
proof (induction "remaining_work s" arbitrary: s rule: less_induct)
  case less
  show ?case
  proof (cases "\<forall>w < length (workers s). workers s ! w = Ended \<or> in_stop w (base s)")
    case True
    then show ?thesis by (intro exI [of _ "[]"] exI [of _ s]) simp
  next
    case False
    then obtain w where "w < length (workers s)" "workers s ! w \<noteq> Ended" "\<not> in_stop w (base s)" by blast
    from worker_can_step [where process = process, OF less.prems(2) assms this] obtain e s1 where
      e: "worker_event e" "handle bst fl process e s = Some s1" by blast
    note frame = worker_event_frame [OF e]
    have "remaining_work s1 < remaining_work s" using shutdown_step [OF less.prems(3) e(2)] e(1) by blast
    moreover have "stopped (request_queue s1)" by (rule handle_keeps_stopped [OF e(2) less.prems(2)])
    ultimately obtain es s' where "run_events bst fl process es s1 = Some s'" "base s' = base s"
        "aborted s' = aborted s" "\<forall>w < length (workers s'). workers s' ! w = Ended \<or> in_stop w (base s')"
      using less.hyps [of s1] less.prems(1,3) frame unfolding alive_def by metis
    with e(2) less.prems(1) show ?thesis by (intro exI [of _ "e # es"] exI [of _ s']) simp
  qed
qed

lemma queue_stop_completes:
  assumes "server_run bst fl process es s" "alive s" "Base_stopped \<le> stop_progress (base s)"
  shows "\<exists>es' s'. run_events bst fl process es' s = Some s' \<and> alive s' \<and> Queue_stopped \<le> stop_progress (base s')
    \<and> stop_caller (base s') = stop_caller (base s) \<and> stopping (base s') = stopping (base s)"
proof (cases "stop_progress (base s) = Base_stopped")
  case True
  with assms(2) show ?thesis
    by (intro exI [of _ "[Ev_queue_stop]"] exI) (auto simp: stop_queue_def alive_def)
next
  case False
  with assms(2,3) show ?thesis
    by (intro exI [of _ "[]"] exI [of _ s]) (cases "stop_progress (base s)"; simp add: progress_order)
qed

lemma worker_stop_completes:
  assumes "server_run bst fl process es s" "alive s" "Queue_stopped \<le> stop_progress (base s)"
    and "\<And>ip req. \<exists>r. process ip req r" "\<And>w. \<not> in_stop w (base s)"
  shows "\<exists>es' s'. run_events bst fl process es' s = Some s' \<and> alive s' \<and> stop_progress (base s') = Stop_returned"
proof -
  have "\<not> io_running (base s)"
    using rqs.no_io_after_base_stop [OF assms(1)] assms(2,3) by (simp add: alive_def progress_order)
  from workers_end [where process = process, OF assms(4,2) rqs.queue_stopped_progress [OF assms(1,3)] this, where bst = bst and fl = fl]
  obtain es' s1 where s1: "run_events bst fl process es' s = Some s1" "base s1 = base s" "aborted s1 = aborted s"
      "list_all (\<lambda>w. w = Ended) (workers s1)"
    using assms(5) unfolding list_all_length by metis
  show ?thesis
  proof (cases "stop_progress (base s) = Stop_returned")
    case True
    with s1 assms(2) show ?thesis unfolding alive_def by metis
  next
    case False
    with assms(3) have "stop_progress (base s1) = Queue_stopped"
      unfolding s1(2) by (cases "stop_progress (base s)") (simp_all add: progress_order)
    with s1 assms(2) have "run_events bst fl process [Ev_joined] s1 =
        Some (s1\<lparr>base := (base s1)\<lparr>stop_progress := Stop_returned\<rparr>\<rparr>)"
      by (simp add: join_workers_def alive_def)
    from run_events_append [OF s1(1) this] s1 assms(2) show ?thesis unfolding alive_def by fastforce
  qed
qed

lemma reaches_queue_stop:
  assumes "server_run bst fl process es s" "alive s" "stopping (base s)"
    and "joiner (base s) \<noteq> Some Waiter" "stop_caller (base s) \<noteq> Context_thread"
  shows "\<exists>es' s'. run_events bst fl process es' s = Some s' \<and> alive s' \<and> Queue_stopped \<le> stop_progress (base s')
    \<and> stop_caller (base s') = stop_caller (base s) \<and> stopping (base s')"
proof -
  have "aborted s = None" "failure (base s) = None" using assms(2) by (simp_all add: alive_def)
  with base_stop_completes [OF rqs.run_base_inv [OF assms(1)] _ assms(3-5)]
  obtain es1 b where b: "list_all stop_path es1" "base_steps es1 (base s) = Some b" "failure b = None"
      "Base_stopped \<le> stop_progress b"
    by blast
  let ?s1 = "s\<lparr>base := b\<rparr>"
  have s1: "run_events bst fl process (map Ev_base es1) s = Some ?s1" "alive ?s1"
    using run_base_events [OF \<open>aborted s = None\<close> b(1,2)] b(3) assms(2) by (simp_all add: alive_def)
  from queue_stop_completes [OF run_events_run [OF assms(1) s1(1)] s1(2)] b(4) obtain es2 s2 where
    s2: "run_events bst fl process es2 ?s1 = Some s2" "alive s2" "Queue_stopped \<le> stop_progress (base s2)"
      "stop_caller (base s2) = stop_caller b" "stopping (base s2) = stopping b" by auto
  from run_events_append [OF s1(1) s2(1)] s2 stop_path_caller [OF b(1,2)] assms(3) show ?thesis by metis
qed

text \<open>
  C18: Stopping can complete: from every reachable state in which an application thread
  is in \<open>stop\<close> there is a continuation in which \<open>stop\<close> returns without an error, provided that
  the application answers its requests and no thread waits in \<open>join_context_thread\<close>. Under
  these conditions no interleaving leads \<open>stop\<close> into a dead end.
\<close>

theorem stop_can_complete:
  assumes "server_run bst fl process es s" and "alive s" and "stopping (base s)"
    and "joiner (base s) \<noteq> Some Waiter" and "stop_caller (base s) = Application_thread"
    and "\<And>ip req. \<exists>r. process ip req r"
  shows "\<exists>es' s'. run_events bst fl process es' s = Some s' \<and> alive s' \<and> stop_progress (base s') = Stop_returned"
proof -
  from reaches_queue_stop [OF assms(1-4)] assms(5) obtain es1 s1 where
    s1: "run_events bst fl process es1 s = Some s1" "alive s1" "Queue_stopped \<le> stop_progress (base s1)"
      "\<And>w. \<not> in_stop w (base s1)"
    by (auto simp: in_stop_def)
  from worker_stop_completes [OF run_events_run [OF assms(1) s1(1)] s1(2,3) assms(6) s1(4)] obtain es2 s2 where
    "run_events bst fl process es2 s1 = Some s2" "alive s2" "stop_progress (base s2) = Stop_returned" by blast
  with run_events_append [OF s1(1)] show ?thesis by blast
qed

lemma stop_can_complete_witness:
  "\<exists>es' s'. run_events plain_beast exact echo es' stopping_server = Some s' \<and> alive s'
     \<and> stop_progress (base s') = Stop_returned"
  by (rule stop_can_complete [OF stopping_run])
    (simp_all add: stopping_server_def demo_server_def alive_def base_examples echo_def)

section \<open>A worker that stops the server\<close>

lemma stopping_worker_stays:
  assumes "handle bst fl process e s = Some s'" "in_stop w (base s)"
    and "w < length (workers s)" "workers s ! w = Processing task"
  shows "w < length (workers s') \<and> workers s' ! w = Processing task"
  using assms
  by (cases e) (auto simp: on_accept_def on_accept_error_def on_read_event_def worker_respond_def worker_pop_def
      stop_queue_def join_workers_def join_self_def Let_def split_beta nth_list_update
      split: if_splits option.splits worker.splits wait_result.splits caller.splits)

lemma stopping_worker_begins:
  assumes "handle bst fl process e s = Some s'" "\<not> in_stop w (base s)" "in_stop w (base s')"
  shows "w < length (workers s') \<and> (\<exists>task. workers s' ! w = Processing task)"
proof -
  from request_base_step [OF assms(1)] assms(2,3) obtain be where
    be: "request_base_event e = Some be" "base_step be (base s) = Some (base s')"
    by (auto split: option.splits)
  with base_step_in_stop assms(2,3) have "be = Try_stop (Pool_thread w)" by blast
  with be(1) have "e = Ev_base (Try_stop (Pool_thread w))"
    by (cases e rule: request_base_event.cases) simp_all
  with assms(1) show ?thesis by (auto split: if_splits worker.splits)
qed

lemma stopping_worker:
  "server_run bst fl process es s \<Longrightarrow> in_stop w (base s) \<Longrightarrow>
   w < length (workers s) \<and> (\<exists>task. workers s ! w = Processing task)"
proof (induction rule: server_run.induct)
  case (constructed n ms mb mt rate s)
  then show ?case by (auto simp: new_request_server_def new_server_base_def in_stop_def split: sum.splits)
next
  case (event es s e s')
  show ?case
  proof (cases "in_stop w (base s)")
    case True
    with event.IH stopping_worker_stays [OF event.hyps(3) True] show ?thesis by blast
  next
    case False
    from stopping_worker_begins [OF event.hyps(3) False event.prems] show ?thesis .
  qed
qed

lemma stopping_worker_not_returned:
  assumes "server_run bst fl process es s" "in_stop w (base s)"
  shows "stop_progress (base s) \<noteq> Stop_returned"
  using stopping_worker [OF assms] returned_joined [OF assms(1)] by (auto simp: list_all_length)

lemma joins_reach_self:
  assumes "server_run bst fl process es s" "alive s" "in_stop w (base s)" "Queue_stopped \<le> stop_progress (base s)"
    and "\<And>ip req. \<exists>r. process ip req r"
  shows "\<exists>es' s'. run_events bst fl process es' s = Some s' \<and>
    aborted s' = Some (System_error ''resource_deadlock_would_occur'')"
proof -
  have "\<not> io_running (base s)"
    using rqs.no_io_after_base_stop [OF assms(1)] assms(2,4) by (simp add: alive_def progress_order)
  from workers_end [where process = process, OF assms(5,2) rqs.queue_stopped_progress [OF assms(1,4)] this,
      where bst = bst and fl = fl]
  obtain es' s1 where s1: "run_events bst fl process es' s = Some s1" "base s1 = base s" "aborted s1 = aborted s"
      "\<forall>i < length (workers s1). workers s1 ! i = Ended \<or> in_stop i (base s1)"
    by blast
  have w: "stop_caller (base s1) = Pool_thread w" using assms(3) s1(2) by (simp add: in_stop_def)
  with s1(4) have "list_all (\<lambda>w. w = Ended) (take w (workers s1))"
    by (auto simp: list_all_length in_stop_def)
  moreover have "stop_progress (base s1) = Queue_stopped"
    using stopping_worker_not_returned [OF assms(1,3)] assms(4) s1(2)
    by (cases "stop_progress (base s)") (simp_all add: progress_order)
  ultimately have "run_events bst fl process [Ev_join_self] s1 =
      Some (s1\<lparr>aborted := Some (System_error ''resource_deadlock_would_occur'')\<rparr>)"
    using w s1(2,3) assms(2) by (simp add: join_self_def alive_def)
  from run_events_append [OF s1(1) this] show ?thesis
    by (intro exI [of _ "es' @ [Ev_join_self]"]
        exI [of _ "s1\<lparr>aborted := Some (System_error ''resource_deadlock_would_occur'')\<rparr>"]) simp
qed

text \<open>
  C36: A request cannot stop the server: when \<open>process_client_request\<close> calls \<open>try_stop\<close> and gets
  through the exchange, its \<open>stop\<close> never returns. The worker stays in it until the joins come to the worker
  itself, and this ends the program with a \<open>std::system_error\<close> (unless another thread
  waits in \<open>join_context_thread\<close>, when it ends earlier).
\<close>

theorem worker_cannot_stop_server:
  assumes "server_run bst fl process es s" and "alive s" and "in_stop w (base s)"
  shows "stop_progress (base s) \<noteq> Stop_returned \<and> handle bst fl process (Ev_respond w r) s = None \<and>
    (joiner (base s) \<noteq> Some Waiter \<and> (\<forall>ip req. \<exists>r. process ip req r) \<longrightarrow>
       (\<exists>es' s'. run_events bst fl process es' s = Some s' \<and>
          aborted s' = Some (System_error ''resource_deadlock_would_occur'')))"
proof -
  have "\<exists>es' s'. run_events bst fl process es' s = Some s' \<and>
      aborted s' = Some (System_error ''resource_deadlock_would_occur'')"
    if free: "joiner (base s) \<noteq> Some Waiter" and total: "\<forall>ip req. \<exists>r. process ip req r"
  proof -
    have caller: "stopping (base s)" "stop_caller (base s) = Pool_thread w" using assms(3) by (simp_all add: in_stop_def)
    with reaches_queue_stop [OF assms(1,2) caller(1) free] obtain es1 s1 where
      s1: "run_events bst fl process es1 s = Some s1" "alive s1" "Queue_stopped \<le> stop_progress (base s1)"
        "in_stop w (base s1)"
      by (auto simp: in_stop_def)
    from joins_reach_self [OF run_events_run [OF assms(1) s1(1)] s1(2,4,3)] total obtain es2 s2 where
      "run_events bst fl process es2 s1 = Some s2" "aborted s2 = Some (System_error ''resource_deadlock_would_occur'')"
      by blast
    with run_events_append [OF s1(1)] show ?thesis by blast
  qed
  with stopping_worker_not_returned [OF assms(1,3)] assms(3) show ?thesis by simp
qed

lemma worker_cannot_stop_server_witness:
  "\<exists>es' s'. run_events plain_beast exact echo es'
      (demo_server\<lparr>base := try_stop (Pool_thread 0) (base demo_server)\<rparr>) = Some s' \<and>
    aborted s' = Some (System_error ''resource_deadlock_would_occur'')"
proof -
  let ?s = "demo_server\<lparr>base := try_stop (Pool_thread 0) (base demo_server)\<rparr>"
  have "server_run plain_beast exact echo (demo_events @ [Ev_base (Try_stop (Pool_thread 0))]) ?s"
    by (rule run_events_run [OF demo_run])
      (simp add: demo_server_def base_defs base_examples alive_def in_stop_def)
  from worker_cannot_stop_server [OF this, of 0] show ?thesis
    by (simp add: demo_server_def base_defs base_examples alive_def in_stop_def echo_def)
qed

end
