(* ===== verification/Queue_Waiting.thy ===== *)
theory Queue_Waiting
  imports Thread_Safe_Queue
begin

text \<open>
  The condition variable \<open>waiting\<close> of
  \<open>src/data_structures/thread_safe/thread_safe_queue.hpp\<close>: threads that block in
  \<open>wait_and_pop\<close>, the notifications that the other members send after they release the
  mutex, and every interleaving of them as a labelled step relation.

  A thread in \<open>wait_and_pop\<close> is either blocked on the condition variable or awake and
  about to take the mutex again. A member's critical section and its notification are two
  steps, as in the code, where \<open>notify_one\<close> runs after the lock's scope ends, so other
  threads run in between. Wake-ups may be spurious.
\<close>

section \<open>Steps\<close>

record 'a waiting_room =
  shared :: "'a thread_safe_queue"
  blocked :: "nat list"
  awake :: "nat list"
  pending :: "notification list"
  returned :: "(nat \<times> 'a option) list"

datatype 'a room_event =
    Ev_member "'a queue_call" | Ev_wait nat | Ev_notify notification | Ev_spurious nat | Ev_recheck nat

definition open_room :: "size_t \<Rightarrow> size_t \<Rightarrow> 'a waiting_room" where
  "open_room ms mb =
     \<lparr>shared = new_queue ms mb, blocked = [], awake = [], pending = [], returned = []\<rparr>"

text \<open>
  One evaluation of the predicate of \<open>waiting.wait\<close> by thread \<open>t\<close>, with the mutex
  held: block, or run to the return.
\<close>

definition wait_attempt :: "'a queue_template \<Rightarrow> nat \<Rightarrow> 'a waiting_room \<Rightarrow> 'a waiting_room" where
  "wait_attempt tp t s = (case wait_and_pop tp (shared s) of
      (Blocks, q) \<Rightarrow> s\<lparr>shared := q, blocked := t # blocked s\<rparr>
    | (Returns r, q) \<Rightarrow> s\<lparr>shared := q, returned := returned s @ [(t, r)]\<rparr>)"

inductive room_step :: "'a queue_template \<Rightarrow> 'a waiting_room \<Rightarrow> 'a room_event \<Rightarrow> 'a waiting_room \<Rightarrow> bool"
  for tp where
  member: "\<lbrakk> c \<noteq> Wait_and_pop; call tp c (shared s) = (r, n, q) \<rbrakk> \<Longrightarrow>
     room_step tp s (Ev_member c) (s\<lparr>shared := q, pending := pending s @ [n]\<rparr>)"
| wait: "\<lbrakk> t \<notin> set (blocked s); t \<notin> set (awake s) \<rbrakk> \<Longrightarrow>
     room_step tp s (Ev_wait t) (wait_attempt tp t s)"
| notify_none: "n = Notify_none \<Longrightarrow> n \<in> set (pending s) \<Longrightarrow>
     room_step tp s (Ev_notify n) (s\<lparr>pending := remove1 n (pending s)\<rparr>)"
| notify_nobody: "\<lbrakk> Notify_one \<in> set (pending s); blocked s = [] \<rbrakk> \<Longrightarrow>
     room_step tp s (Ev_notify Notify_one) (s\<lparr>pending := remove1 Notify_one (pending s)\<rparr>)"
| notify_one: "\<lbrakk> Notify_one \<in> set (pending s); t \<in> set (blocked s) \<rbrakk> \<Longrightarrow>
     room_step tp s (Ev_notify Notify_one)
       (s\<lparr>pending := remove1 Notify_one (pending s),
          blocked := remove1 t (blocked s), awake := t # awake s\<rparr>)"
| notify_all: "Notify_all \<in> set (pending s) \<Longrightarrow>
     room_step tp s (Ev_notify Notify_all)
       (s\<lparr>pending := remove1 Notify_all (pending s),
          blocked := [], awake := blocked s @ awake s\<rparr>)"
| spurious: "t \<in> set (blocked s) \<Longrightarrow>
     room_step tp s (Ev_spurious t) (s\<lparr>blocked := remove1 t (blocked s), awake := t # awake s\<rparr>)"
| recheck: "t \<in> set (awake s) \<Longrightarrow>
     room_step tp s (Ev_recheck t) (wait_attempt tp t (s\<lparr>awake := remove1 t (awake s)\<rparr>))"

text \<open>Rooms reached through events that satisfy \<open>ok\<close>.\<close>

inductive reachable ::
    "'a queue_template \<Rightarrow> ('a room_event \<Rightarrow> bool) \<Rightarrow> 'a waiting_room \<Rightarrow> bool" for tp ok where
  start: "reachable tp ok (open_room ms mb)"
| step: "\<lbrakk> reachable tp ok s; room_step tp s e s'; ok e \<rbrakk> \<Longrightarrow> reachable tp ok s'"

fun no_replace :: "'a room_event \<Rightarrow> bool" where
  "no_replace (Ev_member (Replace xs)) = False"
| "no_replace _ = True"

section \<open>No lost wake-up\<close>

text \<open>
  The counting argument: while somebody is blocked, every queued item is matched by an
  undelivered \<open>notify_one\<close> or by an awake consumer, and a stop still has its
  \<open>notify_all\<close> to deliver.
\<close>

definition wakeups_cover :: "'a waiting_room \<Rightarrow> bool" where
  "wakeups_cover s \<longleftrightarrow> blocked s = [] \<or>
     (length (dequeue (shared s)) \<le> count_list (pending s) Notify_one + length (awake s)
      \<and> (stopped (shared s) \<longrightarrow> Notify_all \<in> set (pending s)))"

lemma count_list_remove1:
  "count_list (remove1 a xs) b = (if a = b then count_list xs b - 1 else count_list xs b)"
  by (induction xs) (auto simp: count_list_0_iff intro: sym dest: gr0_implies_Suc)

lemma count_list_member_pos: "a \<in> set xs \<Longrightarrow> 0 < count_list xs a"
  using count_list_0_iff [of xs a] by auto

lemma call_notifies:
  assumes "call tp c q = (r, n, q')" and "no_replace (Ev_member c)" and "c \<noteq> Wait_and_pop"
  shows "length (dequeue q') \<le> length (dequeue q) + (if n = Notify_one then 1 else 0)"
    and "stopped q' \<Longrightarrow> stopped q \<or> n = Notify_all"
  using assms
  by (cases c; auto simp: queue_op_defs pre_addition_check_protocol_def
        unchecked_addition_protocol_def removal_protocol_def Let_def
      split: list.splits if_splits)+

lemma wait_attempt_covers:
  assumes "blocked s = [] \<or>
     (length (dequeue (shared s)) \<le> Suc (count_list (pending s) Notify_one + length (awake s))
      \<and> (stopped (shared s) \<longrightarrow> Notify_all \<in> set (pending s)))"
  shows "wakeups_cover (wait_attempt tp t s)"
  using assms
  by (auto simp: wait_attempt_def wakeups_cover_def wait_and_pop_def wait_predicate_def
      split: list.splits)

lemma room_step_covers:
  "room_step tp s e s' \<Longrightarrow> no_replace e \<Longrightarrow> wakeups_cover s \<Longrightarrow> wakeups_cover s'"
proof (induction rule: room_step.induct)
  case (member c s r n q)
  then show ?case using call_notifies [OF member(2,3,1)] by (auto simp: wakeups_cover_def)
next
  case (wait t s)
  then show ?case by (intro wait_attempt_covers) (auto simp: wakeups_cover_def)
next
  case (recheck t s)
  then show ?case
    by (intro wait_attempt_covers) (auto simp: wakeups_cover_def length_remove1)
qed (auto simp: wakeups_cover_def count_list_remove1
       dest: count_list_member_pos split: if_splits)

lemma reachable_covers: "reachable tp no_replace s \<Longrightarrow> wakeups_cover s"
proof (induction rule: reachable.induct)
  case (start ms mb)
  show ?case by (simp add: wakeups_cover_def open_room_def)
next
  case (step s e s')
  then show ?case by (blast intro: room_step_covers)
qed

section \<open>Properties\<close>

text \<open>
  C7: No wake-up is lost. In every interleaving of member calls (except \<open>replace\<close>),
  waits, notifications and spurious wake-ups: if a consumer is blocked in
  \<open>wait_and_pop\<close> although it could proceed (an item is queued or the queue is stopped),
  then a consumer is awake or a notification is still to be delivered; the awake consumers
  and undelivered \<open>notify_one\<close>s are at least as many as the queued items, and on a
  stopped queue the \<open>notify_all\<close> is still to come.
\<close>

theorem no_lost_wakeup:
  assumes "reachable tp no_replace s" and "blocked s \<noteq> []" and "wait_predicate (shared s)"
  shows "(awake s \<noteq> [] \<or> Notify_one \<in> set (pending s) \<or> Notify_all \<in> set (pending s)) \<and>
         length (dequeue (shared s)) \<le> count_list (pending s) Notify_one + length (awake s) \<and>
         (stopped (shared s) \<longrightarrow> Notify_all \<in> set (pending s))"
  using reachable_covers [OF assms(1)] assms(2,3)
  by (auto simp: wakeups_cover_def wait_predicate_def count_list_0_iff
      dest: count_list_member_pos intro: ccontr)

definition blocked_then :: "'a queue_template \<Rightarrow> 'a queue_call \<Rightarrow> 'a waiting_room" where
  "blocked_then tp c =
     (let s = wait_attempt tp 7 (open_room 0 0); (_, n, q) = call tp c (shared s)
      in s\<lparr>shared := q, pending := [n]\<rparr>)"

lemma blocked_then_reachable:
  assumes "c \<noteq> Wait_and_pop" "ok (Ev_wait 7)" "ok (Ev_member c)"
  shows "reachable tp ok (blocked_then tp c)"
proof -
  let ?s = "wait_attempt tp 7 (open_room 0 0)"
  obtain r n q where c: "call tp c (shared ?s) = (r, n, q)" by (cases "call tp c (shared ?s)") auto
  have "reachable tp ok ?s"
    by (rule reachable.step [OF reachable.start room_step.wait]) (simp_all add: open_room_def assms)
  then have "reachable tp ok (?s\<lparr>shared := q, pending := pending ?s @ [n]\<rparr>)"
    by (rule reachable.step [OF _ room_step.member]) (use c assms in simp_all)
  moreover have "pending ?s = []"
    by (simp add: wait_attempt_def wait_and_pop_def wait_predicate_def open_room_def new_queue_def)
  ultimately show ?thesis using c by (simp add: blocked_then_def Let_def)
qed

lemma blocked_then_simps:
  "blocked (blocked_then tp c) = [7]" "awake (blocked_then tp c) = []"
  "shared (blocked_then tp c) = after_call tp c (new_queue 0 0)"
  "pending (blocked_then tp c) = [fst (snd (call tp c (new_queue 0 0)))]"
  by (simp_all add: blocked_then_def wait_attempt_def wait_and_pop_def wait_predicate_def
      open_room_def new_queue_def Let_def case_prod_beta)

lemma no_lost_wakeup_witness:
  "Notify_one \<in> set (pending (blocked_then byte_traits (Push_back [3])))"
proof -
  let ?s = "blocked_then byte_traits (Push_back [3])"
  have r: "reachable byte_traits no_replace ?s" by (rule blocked_then_reachable) simp_all
  have b: "blocked ?s \<noteq> []" and w: "wait_predicate (shared ?s)"
    by (simp_all add: blocked_then_simps wait_predicate_def push_back_def)
  from no_lost_wakeup [OF r b w] show ?thesis
    by (simp add: blocked_then_simps push_back_def)
qed

text \<open>
  \<open>replace\<close> loses wake-ups. It fills the queue without notifying \<open>waiting\<close>, so a
  state is reachable in which a consumer stays blocked although an item is queued, nobody
  is awake and no notification is pending: only a spurious wake-up or a later call can
  release the consumer.
\<close>

theorem replace_strands_consumer:
  "\<exists>s. reachable tp (\<lambda>_. True) s \<and> blocked s = [7] \<and> dequeue (shared s) = [x] \<and>
       awake s = [] \<and> pending s = []"
proof -
  let ?s = "blocked_then tp (Replace [x])"
  have "reachable tp (\<lambda>_. True) ?s" by (rule blocked_then_reachable) simp_all
  moreover have "pending ?s = [Notify_none]" by (simp add: blocked_then_simps)
  ultimately have "reachable tp (\<lambda>_. True) (?s\<lparr>pending := []\<rparr>)"
    using reachable.step [OF _ room_step.notify_none, of tp "\<lambda>_. True" ?s Notify_none] by simp
  moreover have "dequeue (shared ?s) = [x]"
    
    by (simp add: blocked_then_simps replace_def dequeue_replace_loop_unlimited new_queue_def)
  ultimately show ?thesis by (intro exI [of _ "?s\<lparr>pending := []\<rparr>"]) (simp add: blocked_then_simps)
qed


section \<open>Consumers are served\<close>

text \<open>Steps of the notifications and of the consumers alone, without further calls of members.\<close>

definition consumer_step :: "'a queue_template \<Rightarrow> 'a waiting_room \<Rightarrow> 'a waiting_room \<Rightarrow> bool" where
  "consumer_step tp s s' \<longleftrightarrow>
     (\<exists>t. room_step tp s (Ev_recheck t) s') \<or> (\<exists>n. room_step tp s (Ev_notify n) s')"

lemma awake_consumer_served:
  assumes "t \<in> set (awake s)" "dequeue (shared s) = x # xs"
  shows "\<exists>s'. consumer_step tp s s' \<and> returned s' = returned s @ [(t, Some x)] \<and> dequeue (shared s') = xs"
proof -
  have "consumer_step tp s (wait_attempt tp t (s\<lparr>awake := remove1 t (awake s)\<rparr>))"
    unfolding consumer_step_def using room_step.recheck [OF assms(1)] by blast
  with assms(2) show ?thesis
    by (intro exI [of _ "wait_attempt tp t (s\<lparr>awake := remove1 t (awake s)\<rparr>)"])
      (simp add: wait_attempt_def wait_and_pop_def wait_predicate_def)
qed

text \<open>
  A queued item reaches a waiting consumer: in every reachable room with a consumer in
  \<open>wait_and_pop\<close> and an item in the queue, delivering a notification that is already pending
  (if no consumer is awake) and letting a consumer run returns the front item to it; no new
  call of a member is needed.
\<close>

theorem queued_item_reaches_consumer:
  assumes "reachable tp no_replace s" and "blocked s \<noteq> [] \<or> awake s \<noteq> []" and "dequeue (shared s) = x # xs"
  shows "\<exists>t s'. (consumer_step tp)\<^sup>*\<^sup>* s s' \<and> returned s' = returned s @ [(t, Some x)] \<and> dequeue (shared s') = xs"
proof (cases "awake s = []")
  case False
  then obtain t where "t \<in> set (awake s)" by (cases "awake s") auto
  from awake_consumer_served [OF this assms(3)] show ?thesis by (meson r_into_rtranclp)
next
  case True
  with assms(2) obtain t where t: "t \<in> set (blocked s)" by (cases "blocked s") auto
  have "Notify_one \<in> set (pending s)"
    using reachable_covers [OF assms(1)] assms(2,3) True count_list_0_iff [of "pending s" Notify_one]
    by (auto simp: wakeups_cover_def)
  let ?s = "s\<lparr>pending := remove1 Notify_one (pending s), blocked := remove1 t (blocked s), awake := t # awake s\<rparr>"
  have s1: "consumer_step tp s ?s" "t \<in> set (awake ?s)" "dequeue (shared ?s) = x # xs" "returned ?s = returned s"
    using room_step.notify_one [OF \<open>Notify_one \<in> set (pending s)\<close> t, of tp] assms(3)
    unfolding consumer_step_def by simp_all blast
  from awake_consumer_served [OF s1(2,3), of tp] s1(1,4) show ?thesis
    by (metis converse_rtranclp_into_rtranclp r_into_rtranclp)
qed

lemma queued_item_reaches_consumer_witness:
  "\<exists>t s'. (consumer_step byte_traits)\<^sup>*\<^sup>* (blocked_then byte_traits (Push_back [3])) s'
     \<and> returned s' = returned (blocked_then byte_traits (Push_back [3])) @ [(t, Some [3])] \<and> dequeue (shared s') = []"
proof -
  have r: "reachable byte_traits no_replace (blocked_then byte_traits (Push_back [3]))"
    by (rule blocked_then_reachable) simp_all
  show ?thesis
    by (rule queued_item_reaches_consumer [OF r])
      (simp_all add: blocked_then_simps push_back_def new_queue_def)
qed

text \<open>
  A stop releases everybody: in every reachable room with a stopped queue each consumer is
  awake or the \<open>notify_all\<close> that wakes all of them is pending, and a consumer that runs returns.
\<close>

theorem stop_releases_consumers:
  assumes "reachable tp no_replace s" and "stopped (shared s)"
  shows "(blocked s = [] \<or> room_step tp s (Ev_notify Notify_all)
      (s\<lparr>pending := remove1 Notify_all (pending s), blocked := [], awake := blocked s @ awake s\<rparr>)) \<and>
    (t \<in> set (awake s) \<longrightarrow> (\<exists>r s'. room_step tp s (Ev_recheck t) s' \<and> returned s' = returned s @ [(t, r)]
       \<and> awake s' = remove1 t (awake s) \<and> blocked s' = blocked s))"
proof -
  have "Notify_all \<in> set (pending s)" if "blocked s \<noteq> []"
    using reachable_covers [OF assms(1)] that assms(2) by (simp add: wakeups_cover_def)
  moreover have "\<exists>r s'. room_step tp s (Ev_recheck t) s' \<and> returned s' = returned s @ [(t, r)]
      \<and> awake s' = remove1 t (awake s) \<and> blocked s' = blocked s" if "t \<in> set (awake s)"
  proof -
    let ?s = "wait_attempt tp t (s\<lparr>awake := remove1 t (awake s)\<rparr>)"
    have "\<exists>r. returned ?s = returned s @ [(t, r)] \<and> awake ?s = remove1 t (awake s) \<and> blocked ?s = blocked s"
      using assms(2) by (cases "dequeue (shared s)") (simp_all add: wait_attempt_def wait_and_pop_def wait_predicate_def)
    with room_step.recheck [OF that, of tp] show ?thesis by blast
  qed
  ultimately show ?thesis using room_step.notify_all [of s tp] by blast
qed

section \<open>The destructor\<close>

text \<open>
  \<open>~thread_safe_queue\<close> calls \<open>stop\<close>, whose \<open>notify_all\<close> wakes the consumers, and does not wait
  for them: a consumer that is still in \<open>wait_and_pop\<close> uses the mutex after it has been destroyed.
\<close>

definition destroy_queue :: "'a waiting_room \<Rightarrow> 'a waiting_room \<times> exn option" where
  "destroy_queue s =
     (let (n, q) = stop (shared s);
          s1 = (if n = Notify_all then s\<lparr>shared := q, blocked := [], awake := blocked s @ awake s\<rparr>
                else s\<lparr>shared := q\<rparr>)
      in (s1, if blocked s1 = [] \<and> awake s1 = [] then None
              else Some (Undefined_behaviour ''mutex destroyed while in use'')))"

lemma destroy_queue_safe_iff:
  "snd (destroy_queue s) = None \<longleftrightarrow> blocked s = [] \<and> awake s = []"
  "stopped (shared (fst (destroy_queue s)))"
  "dequeue (shared (fst (destroy_queue s))) = dequeue (shared s)"
  by (auto simp: destroy_queue_def stop_def)

end
