(* ===== verification/Request_Waiting.thy ===== *)
theory Request_Waiting
  imports Request_Shutdown Queue_Waiting
begin

text \<open>
  The request server with its workers on the queue's condition variable: \<open>Request_Server\<close> takes
  a worker's return from \<open>wait_and_pop\<close> as one event, here a worker calls \<open>wait_and_pop\<close>, sleeps
  on \<open>waiting\<close>, is notified or wakes spuriously and looks again, while the notifications of
  \<open>try_push_back\<close> (context thread) and \<open>stop\<close> (stopping thread) are sent after the mutex is
  released.

  Every run of this system is a run of \<open>Request_Server\<close>, and its queue and sleepers are a run of
  \<open>Queue_Waiting\<close>; from the two follows that the workers neither sleep through a request nor
  through the stop.
\<close>

section \<open>State and actions\<close>

record ('rq, 'rs) waiting_server =
  server :: "('rq, 'rs) request_server"
  asleep :: "nat list"
  woken :: "nat list"
  signals :: "notification list"

datatype ('rq, 'rs) action =
    Serve "('rq, 'rs) event"
  | Call_wait nat
  | Notify_sleeper nat
  | Notify_nobody
  | Notify_everybody
  | Wake_spuriously nat
  | Look_again nat

text \<open>The member of the queue that an event other than a worker's pop calls.\<close>

fun event_call :: "('rq, 'rs) event \<Rightarrow> ('rq, 'rs) request_server \<Rightarrow> 'rq request_task queue_call option" where
  "event_call (Ev_read cid req (Some ip)) s =
     map_option (\<lambda>c. Try_push_back \<lparr>connection = cid, task_request = req, client_ip = ip,
       sequence_id = next_sequence_id c\<rparr>) (connections s cid)"
| "event_call Ev_queue_stop s = Some Stop"
| "event_call _ s = None"

definition event_signals ::
    "('rq, 'rs, 'z) beast_scheme \<Rightarrow> ('rq, 'rs) event \<Rightarrow> ('rq, 'rs) request_server \<Rightarrow> notification list" where
  "event_signals bst e s = (case event_call e s of
       None \<Rightarrow> []
     | Some c \<Rightarrow> let n = fst (snd (call (task_template bst) c (request_queue s)))
         in if n = Notify_none then [] else [n])"

text \<open>
  The notification that the thread of an event sends before it goes on: the context thread runs
  no handler before it has sent its \<open>notify_one\<close>, and \<open>stop\<close> joins no worker before its
  \<open>notify_all\<close>.
\<close>

fun own_signal :: "('rq, 'rs) event \<Rightarrow> notification option" where
  "own_signal (Ev_accept cid ip now) = Some Notify_one"
| "own_signal Ev_accept_error = Some Notify_one"
| "own_signal (Ev_read cid req ip) = Some Notify_one"
| "own_signal (Ev_read_error cid) = Some Notify_one"
| "own_signal (Ev_job cid k) = Some Notify_one"
| "own_signal (Ev_write cid ec) = Some Notify_one"
| "own_signal (Ev_base Run_returns) = Some Notify_one"
| "own_signal (Ev_base (Try_stop Context_thread)) = Some Notify_one"
| "own_signal Ev_joined = Some Notify_all"
| "own_signal Ev_join_self = Some Notify_all"
| "own_signal _ = None"

fun pops :: "('rq, 'rs) event \<Rightarrow> bool" where
  "pops (Ev_pop w) = True"
| "pops _ = False"

definition may_serve :: "('rq, 'rs) event \<Rightarrow> notification list \<Rightarrow> bool" where
  "may_serve e ns \<longleftrightarrow> \<not> pops e \<and> (case own_signal e of None \<Rightarrow> True | Some n \<Rightarrow> n \<notin> set ns)"

text \<open>One evaluation of the wait predicate by worker \<open>w\<close>, with the mutex held.\<close>

definition attempt ::
    "('rq, 'rs, 'z) beast_scheme \<Rightarrow> nat \<Rightarrow> ('rq, 'rs) waiting_server \<Rightarrow> ('rq, 'rs) waiting_server" where
  "attempt bst w s = (case worker_pop bst w (server s) of
       None \<Rightarrow> s\<lparr>asleep := w # asleep s\<rparr>
     | Some s' \<Rightarrow> s\<lparr>server := s'\<rparr>)"

text \<open>A worker between two calls of \<open>wait_and_pop\<close>, at the head of its loop.\<close>

definition at_loop_head :: "nat \<Rightarrow> ('rq, 'rs) waiting_server \<Rightarrow> bool" where
  "at_loop_head w s \<longleftrightarrow> w < length (workers (server s)) \<and> w \<notin> set (asleep s) \<and> w \<notin> set (woken s)
     \<and> (case workers (server s) ! w of Waiting \<Rightarrow> True | _ \<Rightarrow> False)"

fun act ::
    "('rq, 'rs, 'z) beast_scheme \<Rightarrow> (real \<Rightarrow> real) \<Rightarrow> (string \<Rightarrow> 'rq \<Rightarrow> 'rs \<Rightarrow> bool) \<Rightarrow>
     ('rq, 'rs) action \<Rightarrow> ('rq, 'rs) waiting_server \<Rightarrow> ('rq, 'rs) waiting_server option" where
  "act bst fl process (Serve e) s =
     (if may_serve e (signals s)
      then map_option (\<lambda>s'. s\<lparr>server := s', signals := signals s @ event_signals bst e (server s)\<rparr>)
        (handle bst fl process e (server s))
      else None)"
| "act bst fl process (Call_wait w) s = (if at_loop_head w s then Some (attempt bst w s) else None)"
| "act bst fl process (Notify_sleeper w) s =
     (if Notify_one \<in> set (signals s) \<and> w \<in> set (asleep s)
      then Some (s\<lparr>signals := remove1 Notify_one (signals s), asleep := remove1 w (asleep s), woken := w # woken s\<rparr>)
      else None)"
| "act bst fl process Notify_nobody s =
     (if Notify_one \<in> set (signals s) \<and> asleep s = []
      then Some (s\<lparr>signals := remove1 Notify_one (signals s)\<rparr>) else None)"
| "act bst fl process Notify_everybody s =
     (if Notify_all \<in> set (signals s)
      then Some (s\<lparr>signals := remove1 Notify_all (signals s), asleep := [], woken := asleep s @ woken s\<rparr>)
      else None)"
| "act bst fl process (Wake_spuriously w) s =
     (if w \<in> set (asleep s)
      then Some (s\<lparr>asleep := remove1 w (asleep s), woken := w # woken s\<rparr>) else None)"
| "act bst fl process (Look_again w) s =
     (if w \<in> set (woken s) then Some (attempt bst w (s\<lparr>woken := remove1 w (woken s)\<rparr>)) else None)"

text \<open>The events of \<open>Request_Server\<close> that an action performs.\<close>

fun performed ::
    "('rq, 'rs, 'z) beast_scheme \<Rightarrow> ('rq, 'rs) action \<Rightarrow> ('rq, 'rs) waiting_server \<Rightarrow> ('rq, 'rs) event list" where
  "performed bst (Serve e) s = [e]"
| "performed bst (Call_wait w) s = (if worker_pop bst w (server s) = None then [] else [Ev_pop w])"
| "performed bst (Look_again w) s = (if worker_pop bst w (server s) = None then [] else [Ev_pop w])"
| "performed bst _ s = []"

inductive waiting_run ::
    "('rq, 'rs, 'z) beast_scheme \<Rightarrow> (real \<Rightarrow> real) \<Rightarrow> (string \<Rightarrow> 'rq \<Rightarrow> 'rs \<Rightarrow> bool) \<Rightarrow>
     ('rq, 'rs) event list \<Rightarrow> ('rq, 'rs) waiting_server \<Rightarrow> bool"
  for bst fl process where
  begin_run: "server_run bst fl process [] s \<Longrightarrow>
     waiting_run bst fl process [] \<lparr>server = s, asleep = [], woken = [], signals = []\<rparr>"
| take_action: "\<lbrakk> waiting_run bst fl process es s; alive (server s); act bst fl process a s = Some s' \<rbrakk> \<Longrightarrow>
     waiting_run bst fl process (es @ performed bst a s) s'"

section \<open>The sleepers are waiting workers\<close>

definition sleepers_ok :: "('rq, 'rs) waiting_server \<Rightarrow> bool" where
  "sleepers_ok s \<longleftrightarrow> distinct (asleep s @ woken s)
     \<and> (\<forall>w \<in> set (asleep s @ woken s). w < length (workers (server s)) \<and> workers (server s) ! w = Waiting)"

lemma worker_popD:
  assumes "worker_pop bst w s = Some s'" "w < length (workers s)"
  shows "length (workers s') = length (workers s)" "v \<noteq> w \<Longrightarrow> workers s' ! v = workers s ! v"
    "workers s' ! w \<noteq> Waiting"
  using assms
  by (auto simp: worker_pop_def split: prod.splits wait_result.splits option.splits)

lemma handle_keeps_waiting:
  assumes "handle bst fl process e s = Some s'" "\<not> pops e" "w < length (workers s)" "workers s ! w = Waiting"
  shows "w < length (workers s') \<and> workers s' ! w = Waiting"
  using assms
  by (cases e) (auto simp: on_accept_def on_accept_error_def on_read_event_def worker_respond_def nth_list_update
      stop_queue_def join_workers_def join_self_def Let_def split_beta split: if_splits option.splits worker.splits caller.splits)

lemma attempt_sleepers:
  assumes "sleepers_ok (s\<lparr>asleep := w # asleep s\<rparr>)"
  shows "sleepers_ok (attempt bst w s)"
proof (cases "worker_pop bst w (server s)")
  case (Some s')
  have "v \<noteq> w \<and> v < length (workers (server s)) \<and> workers (server s) ! v = Waiting"
    if "v \<in> set (asleep s @ woken s)" for v
    using assms that by (auto simp: sleepers_ok_def)
  moreover have "w < length (workers (server s))" using assms by (simp add: sleepers_ok_def)
  ultimately have "\<forall>v \<in> set (asleep s @ woken s). v < length (workers s') \<and> workers s' ! v = Waiting"
    using worker_popD(1,2) [OF Some] by simp
  with assms Some show ?thesis by (simp add: attempt_def sleepers_ok_def)
qed (use assms in \<open>simp add: attempt_def\<close>)

lemma act_sleepers:
  assumes "act bst fl process a s = Some s'" "sleepers_ok s"
  shows "sleepers_ok s'"
proof (cases a)
  case (Serve e)
  with assms(1) obtain s1 where "handle bst fl process e (server s) = Some s1" "\<not> pops e"
      "s' = s\<lparr>server := s1, signals := signals s @ event_signals bst e (server s)\<rparr>"
    by (auto simp: may_serve_def split: if_splits)
  with handle_keeps_waiting [OF this(1,2)] assms(2) show ?thesis by (simp add: sleepers_ok_def)
next
  case (Call_wait w)
  with assms have "sleepers_ok (s\<lparr>asleep := w # asleep s\<rparr>)" "s' = attempt bst w s"
    by (auto simp: sleepers_ok_def at_loop_head_def split: if_splits worker.splits)
  then show ?thesis by (simp add: attempt_sleepers)
next
  case (Look_again w)
  with assms have "sleepers_ok (s\<lparr>woken := remove1 w (woken s), asleep := w # asleep s\<rparr>)"
      "s' = attempt bst w (s\<lparr>woken := remove1 w (woken s)\<rparr>)"
    by (auto simp: sleepers_ok_def split: if_splits)
  then show ?thesis by (simp add: attempt_sleepers)
qed (use assms in \<open>auto simp: sleepers_ok_def split: if_splits\<close>)

lemma waiting_run_sleepers: "waiting_run bst fl process es s \<Longrightarrow> sleepers_ok s"
proof (induction rule: waiting_run.induct)
  case (begin_run s)
  show ?case by (simp add: sleepers_ok_def)
next
  case (take_action es s a s')
  then show ?case by (blast intro: act_sleepers)
qed

lemma sleeper_waiting:
  "sleepers_ok s \<Longrightarrow> w \<in> set (asleep s) \<union> set (woken s) \<Longrightarrow>
   w < length (workers (server s)) \<and> workers (server s) ! w = Waiting"
  by (auto simp: sleepers_ok_def)

section \<open>Refinement\<close>

lemma server_attempt:
  assumes "server_run bst fl process es (server s)" "alive (server s)"
    and "w < length (workers (server s))" "workers (server s) ! w = Waiting"
  shows "server_run bst fl process
    (es @ (if worker_pop bst w (server s) = None then [] else [Ev_pop w])) (server (attempt bst w s))"
  using assms server_run.event [OF assms(1,2), where e = "Ev_pop w"]
  by (cases "worker_pop bst w (server s)") (simp_all add: attempt_def)

lemma act_refines:
  assumes "act bst fl process a s = Some s'" "sleepers_ok s" "server_run bst fl process es (server s)" "alive (server s)"
  shows "server_run bst fl process (es @ performed bst a s) (server s')"
proof (cases a)
  case (Serve e)
  with assms(1) show ?thesis using server_run.event [OF assms(3,4)] by (auto split: if_splits)
next
  case (Call_wait w)
  with assms(1) have "w < length (workers (server s))" "workers (server s) ! w = Waiting" "s' = attempt bst w s"
    by (auto simp: at_loop_head_def split: if_splits worker.splits)
  with server_attempt [OF assms(3,4)] Call_wait show ?thesis by simp
next
  case (Look_again w)
  with assms(1) have "w \<in> set (woken s)" "s' = attempt bst w (s\<lparr>woken := remove1 w (woken s)\<rparr>)"
    by (auto split: if_splits)
  with server_attempt [where s = "s\<lparr>woken := remove1 w (woken s)\<rparr>" and w = w and bst = bst and fl = fl
      and process = process and es = es] sleeper_waiting [OF assms(2), of w] assms(3,4) Look_again
  show ?thesis by simp
qed (use assms in \<open>auto split: if_splits\<close>)

lemma waiting_run_refines: "waiting_run bst fl process es s \<Longrightarrow> server_run bst fl process es (server s)"
proof (induction rule: waiting_run.induct)
  case (take_action es s a s')
  then show ?case by (blast intro: act_refines waiting_run_sleepers)
qed simp

section \<open>Queue and sleepers as a waiting room\<close>

definition room_of :: "(nat \<times> 'rq request_task option) list \<Rightarrow> ('rq, 'rs) waiting_server \<Rightarrow> 'rq request_task waiting_room" where
  "room_of rs s = \<lparr>shared = request_queue (server s), blocked = asleep s, awake = woken s,
     pending = signals s, returned = rs\<rparr>"

lemma room_of_sel [simp]:
  "shared (room_of rs s) = request_queue (server s)" "blocked (room_of rs s) = asleep s"
  "awake (room_of rs s) = woken s" "pending (room_of rs s) = signals s"
  by (simp_all add: room_of_def)

lemma attempt_room: "\<exists>rs'. wait_attempt (task_template bst) w (room_of rs s) = room_of rs' (attempt bst w s)"
  by (auto simp: wait_attempt_def attempt_def worker_pop_def wait_and_pop_def room_of_def
      split: list.splits)

lemma handle_event_call:
  assumes "handle bst fl process e s = Some s'" "\<not> pops e"
  shows "request_queue s' = (case event_call e s of None \<Rightarrow> request_queue s
    | Some c \<Rightarrow> after_call (task_template bst) c (request_queue s))"
  using assms
  by (cases "(e, s)" rule: event_call.cases)
    (auto simp: on_accept_def on_accept_error_def on_read_event_def on_read_def worker_respond_def
      stop_queue_def join_workers_def join_self_def Let_def split_beta split: if_splits option.splits worker.splits caller.splits)

lemma event_call_cases: "event_call e s = Some c \<Longrightarrow> c = Stop \<or> (\<exists>task. c = Try_push_back task)"
  by (cases "(e, s)" rule: event_call.cases) auto

lemma serve_room:
  assumes "reachable (task_template bst) no_replace (room_of rs s)" "Notify_none \<notin> set (signals s)"
    and "handle bst fl process e (server s) = Some s'" "\<not> pops e"
  shows "reachable (task_template bst) no_replace
    (room_of rs (s\<lparr>server := s', signals := signals s @ event_signals bst e (server s)\<rparr>))"
proof (cases "event_call e (server s)")
  case None
  with assms handle_event_call [OF assms(3,4)] show ?thesis by (simp add: room_of_def event_signals_def)
next
  case (Some c)
  let ?tp = "task_template bst"
  obtain r n q where c: "call ?tp c (request_queue (server s)) = (r, n, q)" by (metis prod.exhaust)
  let ?room = "(room_of rs s)\<lparr>shared := q, pending := signals s @ [n]\<rparr>"
  have "room_step ?tp (room_of rs s) (Ev_member c) ?room"
    using room_step.member [of c ?tp "room_of rs s" r n q] c event_call_cases [OF Some] by auto
  then have step: "reachable ?tp no_replace ?room"
    using reachable.step [OF assms(1)] event_call_cases [OF Some] by auto
  have q: "request_queue s' = q" using handle_event_call [OF assms(3,4)] Some c by simp
  show ?thesis
  proof (cases "n = Notify_none")
    case True
    with reachable.step [OF step room_step.notify_none [of n]] assms(2) Some c q show ?thesis
      by (simp add: room_of_def event_signals_def remove1_append)
  qed (use step Some c q in \<open>simp add: room_of_def event_signals_def\<close>)
qed

lemma signals_sent [simp]: "Notify_none \<notin> set (event_signals bst e s)"
  by (simp add: event_signals_def Let_def split: option.splits)

lemma act_signals:
  "act bst fl process a s = Some s' \<Longrightarrow> Notify_none \<notin> set (signals s) \<Longrightarrow> Notify_none \<notin> set (signals s')"
  by (cases a) (auto simp: attempt_def dest: notin_set_remove1 split: if_splits option.splits)

lemma waiting_run_signals: "waiting_run bst fl process es s \<Longrightarrow> Notify_none \<notin> set (signals s)"
proof (induction rule: waiting_run.induct)
  case (take_action es s a s')
  from act_signals [OF take_action(3,4)] show ?case .
qed simp

lemma act_room:
  assumes "reachable (task_template bst) no_replace (room_of rs s)" "Notify_none \<notin> set (signals s)"
    and "act bst fl process a s = Some s'"
  shows "\<exists>rs'. reachable (task_template bst) no_replace (room_of rs' s')"
proof -
  note step = reachable.step [OF assms(1)]
  show ?thesis
  proof (cases a)
    case (Serve e)
    with assms(3) obtain s1 where "handle bst fl process e (server s) = Some s1" "\<not> pops e"
        "s' = s\<lparr>server := s1, signals := signals s @ event_signals bst e (server s)\<rparr>"
      by (auto simp: may_serve_def split: if_splits)
    with serve_room [OF assms(1,2) this(1,2)] show ?thesis by blast
  next
    case (Call_wait w)
    with assms(3) have "w \<notin> set (asleep s)" "w \<notin> set (woken s)" "s' = attempt bst w s"
      by (auto simp: at_loop_head_def split: if_splits)
    moreover obtain rs' where "wait_attempt (task_template bst) w (room_of rs s) = room_of rs' (attempt bst w s)"
      using attempt_room by blast
    ultimately show ?thesis using step [OF room_step.wait [of w]] by auto
  next
    case (Look_again w)
    let ?s = "s\<lparr>woken := remove1 w (woken s)\<rparr>"
    from Look_again assms(3) have "w \<in> set (woken s)" "s' = attempt bst w ?s"
      by (auto split: if_splits)
    moreover obtain rs' where "wait_attempt (task_template bst) w (room_of rs ?s) = room_of rs' (attempt bst w ?s)"
      using attempt_room by blast
    ultimately show ?thesis using step [OF room_step.recheck [of w]] by (auto simp: room_of_def)
  next
    case (Notify_sleeper w)
    with assms(3) step [OF room_step.notify_one [of _ w]] show ?thesis
      by (intro exI [of _ rs]) (auto simp: room_of_def split: if_splits)
  next
    case Notify_nobody
    with assms(3) step [OF room_step.notify_nobody] show ?thesis
      by (intro exI [of _ rs]) (auto simp: room_of_def split: if_splits)
  next
    case Notify_everybody
    with assms(3) step [OF room_step.notify_all] show ?thesis
      by (intro exI [of _ rs]) (auto simp: room_of_def split: if_splits)
  next
    case (Wake_spuriously w)
    with assms(3) step [OF room_step.spurious [of w]] show ?thesis
      by (intro exI [of _ rs]) (auto simp: room_of_def split: if_splits)
  qed
qed

lemma waiting_run_room:
  "waiting_run bst fl process es s \<Longrightarrow> \<exists>rs. reachable (task_template bst) no_replace (room_of rs s)"
proof (induction rule: waiting_run.induct)
  case (begin_run s)
  then obtain ms mb where "request_queue s = new_queue ms mb"
    by (cases rule: server_run.cases) (auto simp: new_request_server_def split: sum.splits)
  then show ?case
    using reachable.start [of "task_template bst" no_replace ms mb]
    by (intro exI [of _ "[]"]) (simp add: room_of_def open_room_def)
next
  case (take_action es s a s')
  then show ?case using act_room waiting_run_signals by metis
qed

lemma waiting_run_covers:
  assumes "waiting_run bst fl process es s" "asleep s \<noteq> []"
  shows "length (dequeue (request_queue (server s))) \<le> count_list (signals s) Notify_one + length (woken s)"
    and "stopped (request_queue (server s)) \<Longrightarrow> Notify_all \<in> set (signals s)"
  using waiting_run_room [OF assms(1)] reachable_covers assms(2) by (fastforce simp: wakeups_cover_def)+

section \<open>Progress\<close>

text \<open>
  The steps that the server takes of its own accord: everything but input from the network,
  calls by the application and spurious wake-ups.
\<close>

fun own_event :: "('rq, 'rs) event \<Rightarrow> bool" where
  "own_event (Ev_respond w r) = True"
| "own_event (Ev_job cid k) = True"
| "own_event (Ev_write cid ec) = True"
| "own_event _ = False"

fun own_action :: "('rq, 'rs) action \<Rightarrow> bool" where
  "own_action (Serve e) = own_event e"
| "own_action (Wake_spuriously w) = False"
| "own_action _ = True"

text \<open>
  Every step a request takes on its way to the wire costs: a queued task and a worker's part,
  a posted handler, a response held in the map, a write under way.
\<close>

definition conn_load :: "'rs http_connection \<Rightarrow> nat" where
  "conn_load c = 4 * length (posted c) + 2 * card (dom (responses c)) + (if in_flight c = None then 0 else 1)"

definition backlog :: "('rq, 'rs) request_server \<Rightarrow> nat" where
  "backlog s = 5 * remaining_work s + (\<Sum>cid \<in> dom (connections s). conn_load (the (connections s cid)))"

definition restless :: "('rq, 'rs) waiting_server \<Rightarrow> nat set" where
  "restless s = {w. w < length (workers (server s)) \<and> workers (server s) ! w = Waiting \<and> w \<notin> set (asleep s)}"

definition own_order :: "(('rq, 'rs) waiting_server \<times> ('rq, 'rs) waiting_server) set" where
  "own_order = inv_image (less_than <*lex*> less_than <*lex*> less_than)
     (\<lambda>s. (backlog (server s), length (signals s), card (restless s)))"

lemma wf_own_order: "wf own_order"
  by (simp add: own_order_def wf_lex_prod)

lemma conn_load_sum:
  assumes "finite (dom m)" "m cid = Some c"
  shows "(\<Sum>i \<in> dom (m(cid \<mapsto> c')). conn_load (the ((m(cid \<mapsto> c')) i))) + conn_load c =
    (\<Sum>i \<in> dom m. conn_load (the (m i))) + conn_load c'"
proof -
  let ?m = "m(cid \<mapsto> c')" and ?rest = "\<Sum>i \<in> dom m - {cid}. conn_load (the (m i))"
  have "(\<Sum>i \<in> dom ?m. conn_load (the (?m i))) =
      conn_load c' + (\<Sum>i \<in> dom ?m - {cid}. conn_load (the (?m i)))"
    using assms(1) by (subst sum.remove [of _ cid]) simp_all
  also have "(\<Sum>i \<in> dom ?m - {cid}. conn_load (the (?m i))) = ?rest"
    by (intro sum.cong) auto
  finally have "(\<Sum>i \<in> dom ?m. conn_load (the (?m i))) = conn_load c' + ?rest" .
  moreover have "(\<Sum>i \<in> dom m. conn_load (the (m i))) = conn_load c + ?rest"
    using assms by (subst sum.remove [of _ cid]) (simp_all add: domIff)
  ultimately show ?thesis by simp
qed

lemma write_next_load: "in_flight c = None \<Longrightarrow> conn_load (write_next bst c) \<le> conn_load c + 1"
  by (auto simp: write_next_def conn_load_def Let_def insert_absorb domIff split: option.splits)

lemma emplace_load: "conn_load (emplace_response sid r c) \<le> conn_load c + 2"
  by (auto simp: emplace_response_def conn_load_def card_insert_if split: option.splits)

lemma run_job_load:
  assumes "flowing_inv c" "k < length (posted c)"
  shows "conn_load (run_job bst (posted c ! k) (c\<lparr>posted := take k (posted c) @ drop (Suc k) (posted c)\<rparr>)) < conn_load c"
proof -
  let ?c = "c\<lparr>posted := take k (posted c) @ drop (Suc k) (posted c)\<rparr>"
  let ?e = "emplace_response (fst (job_response bst (posted c ! k))) (snd (job_response bst (posted c ! k))) ?c"
  have "conn_load ?c + 4 = conn_load c" using assms(2) by (simp add: conn_load_def)
  moreover have "conn_load ?e \<le> conn_load ?c + 2" by (rule emplace_load)
  moreover have "\<not> writing ?e \<Longrightarrow> conn_load (write_next bst ?e) \<le> conn_load ?e + 1"
    using assms(1) by (intro write_next_load) (simp add: flowing_inv_def)
  ultimately show ?thesis by (auto simp: run_job_def Let_def)
qed

lemma on_write_load:
  assumes "in_flight c = Some r" "responses c (next_response_sequence_id c) = Some r"
  shows "conn_load (on_write bst ec r c) < conn_load c"
proof -
  let ?c = "c\<lparr>in_flight := None, wire := wire c @ [r],
      responses := (responses c)(next_response_sequence_id c := None),
      next_response_sequence_id := next_response_sequence_id c + 1\<rparr>"
  have "0 < card (dom (responses c))" using assms(2) by (auto simp: card_gt_0_iff)
  then have "conn_load ?c + 3 = conn_load c"
    using assms by (simp add: conn_load_def card_Diff_singleton_if domIff)
  moreover have "conn_load (write_next bst ?c) \<le> conn_load ?c + 1" by (rule write_next_load) simp
  moreover have "conn_load (close d) = conn_load d" for d :: "'a http_connection"
    by (simp add: close_def conn_load_def)
  moreover have "conn_load (c\<lparr>in_flight := None\<rparr>) < conn_load c" using assms(1) by (simp add: conn_load_def)
  ultimately show ?thesis by (auto simp: on_write_def Let_def)
qed

lemma remaining_work_connections [simp]: "remaining_work (s\<lparr>connections := m\<rparr>) = remaining_work s"
  by (simp add: remaining_work_def)

lemma backlog_connection:
  assumes "finite (dom (connections s))" "connections s cid = Some c" "conn_load c' < conn_load c"
  shows "backlog (s\<lparr>connections := (connections s)(cid \<mapsto> c')\<rparr>) < backlog s"
  using conn_load_sum [OF assms(1,2), of c'] assms(3) by (simp add: backlog_def del: dom_fun_upd)

lemma respond_backlog:
  assumes "finite (dom (connections s))" "handle bst fl process (Ev_respond w r) s = Some s'"
  shows "backlog s' < backlog s"
proof -
  from assms(2) obtain task where w: "s' = worker_respond w task r s" by (auto split: if_splits worker.splits)
  have "remaining_work s' < remaining_work s" by (rule worker_event_work [OF assms(2)]) simp
  moreover have "(\<Sum>i \<in> dom (connections s'). conn_load (the (connections s' i))) \<le>
      (\<Sum>i \<in> dom (connections s). conn_load (the (connections s i))) + 4"
  proof (cases "connections s (connection task)")
    case (Some c)
    then show ?thesis
      using conn_load_sum [OF assms(1) Some, of "send_response r (sequence_id task) c"] w
      by (simp add: worker_respond_def send_response_def conn_load_def del: dom_fun_upd)
  qed (use w in \<open>simp add: worker_respond_def fun_upd_idem\<close>)
  ultimately show ?thesis by (simp add: backlog_def)
qed

lemma own_event_backlog:
  assumes "server_inv bst process es s" "finite (dom (connections s))"
    and "handle bst fl process e s = Some s'" "own_event e"
  shows "backlog s' < backlog s"
proof -
  have inv: "conn_inv bst (answer_at bst process (requests_read cid es)) (length (requests_read cid es)) c"
    if "connections s cid = Some c" for cid c
    using server_invD(3) [OF assms(1) that] by (simp add: conn_ok_def)
  show ?thesis
  proof (cases e)
    case (Ev_respond w r)
    with respond_backlog [OF assms(2)] assms(3) show ?thesis by blast
  next
    case (Ev_job cid k)
    with assms(3) obtain c where c: "connections s cid = Some c" "k < length (posted c)"
      "s' = s\<lparr>connections := (connections s)(cid \<mapsto>
         run_job bst (posted c ! k) (c\<lparr>posted := take k (posted c) @ drop (Suc k) (posted c)\<rparr>))\<rparr>"
      by (auto split: option.splits if_splits)
    from run_job_load [OF conn_invD(2) [OF inv [OF c(1)]] c(2), of bst] show ?thesis
      unfolding c(3) by (rule backlog_connection [OF assms(2) c(1)])
  next
    case (Ev_write cid ec)
    with assms(3) obtain c r where c: "connections s cid = Some c" "in_flight c = Some r"
      "s' = s\<lparr>connections := (connections s)(cid \<mapsto> on_write bst ec r c)\<rparr>"
      by (auto split: option.splits if_splits)
    have "responses c (next_response_sequence_id c) = Some r"
      using ordered_invD(7) [OF conn_invD(1) [OF inv [OF c(1)]] c(2)] by simp
    from on_write_load [OF c(2) this, of bst ec] show ?thesis
      unfolding c(3) by (rule backlog_connection [OF assms(2) c(1)])
  qed (use assms(4) in simp_all)
qed

lemma pop_backlog:
  assumes "worker_pop bst w s = Some s'" "w < length (workers s)" "workers s ! w = Waiting"
  shows "backlog s' < backlog s"
proof -
  have "handle bst fl process (Ev_pop w) s = Some s'" for fl :: "real \<Rightarrow> real" and process :: "string \<Rightarrow> 'a \<Rightarrow> 'b \<Rightarrow> bool"
    using assms by simp
  from worker_event_work [OF this] have "remaining_work s' < remaining_work s" by simp
  moreover have "connections s' = connections s"
    using assms(1) by (auto simp: worker_pop_def split: prod.splits wait_result.splits option.splits)
  ultimately show ?thesis by (simp add: backlog_def)
qed

lemma attempt_decreases:
  assumes "w \<in> restless s"
  shows "(attempt bst w s, s) \<in> own_order"
proof (cases "worker_pop bst w (server s)")
  case None
  have "restless (s\<lparr>asleep := w # asleep s\<rparr>) \<subset> restless s" "finite (restless s)"
    using assms by (auto simp: restless_def)
  with None show ?thesis by (simp add: attempt_def own_order_def psubset_card_mono)
next
  case (Some s')
  with pop_backlog [OF Some] assms show ?thesis by (simp add: attempt_def own_order_def restless_def)
qed

lemma remove1_shorter: "x \<in> set xs \<Longrightarrow> length (remove1 x xs) < length xs"
  using length_pos_if_in_set [of x xs] by (simp add: length_remove1)

lemma own_action_decreases:
  assumes "server_inv bst process es (server s)" "finite (dom (connections (server s)))" "sleepers_ok s"
    and "act bst fl process a s = Some s'" "own_action a"
  shows "(s', s) \<in> own_order"
proof (cases a)
  case (Serve e)
  with assms own_event_backlog [OF assms(1,2)] show ?thesis by (auto simp: own_order_def split: if_splits)
next
  case (Call_wait w)
  with assms(4) have "w \<in> restless s" "s' = attempt bst w s"
    by (auto simp: at_loop_head_def restless_def split: if_splits worker.splits)
  then show ?thesis by (simp add: attempt_decreases)
next
  case (Look_again w)
  let ?s = "s\<lparr>woken := remove1 w (woken s)\<rparr>"
  from Look_again assms(4) have "w \<in> set (woken s)" "s' = attempt bst w ?s" by (auto split: if_splits)
  moreover from this assms(3) have "w \<in> restless ?s" by (auto simp: sleepers_ok_def restless_def)
  moreover have "(t, ?s) \<in> own_order \<longleftrightarrow> (t, s) \<in> own_order" for t by (simp add: own_order_def restless_def)
  ultimately show ?thesis using attempt_decreases by blast
qed (use assms(4,5) in \<open>auto simp: own_order_def remove1_shorter split: if_splits\<close>)

text \<open>No step of its own is left to the server.\<close>

definition idle ::
    "('rq, 'rs, 'z) beast_scheme \<Rightarrow> (real \<Rightarrow> real) \<Rightarrow> (string \<Rightarrow> 'rq \<Rightarrow> 'rs \<Rightarrow> bool) \<Rightarrow> ('rq, 'rs) waiting_server \<Rightarrow> bool" where
  "idle bst fl process s \<longleftrightarrow> (\<forall>a. own_action a \<longrightarrow> act bst fl process a s = None)"

lemma idleD: "idle bst fl process s \<Longrightarrow> own_action a \<Longrightarrow> act bst fl process a s = None"
  by (simp add: idle_def)

lemma ended_drained:
  "server_run bst fl process es s \<Longrightarrow> Ended \<in> set (workers s) \<Longrightarrow>
   stopped (request_queue s) \<and> dequeue (request_queue s) = []"
proof (induction rule: server_run.induct)
  case (constructed n ms mb mt rate s)
  then show ?case by (auto simp: new_request_server_def split: sum.splits)
next
  case (event es s e s')
  show ?case
  proof (cases "\<exists>w. e = Ev_pop w")
    case True
    then obtain w where e: "e = Ev_pop w" by blast
    with event.hyps(3) have "w < length (workers s)" "worker_pop bst w s = Some s'"
      by (auto split: if_splits worker.splits)
    with event.prems event.IH show ?thesis
      by (auto simp: worker_pop_def wait_and_pop_def wait_predicate_def
          split: if_splits list.splits dest!: set_update_subset_insert [THEN subsetD])
  next
    case False
    then have np: "\<not> pops e" by (cases e) simp_all
    have "Ended \<in> set (workers s)"
      using event.prems event.hyps(3) False
      by (cases e) (auto simp: on_accept_def on_accept_error_def on_read_event_def worker_respond_def
          stop_queue_def join_workers_def join_self_def Let_def split_beta
          split: if_splits option.splits worker.splits caller.splits dest!: set_update_subset_insert [THEN subsetD])
    with event.IH have q: "stopped (request_queue s)" "dequeue (request_queue s) = []" by simp_all
    with handle_event_call [OF event.hyps(3) np] event_call_cases [of e s] show ?thesis
      by (auto simp: stop_def try_push_back_def pre_addition_check_protocol_def split: option.splits)
  qed
qed

lemma idle_signals:
  assumes "idle bst fl process s" "Notify_none \<notin> set (signals s)"
  shows "signals s = []" and "woken s = []" and "\<not> at_loop_head w s"
proof -
  have "Notify_all \<notin> set (signals s)" using idleD [OF assms(1), of Notify_everybody] by (auto split: if_splits)
  moreover have "Notify_one \<notin> set (signals s)"
  proof (cases "asleep s")
    case Nil
    then show ?thesis using idleD [OF assms(1), of Notify_nobody] by (auto split: if_splits)
  next
    case (Cons w ws)
    then show ?thesis using idleD [OF assms(1), of "Notify_sleeper w"] by (auto split: if_splits)
  qed
  ultimately have "n \<notin> set (signals s)" for n using assms(2) by (cases n) simp_all
  then show "signals s = []" by (metis last_in_set)
  have "w \<notin> set (woken s)" for w using idleD [OF assms(1), of "Look_again w"] by (auto split: if_splits)
  then show "woken s = []" by (metis last_in_set)
  show "\<not> at_loop_head w s" using idleD [OF assms(1), of "Call_wait w"] by (auto split: if_splits)
qed

lemma idle_not_processing:
  assumes "idle bst fl process s" "\<And>ip req. \<exists>r. process ip req r" "\<And>w. \<not> in_stop w (base (server s))"
  shows "processing (workers (server s)) = {}"
proof -
  have "workers (server s) ! w \<noteq> Processing task" if "w < length (workers (server s))" for w task
  proof
    assume w: "workers (server s) ! w = Processing task"
    obtain r where "process (client_ip task) (task_request task) r" using assms(2) by blast
    with w that idleD [OF assms(1), of "Serve (Ev_respond w r)"] assms(3) show False by (simp add: may_serve_def)
  qed
  then show ?thesis by (auto simp: processing_def in_set_conv_nth)
qed

lemma idle_workers:
  assumes "waiting_run bst fl process es s" "idle bst fl process s" "\<And>ip req. \<exists>r. process ip req r"
    and "\<And>w. \<not> in_stop w (base (server s))"
  shows "workers (server s) = [] \<or> dequeue (request_queue (server s)) = []"
    and "stopped (request_queue (server s)) \<Longrightarrow> list_all (\<lambda>w. w = Ended) (workers (server s))"
proof -
  let ?q = "request_queue (server s)" and ?ws = "workers (server s)"
  note rest = idle_signals [OF assms(2) waiting_run_signals [OF assms(1)]]
  have state: "?ws ! w = Ended \<or> w \<in> set (asleep s)" if "w < length ?ws" for w
    using rest(2) rest(3) [of w] idle_not_processing [OF assms(2-4)] that
    by (cases "?ws ! w") (auto simp: at_loop_head_def processing_def dest: nth_mem)
  show "?ws = [] \<or> dequeue ?q = []"
  proof (cases "asleep s = []")
    case True
    with state have "?ws = [] \<or> Ended \<in> set ?ws" by (cases ?ws) force+
    with ended_drained [OF waiting_run_refines [OF assms(1)]] show ?thesis by blast
  next
    case False
    with waiting_run_covers(1) [OF assms(1)] rest show ?thesis by simp
  qed
  assume "stopped ?q"
  with waiting_run_covers(2) [OF assms(1)] rest(1) have "asleep s = []" by (cases "asleep s = []") simp_all
  with state show "list_all (\<lambda>w. w = Ended) ?ws" by (simp add: list_all_length)
qed

lemma idle_connection:
  assumes "idle bst fl process s" "Notify_none \<notin> set (signals s)" "io_running (base (server s))"
    and "connections (server s) cid = Some c"
  shows "posted c = []" and "in_flight c = None"
proof -
  note none = idle_signals(1) [OF assms(1,2)]
  show "posted c = []"
    using idleD [OF assms(1), of "Serve (Ev_job cid 0)"] none assms(3,4) by (simp add: may_serve_def split: if_splits)
  show "in_flight c = None"
    using idleD [OF assms(1), of "Serve (Ev_write cid False)"] none assms(3,4)
    by (auto simp: may_serve_def split: option.splits)
qed

text \<open>Own actions leave the server alive, running and with the requests it has read.\<close>

lemma own_action_frame:
  assumes "act bst fl process a s = Some s'" "own_action a" "alive (server s)"
  shows "alive (server s')" "base (server s') = base (server s)" "requests_read cid (performed bst a s) = []"
    "length (workers (server s')) = length (workers (server s))"
proof -
  have attempt: "aborted (server (attempt bst w t)) = aborted (server t) \<and> base (server (attempt bst w t)) = base (server t)
      \<and> length (workers (server (attempt bst w t))) = length (workers (server t))" for w and t :: "('a, 'b) waiting_server"
    by (auto simp: attempt_def worker_pop_def split: option.splits prod.splits wait_result.splits)
  have serve: "aborted t' = aborted t \<and> base t' = base t \<and> length (workers t') = length (workers t)"
    if "handle bst fl process e t = Some t'" "own_event e" for e t t'
    using that by (cases e) (auto simp: worker_respond_def split: if_splits option.splits worker.splits)
  have "aborted (server s') = aborted (server s) \<and> base (server s') = base (server s)
      \<and> length (workers (server s')) = length (workers (server s))"
    using assms(1,2) by (cases a) (auto simp: attempt serve split: if_splits)
  then show "alive (server s')" "base (server s') = base (server s)"
    "length (workers (server s')) = length (workers (server s))"
    using assms(3) by (simp_all add: alive_def)
  show "requests_read cid (performed bst a s) = []"
  proof (cases a)
    case (Serve e)
    with assms(2) show ?thesis by (cases e) (simp_all add: requests_read_def)
  qed (simp_all add: requests_read_def)
qed

lemma waiting_run_inv:
  assumes "beast_laws bst" "waiting_run bst fl process es s" "alive (server s)"
    and "\<forall>cid. length (requests_read cid es) < 2 ^ 64"
  shows "server_inv bst process es (server s)" "finite (dom (connections (server s)))"
  using server_run_inv_reads [OF assms(1) waiting_run_refines [OF assms(2)] assms(4)] assms(3)
    server_run_limiter [OF waiting_run_refines [OF assms(2)]]
  by (auto simp: alive_def)

lemma requests_read_append: "requests_read cid (es @ es') = requests_read cid es @ requests_read cid es'"
  by (simp add: requests_read_def)

lemma becomes_idle:
  assumes "beast_laws bst" "waiting_run bst fl process es s" "alive (server s)"
    and "\<forall>cid. length (requests_read cid es) < 2 ^ 64"
  shows "\<exists>es' s'. waiting_run bst fl process (es @ es') s' \<and> idle bst fl process s' \<and> alive (server s')
    \<and> base (server s') = base (server s) \<and> length (workers (server s')) = length (workers (server s))
    \<and> (\<forall>cid. requests_read cid es' = [])"
  using assms(2-4)
proof (induction s arbitrary: es rule: wf_induct_rule [OF wf_own_order])
  case (1 s)
  show ?case
  proof (cases "idle bst fl process s")
    case True
    with 1(2,3) show ?thesis by (intro exI [of _ "[]"] exI [of _ s]) (simp add: requests_read_def)
  next
    case False
    then obtain a s1 where a: "own_action a" "act bst fl process a s = Some s1" by (auto simp: idle_def)
    note frame = own_action_frame [OF a(2,1) 1(3)]
    have "(s1, s) \<in> own_order"
      by (rule own_action_decreases [OF waiting_run_inv [OF assms(1) 1(2-4)] waiting_run_sleepers [OF 1(2)] a(2,1)])
    moreover have "waiting_run bst fl process (es @ performed bst a s) s1"
      by (rule waiting_run.take_action [OF 1(2,3) a(2)])
    ultimately obtain es' s' where
      "waiting_run bst fl process ((es @ performed bst a s) @ es') s' \<and> idle bst fl process s' \<and> alive (server s')
        \<and> base (server s') = base (server s1) \<and> length (workers (server s')) = length (workers (server s1))
        \<and> (\<forall>cid. requests_read cid es' = [])"
      using 1(1) [of s1 "es @ performed bst a s"] frame 1(4) by (auto simp: requests_read_append)
    with frame show ?thesis
      by (intro exI [of _ "performed bst a s @ es'"] exI [of _ s']) (simp add: requests_read_append)
  qed
qed

section \<open>An example run\<close>

fun run_actions ::
    "('rq, 'rs, 'z) beast_scheme \<Rightarrow> (real \<Rightarrow> real) \<Rightarrow> (string \<Rightarrow> 'rq \<Rightarrow> 'rs \<Rightarrow> bool) \<Rightarrow>
     ('rq, 'rs) action list \<Rightarrow> ('rq, 'rs) event list \<times> ('rq, 'rs) waiting_server \<Rightarrow>
     (('rq, 'rs) event list \<times> ('rq, 'rs) waiting_server) option" where
  "run_actions bst fl process [] t = Some t"
| "run_actions bst fl process (a # as) (es, s) =
     (if alive (server s)
      then Option.bind (act bst fl process a s) (\<lambda>s'. run_actions bst fl process as (es @ performed bst a s, s'))
      else None)"

lemma run_actions_run:
  "waiting_run bst fl process es s \<Longrightarrow> run_actions bst fl process as (es, s) = Some (es', s') \<Longrightarrow>
   waiting_run bst fl process es' s'"
proof (induction as arbitrary: es s)
  case (Cons a as)
  from Cons.prems(2) obtain s1 where "alive (server s)" "act bst fl process a s = Some s1"
      "run_actions bst fl process as (es @ performed bst a s, s1) = Some (es', s')"
    by (auto simp: bind_eq_Some_conv split: if_splits)
  with Cons.IH Cons.prems(1) show ?case by (blast intro: waiting_run.take_action)
qed simp

text \<open>
  Both workers sleep, two requests arrive, the first is notified to worker 0, which has not yet
  looked again; the second has not been notified.
\<close>

definition waiting_actions :: "(string, string \<times> bool) action list" where
  "waiting_actions =
     [Serve (Ev_base Launch), Call_wait 0, Call_wait 1, Serve (Ev_accept 0 (Some ''ip'') 7),
      Serve (Ev_read 0 ''a'' (Some ''ip'')), Notify_sleeper 0, Serve (Ev_read 0 ''b'' (Some ''ip''))]"

definition waiting_demo :: "(string, string \<times> bool) waiting_server" where
  "waiting_demo =
     \<lparr>server = demo_server\<lparr>
        connections := [0 \<mapsto> demo_connection\<lparr>responses := Map.empty\<rparr>],
        request_queue := (new_queue 8 100)\<lparr>current_bytes := 2, dequeue :=
          [\<lparr>connection = 0, task_request = ''a'', client_ip = ''ip'', sequence_id = 0\<rparr>,
           \<lparr>connection = 0, task_request = ''b'', client_ip = ''ip'', sequence_id = 1\<rparr>]\<rparr>,
        workers := [Waiting, Waiting]\<rparr>,
      asleep = [1], woken = [0], signals = [Notify_one]\<rparr>"

lemma waiting_demo_run:
  "waiting_run plain_beast exact echo
     [Ev_base Launch, Ev_accept 0 (Some ''ip'') 7, Ev_read 0 ''a'' (Some ''ip''), Ev_read 0 ''b'' (Some ''ip'')]
     waiting_demo"
  by (rule run_actions_run [OF waiting_run.begin_run [OF demo_started], of waiting_actions])
    (simp add: waiting_actions_def waiting_demo_def demo_start_def demo_server_def demo_connection_def
      attempt_def at_loop_head_def may_serve_def event_signals_def server_eval Let_def)

lemma waiting_demo_alive: "alive (server waiting_demo)"
  by (simp add: waiting_demo_def demo_server_def server_eval)

section \<open>Properties\<close>

text \<open>
  A server that has no step left to take by itself has answered everything: nothing is
  signalled, woken, processed, posted or written, and only clients, the application or a spurious
  wake-up can move the system.
\<close>

lemma idle_answered:
  assumes "beast_laws bst" "waiting_run bst fl process es s" "alive (server s)"
    and "\<forall>cid. length (requests_read cid es) < 2 ^ 64" "\<And>ip req. \<exists>r. process ip req r"
    and "\<And>w. \<not> in_stop w (base (server s))"
    and "workers (server s) \<noteq> []" "io_running (base (server s))" "idle bst fl process s"
    and "connections (server s) cid = Some c" "socket_open c"
  shows "length (wire c) = length (requests_read cid es)"
proof (rule conn_ok_rest)
  have "tasks (server s) = {}"
    using idle_workers(1) [OF assms(2,9,5,6)] assms(7) idle_not_processing [OF assms(9,5,6)] by (simp add: tasks_def)
  with server_invD(3) [OF waiting_run_inv(1) [OF assms(1-4)] assms(10)]
  show "conn_ok bst process (requests_read cid es) {} cid c" by simp
  show "posted c = []" "in_flight c = None"
    using idle_connection [OF assms(9) waiting_run_signals [OF assms(2)] assms(8,10)] by simp_all
qed (rule assms(11))

text \<open>
  C3: The server catches up. From every state that the server can reach with its workers on the
  condition variable (asleep, notified, woken spuriously or at work), as long as the
  application answers, there is a worker and none of them is in \<open>stop\<close>, it comes without any further input to a state in
  which on every connection still open every request read has been answered. However the
  server's own steps are scheduled it gets there: each of them makes \<open>own_order\<close>, which is well
  founded, decrease, and where none is possible everything has been answered.
\<close>

theorem server_catches_up:
  fixes s :: "('rq, 'rs) waiting_server"
  assumes "beast_laws bst" and "waiting_run bst fl process es s" and "alive (server s)"
    and "\<forall>cid. length (requests_read cid es) < 2 ^ 64" and "\<And>ip req. \<exists>r. process ip req r"
    and "\<And>w. \<not> in_stop w (base (server s))" and "workers (server s) \<noteq> []" and "io_running (base (server s))"
  shows "(\<exists>es' s'. waiting_run bst fl process (es @ es') s' \<and> (\<forall>cid. requests_read cid es' = []) \<and>
      (\<forall>cid c. connections (server s') cid = Some c \<longrightarrow> socket_open c \<longrightarrow>
         length (wire c) = length (requests_read cid es))) \<and>
    (own_action a \<longrightarrow> act bst fl process a s = Some s1 \<longrightarrow> (s1, s) \<in> own_order) \<and>
    wf (own_order :: (('rq, 'rs) waiting_server \<times> ('rq, 'rs) waiting_server) set) \<and>
    (idle bst fl process s \<longrightarrow> connections (server s) cid = Some c \<longrightarrow> socket_open c \<longrightarrow>
       length (wire c) = length (requests_read cid es))"
proof -
  obtain es' s' where s': "waiting_run bst fl process (es @ es') s'" "idle bst fl process s'" "alive (server s')"
      "base (server s') = base (server s)" "length (workers (server s')) = length (workers (server s))"
      and reads: "requests_read cid es' = []" for cid
    using becomes_idle [OF assms(1-4)] by blast
  have "length (wire c) = length (requests_read cid es)"
    if "connections (server s') cid = Some c" "socket_open c" for cid c
    using idle_answered [OF assms(1) s'(1,3) _ assms(5) _ _ _ s'(2) that] s'(4,5) assms(4,6-8) reads
    by (simp add: requests_read_append) (metis length_0_conv)
  moreover have "own_action a \<Longrightarrow> act bst fl process a s = Some s1 \<Longrightarrow> (s1, s) \<in> own_order"
    by (rule own_action_decreases [OF waiting_run_inv [OF assms(1-4)] waiting_run_sleepers [OF assms(2)]])
  ultimately show ?thesis
    using s'(1) reads wf_own_order idle_answered [OF assms, of cid c] by blast
qed

lemma server_catches_up_witness:
  "\<exists>es' s'. waiting_run plain_beast exact echo
      ([Ev_base Launch, Ev_accept 0 (Some ''ip'') 7, Ev_read 0 ''a'' (Some ''ip''), Ev_read 0 ''b'' (Some ''ip'')] @ es') s'
    \<and> (\<forall>c. connections (server s') 0 = Some c \<longrightarrow> socket_open c \<longrightarrow> length (wire c) = 2)"
proof -
  let ?es = "[Ev_base Launch, Ev_accept 0 (Some ''ip'') 7, Ev_read 0 ''a'' (Some ''ip''), Ev_read 0 ''b'' (Some ''ip'')]
    :: (string, string \<times> bool) event list"
  have reads: "requests_read cid ?es = (if cid = 0 then [(''ip'', ''a''), (''ip'', ''b'')] else [])" for cid
    by (simp add: requests_read_def)
  have total: "\<exists>r. echo ip req r" for ip req by (simp add: echo_def)
  have bound: "\<forall>cid. length (requests_read cid ?es) < 2 ^ 64"
    and ready: "\<not> in_stop w (base (server waiting_demo))" "workers (server waiting_demo) \<noteq> []" "io_running (base (server waiting_demo))"
    for w by (simp_all add: reads waiting_demo_def demo_server_def base_defs base_examples in_stop_def)
  from server_catches_up [OF plain_beast_laws waiting_demo_run waiting_demo_alive bound total ready] obtain es' s' where
    "waiting_run plain_beast exact echo (?es @ es') s'"
    "\<forall>cid c. connections (server s') cid = Some c \<longrightarrow> socket_open c \<longrightarrow> length (wire c) = length (requests_read cid ?es)"
    by blast
  then show ?thesis by (intro exI [of _ es'] exI [of _ s']) (simp add: reads)
qed

text \<open>
  C19: The workers do not sleep through the stop: on a stopped queue, when no step of their own
  is left to the workers and the notifying threads, every worker has ended, so that the joins of
  \<open>request_server_base::stop\<close> return (where no worker is itself in \<open>stop\<close>); and as long as it is not so some such step is possible.
\<close>

theorem stop_wakes_workers:
  assumes "waiting_run bst fl process es s" and "\<And>ip req. \<exists>r. process ip req r"
    and "\<And>w. \<not> in_stop w (base (server s))" and "stopped (request_queue (server s))"
  shows "list_all (\<lambda>w. w = Ended) (workers (server s)) \<or>
    (\<exists>a s'. own_action a \<and> act bst fl process a s = Some s')"
proof (cases "idle bst fl process s")
  case True
  with idle_workers(2) [OF assms(1) _ assms(2,3)] assms(4) show ?thesis by blast
next
  case False
  then show ?thesis by (auto simp: idle_def)
qed

text \<open>Both workers sleep and the stop has just marked the queue; its \<open>notify_all\<close> is still to come.\<close>

definition stop_actions :: "(string, string \<times> bool) action list" where
  "stop_actions =
     [Call_wait 0, Call_wait 1, Serve (Ev_base (Try_stop Application_thread)), Serve (Ev_base Stop_context),
      Serve (Ev_base Base_stop_returns), Serve Ev_queue_stop]"

definition stop_demo :: "(string, string \<times> bool) waiting_server" where
  "stop_demo =
     \<lparr>server = demo_start\<lparr>
        base := fresh_base\<lparr>context_stopped := True, stopping := True, stop_progress := Queue_stopped\<rparr>,
        request_queue := (new_queue 8 100)\<lparr>stopped := True\<rparr>\<rparr>,
      asleep = [1, 0], woken = [], signals = [Notify_all]\<rparr>"

lemma stop_demo_run:
  "waiting_run plain_beast exact echo
     [Ev_base (Try_stop Application_thread), Ev_base Stop_context, Ev_base Base_stop_returns, Ev_queue_stop] stop_demo"
  by (rule run_actions_run [OF waiting_run.begin_run [OF demo_started], of stop_actions])
    (simp add: stop_actions_def stop_demo_def demo_start_def attempt_def at_loop_head_def may_serve_def
      event_signals_def stop_queue_def stop_def server_eval Let_def)

lemma stop_wakes_workers_witness:
  "\<exists>a s'. own_action a \<and> act plain_beast exact echo a stop_demo = Some s'"
proof -
  have "\<exists>r. echo ip req r" for ip req by (simp add: echo_def)
  from stop_wakes_workers [OF stop_demo_run this] show ?thesis
    by (simp add: stop_demo_def demo_start_def in_stop_def base_examples)
qed

end
