(* ===== verification/Request_Service.thy ===== *)
theory Request_Service
  imports Request_Waiting
begin

text \<open>
  What the request server promises its clients, as a specification without queue, workers,
  sequence numbers, posted handlers or threads: per connection a dialogue of the requests asked
  and the responses given, in which a response always answers the oldest open request and
  nothing follows a response that ends the connection. The server refines it: each of its
  events is a step of the specification or invisible.
\<close>

section \<open>The specification\<close>

record ('rq, 'rs) dialogue =
  asked :: "(string \<times> 'rq) list"
  replied :: "'rs list"

type_synonym ('rq, 'rs) service = "nat \<rightharpoonup> ('rq, 'rs) dialogue"

datatype ('rq, 'rs) label = Connected nat | Asked nat "string \<times> 'rq" | Replied nat 'rs

definition new_dialogue :: "('rq, 'rs) dialogue" where
  "new_dialogue = \<lparr>asked = [], replied = []\<rparr>"

inductive service_step ::
    "('rq, 'rs, 'z) beast_scheme \<Rightarrow> (string \<Rightarrow> 'rq \<Rightarrow> 'rs \<Rightarrow> bool) \<Rightarrow>
     ('rq, 'rs) service \<Rightarrow> ('rq, 'rs) label \<Rightarrow> ('rq, 'rs) service \<Rightarrow> bool"
  for bst process where
  connect: "m cid = None \<Longrightarrow> service_step bst process m (Connected cid) (m(cid \<mapsto> new_dialogue))"
| ask: "m cid = Some d \<Longrightarrow>
     service_step bst process m (Asked cid rq) (m(cid \<mapsto> d\<lparr>asked := asked d @ [rq]\<rparr>))"
| reply: "\<lbrakk> m cid = Some d; length (replied d) < length (asked d);
       answers bst process (asked d ! length (replied d)) r; list_all (keep_alive bst) (replied d) \<rbrakk> \<Longrightarrow>
     service_step bst process m (Replied cid (prepare_payload bst r))
       (m(cid \<mapsto> d\<lparr>replied := replied d @ [prepare_payload bst r]\<rparr>))"

inductive service_run ::
    "('rq, 'rs, 'z) beast_scheme \<Rightarrow> (string \<Rightarrow> 'rq \<Rightarrow> 'rs \<Rightarrow> bool) \<Rightarrow>
     ('rq, 'rs) label list \<Rightarrow> ('rq, 'rs) service \<Rightarrow> bool"
  for bst process where
  nothing_said: "service_run bst process [] Map.empty"
| said: "\<lbrakk> service_run bst process ls m; service_step bst process m l m' \<rbrakk> \<Longrightarrow>
     service_run bst process (ls @ [l]) m'"

section \<open>Abstraction\<close>

definition service_of :: "('rq, 'rs) event list \<Rightarrow> ('rq, 'rs) request_server \<Rightarrow> ('rq, 'rs) service" where
  "service_of es s =
     (\<lambda>cid. map_option (\<lambda>c. \<lparr>asked = requests_read cid es, replied = wire c\<rparr>) (connections s cid))"

text \<open>What a client sees of an event in state \<open>s\<close>.\<close>

fun observation :: "(real \<Rightarrow> real) \<Rightarrow> ('rq, 'rs) event \<Rightarrow> ('rq, 'rs) request_server \<Rightarrow> ('rq, 'rs) label option" where
  "observation fl (Ev_accept cid (Some ip) now) s =
     (if fst (consume fl now ip 1 (ip_rate_limiter s)) then Some (Connected cid) else None)"
| "observation fl (Ev_read cid req (Some ip)) s = Some (Asked cid (ip, req))"
| "observation fl (Ev_write cid False) s =
     (case connections s cid of
        Some c \<Rightarrow> map_option (Replied cid) (in_flight c)
      | None \<Rightarrow> None)"
| "observation fl _ s = None"

lemma service_unchanged:
  assumes "\<And>cid. read_by cid e = []" "\<And>cid. map_option wire (connections s' cid) = map_option wire (connections s cid)"
  shows "service_of (es @ [e]) s' = service_of es s"
proof
  fix cid
  show "service_of (es @ [e]) s' cid = service_of es s cid"
    using assms(1) [of cid] assms(2) [of cid]
    by (cases "connections s cid"; cases "connections s' cid") (simp_all add: service_of_def)
qed

lemma wire_frame [simp]:
  "wire (run_job bst j c) = wire c" "wire (send_response r sid c) = wire c" "wire (close c) = wire c"
  by (simp_all add: run_job_def write_next_def send_response_def close_def Let_def split: option.splits)

lemma on_read_wire: "wire (fst (snd (on_read bst self result ip c q))) = wire c"
  by (auto simp: on_read_def close_def reject_overloaded_def read_def Let_def split_beta split: sum.splits option.splits)

lemma silent_wires:
  assumes "handle bst fl process e s = Some s'" "observation fl e s = None"
  shows "map_option wire (connections s' cid) = map_option wire (connections s cid)"
  using assms
proof (cases "(fl, e, s)" rule: observation.cases)
  case (3 fl cid s)
  with assms show ?thesis by (auto split: option.splits if_splits)
qed (auto simp: on_accept_def on_accept_error_def on_read_event_def on_read_wire worker_pop_def worker_respond_def
    on_write_def stop_queue_def join_workers_def join_self_def Let_def split_beta option.map_comp comp_def
    split: if_splits option.splits worker.splits caller.splits wait_result.splits)

lemma silent_reads:
  assumes "observation fl e s = None"
  shows "read_by cid e = []"
  using assms by (cases "(fl, e, s)" rule: observation.cases) simp_all

section \<open>Refinement\<close>

lemma accept_observed:
  assumes "handle bst fl process (Ev_accept cid (Some ip) now) s = Some s'"
    and "fst (consume fl now ip 1 (ip_rate_limiter s))" "requests_read cid es = []"
  shows "service_step bst process (service_of es s) (Connected cid) (service_of (es @ [Ev_accept cid (Some ip) now]) s')"
proof -
  from assms(1) have none: "connections s cid = None" and s': "s' = on_accept fl cid (Some ip) now s"
    by (auto split: if_splits)
  have "service_of (es @ [Ev_accept cid (Some ip) now]) s' = (service_of es s)(cid \<mapsto> new_dialogue)"
    using assms(2,3) s'
    by (auto simp: service_of_def on_accept_def split_beta fun_eq_iff new_dialogue_def start_def read_def
        new_http_connection_def)
  moreover have "service_of es s cid = None" using none by (simp add: service_of_def)
  ultimately show ?thesis by (simp add: service_step.connect)
qed

lemma read_observed:
  assumes "handle bst fl process (Ev_read cid req (Some ip)) s = Some s'"
  shows "service_step bst process (service_of es s) (Asked cid (ip, req)) (service_of (es @ [Ev_read cid req (Some ip)]) s')"
proof -
  from assms obtain c where c: "connections s cid = Some c" "s' = on_read_event bst cid (Inr req) (Some ip) c s"
    by (auto split: option.splits if_splits)
  let ?d = "\<lparr>asked = requests_read cid es, replied = wire c\<rparr>"
  have "service_of es s cid = Some ?d" using c(1) by (simp add: service_of_def)
  moreover have "service_of (es @ [Ev_read cid req (Some ip)]) s' = (service_of es s)(cid \<mapsto> ?d\<lparr>asked := asked ?d @ [(ip, req)]\<rparr>)"
    using c by (auto simp: service_of_def on_read_event_def split_beta on_read_wire fun_eq_iff)
  ultimately show ?thesis using service_step.ask [of "service_of es s" cid ?d] by simp
qed

lemma write_observed:
  assumes "beast_laws bst" "server_inv bst process es s" "length (requests_read cid es) < 2 ^ 64"
    and "handle bst fl process (Ev_write cid False) s = Some s'"
    and "connections s cid = Some c" "in_flight c = Some r"
  shows "service_step bst process (service_of es s) (Replied cid r) (service_of (es @ [Ev_write cid False]) s')"
proof -
  let ?rs = "requests_read cid es" and ?d = "\<lparr>asked = requests_read cid es, replied = wire c\<rparr>"
  have inv: "conn_inv bst (answer_at bst process ?rs) (length ?rs) c"
    using server_invD(3) [OF assms(2,5)] by (simp add: conn_ok_def)
  obtain r0 where r: "responses c (next_response_sequence_id c) = Some r" "r = prepare_payload bst r0"
    using ordered_invD(7) [OF conn_invD(1) [OF inv] assms(6)] by blast
  note next_r = conn_inv_next_response [OF inv assms(3) r(1)]
  obtain r1 where r1: "answers bst process (?rs ! length (wire c)) r1" "r = prepare_payload bst r1"
    using held_prepared [OF assms(1) next_r(2)] r(2) assms(1)
    by (auto simp: sent_def answer_at_def beast_laws_def)
  have "list_all (keep_alive bst) (wire c)"
    using conn_invD(3) [OF inv] assms(6) by (auto simp: closing_inv_def list_all_length)
  moreover have "service_of es s cid = Some ?d" using assms(5) by (simp add: service_of_def)
  moreover have "service_of (es @ [Ev_write cid False]) s' = (service_of es s)(cid \<mapsto> ?d\<lparr>replied := replied ?d @ [r]\<rparr>)"
    using assms(4-6) by (auto simp: service_of_def on_write_wire fun_eq_iff split: if_splits)
  ultimately show ?thesis
    using service_step.reply [of "service_of es s" cid ?d bst process r1] next_r(1) r1 by simp
qed

lemma handle_observed:
  assumes "beast_laws bst" "server_inv bst process es s" "\<And>cid. length (requests_read cid es) < 2 ^ 64"
    and "handle bst fl process e s = Some s'"
  shows "case observation fl e s of
      None \<Rightarrow> service_of (es @ [e]) s' = service_of es s
    | Some l \<Rightarrow> service_step bst process (service_of es s) l (service_of (es @ [e]) s')"
proof (cases "observation fl e s")
  case None
  with service_unchanged [OF silent_reads [OF None] silent_wires [OF assms(4) None]] show ?thesis by simp
next
  case (Some l)
  then consider (opened) cid ip now where "e = Ev_accept cid (Some ip) now" "l = Connected cid"
        "fst (consume fl now ip 1 (ip_rate_limiter s))"
    | (arrived) cid req ip where "e = Ev_read cid req (Some ip)" "l = Asked cid (ip, req)"
    | (written) cid c r where "e = Ev_write cid False" "connections s cid = Some c" "in_flight c = Some r" "l = Replied cid r"
    by (cases "(fl, e, s)" rule: observation.cases) (auto split: if_splits option.splits)
  then show ?thesis
  proof cases
    case opened
    moreover from opened assms(4) have "connections s cid = None" by (auto split: if_splits)
    ultimately show ?thesis
      using accept_observed [OF _ opened(3) server_invD(2) [OF assms(2)]] assms(4) Some by simp
  next
    case arrived
    with read_observed assms(4) Some show ?thesis by simp
  next
    case written
    with write_observed [OF assms(1-3) _ written(2,3)] assms(4) Some show ?thesis by simp
  qed
qed

text \<open>A run together with what the clients have seen of it.\<close>

inductive observed_run ::
    "('rq, 'rs, 'z) beast_scheme \<Rightarrow> (real \<Rightarrow> real) \<Rightarrow> (string \<Rightarrow> 'rq \<Rightarrow> 'rs \<Rightarrow> bool) \<Rightarrow>
     ('rq, 'rs) label list \<Rightarrow> ('rq, 'rs) event list \<Rightarrow> ('rq, 'rs) request_server \<Rightarrow> bool"
  for bst fl process where
  nothing_seen: "server_run bst fl process [] s \<Longrightarrow> observed_run bst fl process [] [] s"
| seen: "\<lbrakk> observed_run bst fl process ls es s; alive s; handle bst fl process e s = Some s' \<rbrakk> \<Longrightarrow>
     observed_run bst fl process (ls @ (case observation fl e s of None \<Rightarrow> [] | Some l \<Rightarrow> [l])) (es @ [e]) s'"

lemma observed_run_server: "observed_run bst fl process ls es s \<Longrightarrow> server_run bst fl process es s"
  by (induction rule: observed_run.induct) (simp_all add: server_run.event)

lemma server_run_observed: "server_run bst fl process es s \<Longrightarrow> \<exists>ls. observed_run bst fl process ls es s"
proof (induction rule: server_run.induct)
  case (constructed n ms mb mt rate s)
  then show ?case by (blast intro: observed_run.nothing_seen server_run.constructed)
next
  case (event es s e s')
  then show ?case by (blast intro: observed_run.seen)
qed

lemma observed_run_refines:
  assumes "beast_laws bst" "observed_run bst fl process ls es s" "\<forall>cid. length (requests_read cid es) < 2 ^ 64"
  shows "service_run bst process ls (service_of es s)"
  using assms(2,3)
proof (induction rule: observed_run.induct)
  case (nothing_seen s)
  then have "connections s = Map.empty"
    by (cases rule: server_run.cases) (auto simp: new_request_server_def split: sum.splits)
  then show ?case by (simp add: service_of_def service_run.nothing_said)
next
  case (seen ls es s e s')
  have bound: "length (requests_read cid es) < 2 ^ 64" for cid using spec [OF seen.prems, of cid] by simp
  then have "server_inv bst process es s"
    using server_run_inv_reads [OF assms(1) observed_run_server [OF seen.hyps(1)]] seen.hyps(2)
    by (simp add: alive_def)
  from handle_observed [OF assms(1) this bound seen.hyps(3)] seen.IH bound show ?case
    by (auto intro: service_run.said split: option.splits)
qed

text \<open>
  C4: The request server refines its specification: whatever clients see of a run (connections
  accepted, requests read, responses written completely, in this order) is a trace of the
  abstract service, in which a response always answers the oldest open request of its connection
  and nothing follows a response that ends it; the requests read and the responses on the wires are the abstract state.
  This holds with the workers on the condition variable, for every interleaving.
\<close>

theorem server_refines_service:
  assumes "beast_laws bst" and "waiting_run bst fl process es s" and "\<forall>cid. length (requests_read cid es) < 2 ^ 64"
  shows "(\<exists>ls. observed_run bst fl process ls es (server s)) \<and>
    (\<forall>ls. observed_run bst fl process ls es (server s) \<longrightarrow> service_run bst process ls (service_of es (server s)))"
  using server_run_observed [OF waiting_run_refines [OF assms(2)]] observed_run_refines [OF assms(1) _ assms(3)]
  by blast

lemma server_refines_service_witness:
  "\<exists>ls. service_run plain_beast echo ls
     [0 \<mapsto> \<lparr>asked = [(''ip'', ''a''), (''ip'', ''b'')], replied = []\<rparr>]"
proof -
  let ?es = "[Ev_base Launch, Ev_accept 0 (Some ''ip'') 7, Ev_read 0 ''a'' (Some ''ip''), Ev_read 0 ''b'' (Some ''ip'')]
    :: (string, string \<times> bool) event list"
  have "\<forall>cid. length (requests_read cid ?es) < 2 ^ 64" by (simp add: requests_read_def)
  from server_refines_service [OF plain_beast_laws waiting_demo_run this]
  obtain ls where "service_run plain_beast echo ls (service_of ?es (server waiting_demo))" by blast
  moreover have "service_of ?es (server waiting_demo) = [0 \<mapsto> \<lparr>asked = [(''ip'', ''a''), (''ip'', ''b'')], replied = []\<rparr>]"
    by (auto simp: service_of_def waiting_demo_def demo_server_def demo_connection_def requests_read_def)
  ultimately show ?thesis by auto
qed

end
