(* ===== verification/Websocket_Session.thy ===== *)
theory Websocket_Session
  imports Thread_Safe_Queue
begin

text \<open>
  \<open>network/communication/websocket_connection.hpp\<close>: one websocket session. Its handlers run
  on the executor of the socket, the one thread of the server's context, which runs posted
  handlers in the order in which they were posted. Beside the members of the class the record
  holds what the asynchronous calls leave with Asio and Beast: the outstanding handshake, read
  and write, the posted sends, and the messages written completely; and of the stream whether it
  has been closed, whether the handshake has upgraded it, and whether the outstanding write was
  started on an upgraded stream, as Beast requires.
\<close>

section \<open>State and handlers\<close>

record incoming_packet =
  packet_session :: nat
  payload :: string

record websocket_session =
  stream_open :: bool
  upgraded :: bool
  accepting :: bool
  reading_message :: bool
  write_queue :: "string list"
  write_outstanding :: "string option"
  write_upgraded :: bool
  posted_sends :: "string list"
  sent_messages :: "string list"

definition packet_template :: "incoming_packet queue_template" where
  "packet_template =
     \<lparr>EnableMaxSize = True, EnableMaxBytes = True, traits_get = (\<lambda>p. of_nat (length (payload p)))\<rparr>"

definition new_websocket_session :: websocket_session where
  "new_websocket_session =
     \<lparr>stream_open = True, upgraded = False, accepting = False, reading_message = False, write_queue = [],
      write_outstanding = None, write_upgraded = False, posted_sends = [], sent_messages = []\<rparr>"

definition start_session :: "websocket_session \<Rightarrow> websocket_session" where
  "start_session s = s\<lparr>accepting := True\<rparr>"

definition read_message_async :: "websocket_session \<Rightarrow> websocket_session" where
  "read_message_async s = s\<lparr>reading_message := True\<rparr>"

definition on_handshake :: "bool \<Rightarrow> websocket_session \<Rightarrow> websocket_session" where
  "on_handshake ec s =
     (let s0 = s\<lparr>accepting := False\<rparr> in if ec then s0 else read_message_async (s0\<lparr>upgraded := True\<rparr>))"

definition send :: "string \<Rightarrow> websocket_session \<Rightarrow> websocket_session" where
  "send message s = s\<lparr>posted_sends := posted_sends s @ [message]\<rparr>"

text \<open>\<open>async_write\<close> on \<open>write_queue.front()\<close>; undefined on an empty queue, which never happens.\<close>

definition write_message_async :: "websocket_session \<Rightarrow> websocket_session" where
  "write_message_async s = (case write_queue s of
       [] \<Rightarrow> s
     | message # _ \<Rightarrow> s\<lparr>write_outstanding := Some message, write_upgraded := upgraded s\<rparr>)"

text \<open>The handler that \<open>send\<close> posts.\<close>

definition run_send :: "string \<Rightarrow> websocket_session \<Rightarrow> websocket_session" where
  "run_send message s =
     (let write_in_progress = write_queue s \<noteq> [];
          s1 = s\<lparr>write_queue := write_queue s @ [message]\<rparr>
      in if \<not> write_in_progress then write_message_async s1 else s1)"

definition on_message_written :: "bool \<Rightarrow> string \<Rightarrow> websocket_session \<Rightarrow> websocket_session" where
  "on_message_written ec message s =
     (let s0 = s\<lparr>write_outstanding := None\<rparr> in
      if ec then s0
      else let s1 = s0\<lparr>sent_messages := sent_messages s0 @ [message], write_queue := tl (write_queue s0)\<rparr>
        in if write_queue s1 \<noteq> [] then write_message_async s1 else s1)"

definition push_incoming_packet ::
    "nat \<Rightarrow> string \<Rightarrow> websocket_session \<Rightarrow> incoming_packet thread_safe_queue \<Rightarrow>
     websocket_session \<times> incoming_packet thread_safe_queue" where
  "push_incoming_packet self data s queue =
     (let packet = \<lparr>packet_session = self, payload = data\<rparr>;
          (ok, _, queue') = try_push_back packet_template packet queue
      in if \<not> ok then (s\<lparr>stream_open := False\<rparr>, queue') else (s, queue'))"

definition on_message_read ::
    "nat \<Rightarrow> unit + string \<Rightarrow> websocket_session \<Rightarrow> incoming_packet thread_safe_queue \<Rightarrow>
     websocket_session \<times> incoming_packet thread_safe_queue" where
  "on_message_read self result s queue =
     (let s0 = s\<lparr>reading_message := False\<rparr> in
      case result of
        Inl _ \<Rightarrow> (s0, queue)
      | Inr data \<Rightarrow>
          let (s1, queue') = push_incoming_packet self data s0 queue
          in (read_message_async s1, queue'))"

section \<open>The invariant of a session\<close>

text \<open>
  A session whose writes can succeed: its stream is upgraded and not closed, and the outstanding
  write, if there is one, was started on it after the handshake.
\<close>

definition writable :: "websocket_session \<Rightarrow> bool" where
  "writable s \<longleftrightarrow> stream_open s \<and> upgraded s \<and> (write_outstanding s \<noteq> None \<longrightarrow> write_upgraded s)"

lemma writable_steps:
  "writable s \<Longrightarrow> writable (run_send m (s\<lparr>posted_sends := rest\<rparr>))"
  "writable s \<Longrightarrow> writable (on_message_written ec m s)"
  by (auto simp: writable_def run_send_def on_message_written_def write_message_async_def Let_def split: list.splits)

text \<open>
  \<open>msgs\<close> are the messages given to \<open>send\<close> so far. A write under way writes the front of
  the queue; with an empty queue there is none.
\<close>

definition session_inv :: "string list \<Rightarrow> websocket_session \<Rightarrow> bool" where
  "session_inv msgs s \<longleftrightarrow>
     sent_messages s @ write_queue s @ posted_sends s = msgs
     \<and> (case write_outstanding s of None \<Rightarrow> True | Some m \<Rightarrow> take 1 (write_queue s) = [m])"

text \<open>A session whose last write failed: the queue still holds the message, no write is under way.\<close>

definition stalled :: "websocket_session \<Rightarrow> bool" where
  "stalled s \<longleftrightarrow> write_queue s \<noteq> [] \<and> write_outstanding s = None"

lemma session_inv_new: "session_inv [] (start_session new_websocket_session)"
  by (simp add: session_inv_def start_session_def new_websocket_session_def)

lemma session_inv_send: "session_inv msgs s \<Longrightarrow> session_inv (msgs @ [m]) (send m s)"
  by (auto simp: session_inv_def send_def split: option.splits)

lemma session_inv_frame [simp]:
  "session_inv msgs (s\<lparr>reading_message := b\<rparr>) = session_inv msgs s"
  "session_inv msgs (s\<lparr>accepting := b\<rparr>) = session_inv msgs s"
  "session_inv msgs (s\<lparr>stream_open := b\<rparr>) = session_inv msgs s"
  "session_inv msgs (s\<lparr>upgraded := b\<rparr>) = session_inv msgs s"
  by (simp_all add: session_inv_def split: option.splits)

lemma stalled_frame [simp]:
  "stalled (s\<lparr>reading_message := b\<rparr>) = stalled s" "stalled (s\<lparr>accepting := b\<rparr>) = stalled s"
  "stalled (s\<lparr>stream_open := b\<rparr>) = stalled s" "stalled (s\<lparr>upgraded := b\<rparr>) = stalled s"
  "stalled (send m s) = stalled s"
  by (simp_all add: stalled_def send_def)

lemma session_inv_run_send:
  assumes "session_inv msgs s" "posted_sends s = m # rest"
  shows "session_inv msgs (run_send m (s\<lparr>posted_sends := rest\<rparr>))"
  using assms by (cases "write_queue s")
    (auto simp: session_inv_def run_send_def write_message_async_def split: option.splits)

lemma session_inv_written:
  assumes "session_inv msgs s" "write_outstanding s = Some m"
  shows "session_inv msgs (on_message_written ec m s)"
  using assms by (cases "write_queue s")
    (auto simp: session_inv_def on_message_written_def write_message_async_def Let_def split: list.splits)

lemma session_inv_handshake: "session_inv msgs s \<Longrightarrow> session_inv msgs (on_handshake ec s)"
  by (simp add: on_handshake_def read_message_async_def Let_def)

lemma session_inv_read:
  "session_inv msgs s \<Longrightarrow> session_inv msgs (fst (on_message_read self result s q))"
  by (auto simp: on_message_read_def push_incoming_packet_def read_message_async_def Let_def split_beta
      split: sum.splits)

lemma stalled_run_send: "stalled s \<Longrightarrow> stalled (run_send m (s\<lparr>posted_sends := rest\<rparr>))"
  by (auto simp: stalled_def run_send_def)

lemma stalled_read: "stalled (fst (on_message_read self result s q)) = stalled s"
  by (auto simp: on_message_read_def push_incoming_packet_def read_message_async_def Let_def split_beta
      split: sum.splits)

lemma sent_frame [simp]:
  "sent_messages (run_send m s) = sent_messages s"
  "sent_messages (send m s) = sent_messages s"
  "sent_messages (on_handshake ec s) = sent_messages s"
  "sent_messages (fst (on_message_read self result s q)) = sent_messages s"
  by (auto simp: run_send_def write_message_async_def send_def on_handshake_def on_message_read_def
      push_incoming_packet_def read_message_async_def Let_def split_beta split: list.splits sum.splits)

lemma packet_queue_read:
  assumes "queue_invar packet_template q"
  shows "queue_invar packet_template (snd (on_message_read self result s q))"
  using assms tsq.invar_offer [OF assms]
  by (auto simp: on_message_read_def push_incoming_packet_def Let_def split_beta split: sum.splits)

end
