(* ===== verification/Persistent_Server.thy ===== *)
theory Persistent_Server
  imports Websocket_Session Server_Base "HOL-Library.AList"
begin

text \<open>
  \<open>network/servers/persistent_server_base.hpp\<close> on top of \<open>server_base.hpp\<close>: accepting
  websocket sessions, broadcasting to them, collecting their messages in one queue, the
  fixed-rate update thread and the stop sequence, as a transition system over events.

  A \<open>shared_ptr<websocket_session>\<close> is \<open>Some\<close> of a number, the null pointer \<open>None\<close>; a socket
  is \<open>Some\<close> of the session it belongs to, and \<open>None\<close> once it has been moved from.
  The application's \<open>update\<close> and its other threads make any sequence of the calls they can
  make: \<open>broadcast\<close>, \<open>send\<close> on a session, and \<open>wait_and_pop\<close> on the packet queue.

  A broadcast iterates over \<open>active_sessions\<close> in one thread while the accept handler inserts
  into it in another, without a lock. The loop is a sequence of events; an insertion between two
  of them is a data race, and \<open>fault\<close> records it. Several threads may broadcast at the same time:
  \<open>broadcasting\<close> holds the loops under way by thread.
\<close>

section \<open>State\<close>

record persistent_server =
  ps_base :: server_base
  sessions :: "nat \<rightharpoonup> websocket_session"
  active_sessions :: "nat option list"
  update_loop_thread :: thread_state
  in_frame :: bool
  fixed_delta_time :: real
  incoming_packets_queue :: "incoming_packet thread_safe_queue"
  broadcasting :: "(nat \<times> string \<times> nat option list) list"
  connected_calls :: "nat option list"
  disconnected_calls :: "nat option list"
  fault :: "exn option"

datatype persistent_event =
    Ev_launch
  | Ev_base base_event
  | Ev_accept nat
  | Ev_accept_error
  | Ev_handshake nat bool
  | Ev_read nat "unit + string"
  | Ev_run_send nat
  | Ev_written nat bool
  | Ev_broadcast nat string
  | Ev_broadcast_to nat nat string
  | Ev_broadcast_skip nat
  | Ev_broadcast_done nat
  | Ev_send nat string
  | Ev_pop
  | Ev_frame_begin
  | Ev_frame_end
  | Ev_queue_stop
  | Ev_joined
  | Ev_join_self

definition new_persistent_server ::
    "exn option \<Rightarrow> real \<Rightarrow> size_t \<Rightarrow> size_t \<Rightarrow> persistent_server outcome" where
  "new_persistent_server bind_error delta_time max_incoming_packets max_incoming_bytes =
     (case new_server_base bind_error of
        Inl e \<Rightarrow> Inl e
      | Inr b \<Rightarrow>
          Inr \<lparr>ps_base = b, sessions = Map.empty, active_sessions = [], update_loop_thread = No_thread,
               in_frame = False, fixed_delta_time = max delta_time 0,
               incoming_packets_queue = new_queue max_incoming_packets max_incoming_bytes,
               broadcasting = [], connected_calls = [], disconnected_calls = [], fault = None\<rparr>)"

definition DEFAULT_FIXED_DELTA_TIME :: real where
  "DEFAULT_FIXED_DELTA_TIME = 1"

definition DEFAULT_MAX_INCOMING_PACKETS :: size_t where
  "DEFAULT_MAX_INCOMING_PACKETS = 128 * 1024"

definition DEFAULT_MAX_INCOMING_BYTES :: size_t where
  "DEFAULT_MAX_INCOMING_BYTES = 64 * 1024 * 1024"

definition new_default_persistent_server :: "exn option \<Rightarrow> persistent_server outcome" where
  "new_default_persistent_server bind_error =
     new_persistent_server bind_error DEFAULT_FIXED_DELTA_TIME DEFAULT_MAX_INCOMING_PACKETS
       DEFAULT_MAX_INCOMING_BYTES"

section \<open>Operations\<close>

text \<open>
  \<open>launch\<close>: after the base class's, the update thread is started only for a positive frame
  time. Assigning to a thread that has not been joined ends the program.
\<close>

definition launch_server :: "persistent_server \<Rightarrow> persistent_server" where
  "launch_server s =
     (let s1 = s\<lparr>ps_base := launch (ps_base s)\<rparr> in
      if failure (ps_base s1) \<noteq> None \<or> fixed_delta_time s1 \<le> 0 then s1
      else if update_loop_thread s1 \<noteq> No_thread then s1\<lparr>fault := Some Terminate\<rparr>
      else s1\<lparr>update_loop_thread := Executing\<rparr>)"

text \<open>The head of the update thread's loop, and the end of a frame with its sleep.\<close>

definition frame_begin :: "persistent_server \<Rightarrow> persistent_server option" where
  "frame_begin s =
     (if update_loop_thread s = Executing \<and> \<not> in_frame s
      then Some (if is_running (ps_base s) then s\<lparr>in_frame := True\<rparr> else s\<lparr>update_loop_thread := Finished\<rparr>)
      else None)"

definition frame_end :: "persistent_server \<Rightarrow> persistent_server option" where
  "frame_end s = (if in_frame s \<and> \<not> in_stop 0 (ps_base s) then Some (s\<lparr>in_frame := False\<rparr>) else None)"

text \<open>The sleep at the end of a frame, from the seconds the frame took.\<close>

definition frame_sleep :: "real \<Rightarrow> real \<Rightarrow> real" where
  "frame_sleep frame_duration elapsed = (if elapsed < frame_duration then frame_duration - elapsed else 0)"

text \<open>
  The update thread, from the observations of \<open>is_running\<close> at the head of each iteration
  and the time each frame took: the duration of every frame, sleep included.
\<close>

fun update_loop :: "real \<Rightarrow> (bool \<times> real) list \<Rightarrow> real list" where
  "update_loop frame_duration [] = []"
| "update_loop frame_duration ((running, elapsed) # frames) =
     (if \<not> running then []
      else (elapsed + frame_sleep frame_duration elapsed) # update_loop frame_duration frames)"

text \<open>The hooks; as defined in the base class they only log.\<close>

definition on_client_connected :: "nat option \<Rightarrow> persistent_server \<Rightarrow> persistent_server" where
  "on_client_connected socket s = s\<lparr>connected_calls := connected_calls s @ [socket]\<rparr>"

definition on_client_disconnected :: "nat option \<Rightarrow> persistent_server \<Rightarrow> persistent_server" where
  "on_client_disconnected socket s = s\<lparr>disconnected_calls := disconnected_calls s @ [socket]\<rparr>"

definition insert_session :: "nat \<Rightarrow> persistent_server \<Rightarrow> persistent_server" where
  "insert_session sid s =
     s\<lparr>active_sessions := (if Some sid \<in> set (active_sessions s) then active_sessions s
                           else Some sid # active_sessions s),
       fault := (if broadcasting s = [] then fault s
                 else Some (Undefined_behaviour ''data race on active_sessions''))\<rparr>"

text \<open>The session takes the socket over by a move, so the hook gets what the move left behind.\<close>

definition setup_client_connection :: "nat \<Rightarrow> persistent_server \<Rightarrow> persistent_server" where
  "setup_client_connection sid s =
     (let s1 = insert_session sid (s\<lparr>sessions := (sessions s)(sid \<mapsto> new_websocket_session)\<rparr>);
          s2 = s1\<lparr>sessions := (sessions s1)(sid := map_option start_session (sessions s1 sid))\<rparr>
      in on_client_connected None s2)"

text \<open>The end of the accept handler.\<close>

definition accept_again :: "persistent_server \<Rightarrow> persistent_server" where
  "accept_again s =
     (if is_running (ps_base s) then s\<lparr>ps_base := start_accept_async (ps_base s)\<rparr> else s)"

definition on_accept :: "nat option \<Rightarrow> persistent_server \<Rightarrow> persistent_server" where
  "on_accept socket s =
     (let s0 = s\<lparr>ps_base := (ps_base s)\<lparr>accept_pending := False\<rparr>\<rparr> in
      accept_again (case socket of None \<Rightarrow> s0 | Some sid \<Rightarrow> setup_client_connection sid s0))"

definition send_to :: "nat \<Rightarrow> string \<Rightarrow> (nat \<rightharpoonup> websocket_session) \<Rightarrow> (nat \<rightharpoonup> websocket_session)" where
  "send_to sid message ss = ss(sid := map_option (send message) (ss sid))"

text \<open>The loop of \<open>broadcast\<close>: null pointers are erased, every other session is sent the message.\<close>

fun broadcast_loop ::
    "string \<Rightarrow> nat option list \<Rightarrow> (nat \<rightharpoonup> websocket_session) \<Rightarrow>
     nat option list \<times> (nat \<rightharpoonup> websocket_session)" where
  "broadcast_loop message [] ss = ([], ss)"
| "broadcast_loop message (None # rest) ss = broadcast_loop message rest ss"
| "broadcast_loop message (Some sid # rest) ss =
     (let (kept, ss') = broadcast_loop message rest (send_to sid message ss) in (Some sid # kept, ss'))"

definition broadcast :: "string \<Rightarrow> persistent_server \<Rightarrow> persistent_server" where
  "broadcast message s =
     (let (kept, ss) = broadcast_loop message (active_sessions s) (sessions s)
      in s\<lparr>active_sessions := kept, sessions := ss\<rparr>)"

text \<open>
  The same loop one iteration at a time, as it runs in thread \<open>t\<close> beside the other threads:
  \<open>broadcasting\<close> holds the message and the pointers not visited yet. Erasing a null pointer
  while another thread iterates is a data race, too.
\<close>

definition broadcast_start :: "nat \<Rightarrow> string \<Rightarrow> persistent_server \<Rightarrow> persistent_server option" where
  "broadcast_start t message s =
     (if map_of (broadcasting s) t = None
      then Some (s\<lparr>broadcasting := AList.update t (message, active_sessions s) (broadcasting s)\<rparr>) else None)"

definition broadcast_to :: "nat \<Rightarrow> nat \<Rightarrow> string \<Rightarrow> persistent_server \<Rightarrow> persistent_server option" where
  "broadcast_to t sid message s = (case map_of (broadcasting s) t of
       Some (m, Some i # rest) \<Rightarrow>
         if i = sid \<and> m = message
         then Some (s\<lparr>sessions := send_to sid message (sessions s),
                     broadcasting := AList.update t (m, rest) (broadcasting s)\<rparr>) else None
     | _ \<Rightarrow> None)"

definition broadcast_skip :: "nat \<Rightarrow> persistent_server \<Rightarrow> persistent_server option" where
  "broadcast_skip t s = (case map_of (broadcasting s) t of
       Some (m, None # rest) \<Rightarrow>
         Some (s\<lparr>active_sessions := remove1 None (active_sessions s),
                 broadcasting := AList.update t (m, rest) (broadcasting s),
                 fault := (if list_all (\<lambda>(u, _). u = t) (broadcasting s) then fault s
                           else Some (Undefined_behaviour ''data race on active_sessions''))\<rparr>)
     | _ \<Rightarrow> None)"

definition broadcast_done :: "nat \<Rightarrow> persistent_server \<Rightarrow> persistent_server option" where
  "broadcast_done t s = (case map_of (broadcasting s) t of
       Some (m, []) \<Rightarrow> Some (s\<lparr>broadcasting := AList.delete t (broadcasting s)\<rparr>)
     | _ \<Rightarrow> None)"

definition remove_session :: "nat \<Rightarrow> persistent_server \<Rightarrow> persistent_server" where
  "remove_session sid s = s\<lparr>active_sessions := removeAll (Some sid) (active_sessions s)\<rparr>"

text \<open>The overload of \<open>send\<close> for HTTP responses has an empty body.\<close>

definition send_http_response :: "'rs \<Rightarrow> persistent_server \<Rightarrow> persistent_server" where
  "send_http_response response s = s"

text \<open>
  \<open>persistent_server_base::stop\<close> after \<open>server_base::stop\<close>: the queue is stopped, then the
  update thread is joined when there is one.
\<close>

definition stop_packets :: "persistent_server \<Rightarrow> persistent_server option" where
  "stop_packets s =
     map_option (\<lambda>b. s\<lparr>ps_base := b, incoming_packets_queue := snd (stop (incoming_packets_queue s))\<rparr>)
       (base_step Queue_stops (ps_base s))"

definition join_update_thread :: "persistent_server \<Rightarrow> persistent_server option" where
  "join_update_thread s =
     (if update_loop_thread s = Executing then None
      else map_option (\<lambda>b. s\<lparr>ps_base := b, update_loop_thread := No_thread\<rparr>)
        (base_step Stop_returns (ps_base s)))"

text \<open>
  The join when the update thread is itself in \<open>stop\<close>, because \<open>update\<close> called \<open>try_stop\<close>: a
  thread that joins itself gets a \<open>std::system_error\<close>.
\<close>

definition join_update_self :: "persistent_server \<Rightarrow> persistent_server option" where
  "join_update_self s =
     (if in_stop 0 (ps_base s) \<and> stop_progress (ps_base s) = Queue_stopped
      then Some (s\<lparr>fault := Some (System_error ''resource_deadlock_would_occur'')\<rparr>) else None)"

text \<open>The update thread, the only thread the server joins (number 0), calls \<open>try_stop\<close> within a frame.\<close>

fun stop_caller_present :: "base_event \<Rightarrow> persistent_server \<Rightarrow> bool" where
  "stop_caller_present (Try_stop (Pool_thread w)) s \<longleftrightarrow> w = 0 \<and> in_frame s \<and> \<not> in_stop 0 (ps_base s)"
| "stop_caller_present _ s \<longleftrightarrow> True"

text \<open>The destructor once its \<open>try_stop\<close> has returned.\<close>

definition destroy_server :: "persistent_server \<Rightarrow> exn option" where
  "destroy_server s = (if update_loop_thread s \<noteq> No_thread then Some Terminate else destroy_base (ps_base s))"

section \<open>Events\<close>

text \<open>A handler of the context thread applied to a session.\<close>

definition on_session ::
    "nat \<Rightarrow> (websocket_session \<Rightarrow> websocket_session option) \<Rightarrow> persistent_server \<Rightarrow> persistent_server option" where
  "on_session sid f s =
     (if io_running (ps_base s)
      then map_option (\<lambda>w. s\<lparr>sessions := (sessions s)(sid \<mapsto> w)\<rparr>) (Option.bind (sessions s sid) f) else None)"

definition run_posted :: "websocket_session \<Rightarrow> websocket_session option" where
  "run_posted w = (case posted_sends w of
       message # rest \<Rightarrow> Some (run_send message (w\<lparr>posted_sends := rest\<rparr>))
     | [] \<Rightarrow> None)"

definition complete_handshake :: "bool \<Rightarrow> websocket_session \<Rightarrow> websocket_session option" where
  "complete_handshake ec w = (if accepting w then Some (on_handshake ec w) else None)"

text \<open>
  A write completes with success only if the stream has not been closed and the write was started
  after the handshake; with an error it may complete at any time.
\<close>

definition complete_write :: "bool \<Rightarrow> websocket_session \<Rightarrow> websocket_session option" where
  "complete_write ec w =
     (if ec \<or> stream_open w \<and> write_upgraded w
      then map_option (\<lambda>message. on_message_written ec message w) (write_outstanding w) else None)"

text \<open>A read completes with a message only while the stream is open.\<close>

definition on_read_packet :: "nat \<Rightarrow> unit + string \<Rightarrow> persistent_server \<Rightarrow> persistent_server option" where
  "on_read_packet sid result s = (case sessions s sid of
       Some w \<Rightarrow>
         if io_running (ps_base s) \<and> reading_message w \<and> (stream_open w \<or> result = Inl ())
         then (let (w', q) = on_message_read sid result w (incoming_packets_queue s)
               in Some (s\<lparr>sessions := (sessions s)(sid \<mapsto> w'), incoming_packets_queue := q\<rparr>))
         else None
     | None \<Rightarrow> None)"

fun handle_event :: "persistent_event \<Rightarrow> persistent_server \<Rightarrow> persistent_server option" where
  "handle_event Ev_launch s = Some (launch_server s)"
| "handle_event (Ev_base be) s =
     (if shared_event be \<and> be \<noteq> Launch \<and> stop_caller_present be s
      then map_option (\<lambda>b. s\<lparr>ps_base := b\<rparr>) (base_step be (ps_base s)) else None)"
| "handle_event (Ev_accept sid) s =
     (if io_running (ps_base s) \<and> accept_pending (ps_base s) \<and> sessions s sid = None
      then Some (on_accept (Some sid) s) else None)"
| "handle_event Ev_accept_error s =
     (if io_running (ps_base s) \<and> accept_pending (ps_base s) then Some (on_accept None s) else None)"
| "handle_event (Ev_handshake sid ec) s = on_session sid (complete_handshake ec) s"
| "handle_event (Ev_read sid result) s = on_read_packet sid result s"
| "handle_event (Ev_run_send sid) s = on_session sid run_posted s"
| "handle_event (Ev_written sid ec) s = on_session sid (complete_write ec) s"
| "handle_event (Ev_broadcast t message) s = broadcast_start t message s"
| "handle_event (Ev_broadcast_to t sid message) s = broadcast_to t sid message s"
| "handle_event (Ev_broadcast_skip t) s = broadcast_skip t s"
| "handle_event (Ev_broadcast_done t) s = broadcast_done t s"
| "handle_event (Ev_send sid message) s =
     (if sessions s sid \<noteq> None then Some (s\<lparr>sessions := send_to sid message (sessions s)\<rparr>) else None)"
| "handle_event Ev_pop s =
     (case wait_and_pop packet_template (incoming_packets_queue s) of
        (Blocks, q) \<Rightarrow> None
      | (Returns r, q) \<Rightarrow> Some (s\<lparr>incoming_packets_queue := q\<rparr>))"
| "handle_event Ev_frame_begin s = frame_begin s"
| "handle_event Ev_frame_end s = frame_end s"
| "handle_event Ev_queue_stop s = stop_packets s"
| "handle_event Ev_joined s = join_update_thread s"
| "handle_event Ev_join_self s = join_update_self s"

text \<open>The base event in an event.\<close>

fun persistent_base_event :: "persistent_event \<Rightarrow> base_event option" where
  "persistent_base_event Ev_launch = Some Launch"
| "persistent_base_event (Ev_base be) = Some be"
| "persistent_base_event (Ev_accept sid) = Some Accepted_while_running"
| "persistent_base_event Ev_accept_error = Some Accepted_while_running"
| "persistent_base_event Ev_queue_stop = Some Queue_stops"
| "persistent_base_event Ev_joined = Some Stop_returns"
| "persistent_base_event _ = None"

definition sound :: "persistent_server \<Rightarrow> bool" where
  "sound s \<longleftrightarrow> fault s = None \<and> failure (ps_base s) = None"

inductive persistent_run :: "persistent_event list \<Rightarrow> persistent_server \<Rightarrow> bool" where
  constructed: "new_persistent_server None dt ms mb = Inr s \<Longrightarrow> persistent_run [] s"
| event: "\<lbrakk> persistent_run es s; sound s; handle_event e s = Some s' \<rbrakk> \<Longrightarrow> persistent_run (es @ [e]) s'"

fun run_persistent :: "persistent_event list \<Rightarrow> persistent_server \<Rightarrow> persistent_server option" where
  "run_persistent [] s = Some s"
| "run_persistent (e # es) s =
     (if sound s then Option.bind (handle_event e s) (run_persistent es) else None)"

text \<open>
  The messages meant for a session, in order: those that broadcasts have sent it and those
  sent to it alone, since it was accepted.
\<close>

fun message_in :: "nat \<Rightarrow> persistent_event \<Rightarrow> string list" where
  "message_in sid (Ev_broadcast_to t i m) = (if i = sid then [m] else [])"
| "message_in sid (Ev_send i m) = (if i = sid then [m] else [])"
| "message_in sid _ = []"

definition messages_for :: "nat \<Rightarrow> persistent_event list \<Rightarrow> string list" where
  "messages_for sid es = concat (map (message_in sid) (dropWhile (\<lambda>e. e \<noteq> Ev_accept sid) es))"

lemmas event_defs = on_accept_def accept_again_def setup_client_connection_def insert_session_def
  on_client_connected_def on_session_def broadcast_start_def broadcast_skip_def broadcast_to_def broadcast_done_def
  frame_begin_def frame_end_def stop_packets_def join_update_thread_def join_update_self_def launch_server_def


section \<open>The invariant\<close>

text \<open>The pointers that the broadcasts under way have still to visit.\<close>

definition cursor_ok :: "persistent_server \<Rightarrow> bool" where
  "cursor_ok s \<longleftrightarrow> (\<forall>t m rest. map_of (broadcasting s) t = Some (m, rest) \<longrightarrow>
     distinct rest \<and> set rest \<subseteq> set (active_sessions s))"

definition persistent_inv :: "persistent_event list \<Rightarrow> persistent_server \<Rightarrow> bool" where
  "persistent_inv es s \<longleftrightarrow>
     queue_invar packet_template (incoming_packets_queue s)
     \<and> distinct (active_sessions s)
     \<and> (\<forall>sid. sessions s sid \<noteq> None \<longleftrightarrow> Ev_accept sid \<in> set es)
     \<and> set (active_sessions s) = Some ` dom (sessions s)
     \<and> (\<forall>sid w. sessions s sid = Some w \<longrightarrow> session_inv (messages_for sid es) w)
     \<and> cursor_ok s"

lemma messages_for_snoc:
  "Ev_accept sid \<in> set es \<Longrightarrow> messages_for sid (es @ [e]) = messages_for sid es @ message_in sid e"
  by (auto simp: messages_for_def)

lemma messages_for_new: "Ev_accept sid \<notin> set es \<Longrightarrow> messages_for sid (es @ [Ev_accept sid]) = []"
proof -
  assume "Ev_accept sid \<notin> set es"
  then have "dropWhile (\<lambda>e. e \<noteq> Ev_accept sid) (es @ [Ev_accept sid]) = [Ev_accept sid]"
    by (induction es) auto
  then show ?thesis by (simp add: messages_for_def)
qed

lemma persistent_invD:
  assumes "persistent_inv es s"
  shows "queue_invar packet_template (incoming_packets_queue s)" "distinct (active_sessions s)"
    "sessions s sid \<noteq> None \<longleftrightarrow> Ev_accept sid \<in> set es"
    "set (active_sessions s) = Some ` dom (sessions s)"
    "sessions s sid = Some w \<Longrightarrow> session_inv (messages_for sid es) w"
    "cursor_ok s"
  using assms unfolding persistent_inv_def by blast+

lemma persistent_invI:
  assumes "queue_invar packet_template (incoming_packets_queue s)" "distinct (active_sessions s)"
    and "\<And>sid. sessions s sid \<noteq> None \<longleftrightarrow> Ev_accept sid \<in> set es"
    and "set (active_sessions s) = Some ` dom (sessions s)"
    and "\<And>sid w. sessions s sid = Some w \<Longrightarrow> session_inv (messages_for sid es) w"
    and "cursor_ok s"
  shows "persistent_inv es s"
  using assms unfolding persistent_inv_def by blast

text \<open>An event that changes one session's record and concerns no message.\<close>

lemma persistent_inv_session:
  assumes "persistent_inv es s" "sessions s sid = Some w" "session_inv (messages_for sid es) w'"
    and "\<And>i. message_in i e = []" "\<And>i. e \<noteq> Ev_accept i"
    and "sessions s' = (sessions s)(sid \<mapsto> w')" "active_sessions s' = active_sessions s"
    and "queue_invar packet_template (incoming_packets_queue s')" "cursor_ok s'"
  shows "persistent_inv (es @ [e]) s'"
proof -
  note inv = persistent_invD [OF assms(1)]
  have dom: "dom (sessions s') = dom (sessions s)" using assms(2,6) by auto
  have "session_inv (messages_for i (es @ [e])) v" if "sessions s' i = Some v" for i v
  proof -
    have "Ev_accept i \<in> set es" using that dom inv(3) [of i] by (auto simp: dom_def)
    then have "messages_for i (es @ [e]) = messages_for i es" by (simp add: messages_for_snoc assms(4))
    with that inv(5) assms(3,6) show ?thesis by (auto split: if_splits)
  qed
  moreover have "sessions s' i \<noteq> None \<longleftrightarrow> Ev_accept i \<in> set (es @ [e])" for i
    using dom inv(3) [of i] assms(5) [of i] by (auto simp: dom_def)
  ultimately show ?thesis
    using inv(2,4) dom assms(7-9) by (intro persistent_invI) simp_all
qed

text \<open>An event that changes no session.\<close>

lemma persistent_inv_frame:
  assumes "persistent_inv es s" "\<And>i. message_in i e = []" "\<And>i. e \<noteq> Ev_accept i"
    and "sessions s' = sessions s" "active_sessions s' = active_sessions s"
    and "queue_invar packet_template (incoming_packets_queue s')" "cursor_ok s'"
  shows "persistent_inv (es @ [e]) s'"
proof -
  note inv = persistent_invD [OF assms(1)]
  have "session_inv (messages_for i (es @ [e])) w" if "sessions s i = Some w" for i w
    using that inv(3) [of i] inv(5) [OF that] by (auto simp: messages_for_snoc assms(2))
  moreover have "sessions s i \<noteq> None \<longleftrightarrow> Ev_accept i \<in> set (es @ [e])" for i
    using inv(3) [of i] assms(3) [of i] by auto
  ultimately show ?thesis
    using inv(2,4) assms(4-7) by (intro persistent_invI) simp_all
qed

text \<open>An event that hands a message to a session.\<close>

lemma persistent_inv_message:
  assumes "persistent_inv es s" "\<And>i. e \<noteq> Ev_accept i" "\<And>i. message_in i e = (if i = sid then [m] else [])"
    and "sessions s' = send_to sid m (sessions s)" "active_sessions s' = active_sessions s"
    and "incoming_packets_queue s' = incoming_packets_queue s" "cursor_ok s'"
  shows "persistent_inv (es @ [e]) s'"
proof -
  note inv = persistent_invD [OF assms(1)]
  have dom: "sessions s' i = None \<longleftrightarrow> sessions s i = None" for i
    by (simp add: assms(4) send_to_def)
  have "session_inv (messages_for i (es @ [e])) v" if v: "sessions s' i = Some v" for i v
  proof -
    have "sessions s i \<noteq> None" using dom [of i] v by simp
    with inv(3) [of i] have "messages_for i (es @ [e]) = messages_for i es @ (if i = sid then [m] else [])"
      by (simp add: messages_for_snoc assms(3))
    with v assms(4) inv(5) [of i] show ?thesis
      by (auto simp: session_inv_send send_to_def split: if_splits)
  qed
  moreover have "sessions s' i \<noteq> None \<longleftrightarrow> Ev_accept i \<in> set (es @ [e])" for i
    using dom [of i] inv(3) [of i] assms(2) [of i] by auto
  moreover have "dom (sessions s') = dom (sessions s)" using dom by (auto simp: dom_def)
  ultimately show ?thesis
    using inv(1,2,4) assms(5-7) by (intro persistent_invI) simp_all
qed

lemma on_accept_simps [simp]:
  "sessions (on_accept (Some sid) s) = (sessions s)(sid \<mapsto> start_session new_websocket_session)"
  "active_sessions (on_accept (Some sid) s) =
     (if Some sid \<in> set (active_sessions s) then active_sessions s else Some sid # active_sessions s)"
  "sessions (on_accept None s) = sessions s" "active_sessions (on_accept None s) = active_sessions s"
  "incoming_packets_queue (on_accept r s) = incoming_packets_queue s"
  "broadcasting (on_accept r s) = broadcasting s" "update_loop_thread (on_accept r s) = update_loop_thread s"
  "in_frame (on_accept r s) = in_frame s"
  by (auto simp: event_defs Let_def split: option.splits)

lemma cursor_ok_cong:
  "broadcasting s' = broadcasting s \<Longrightarrow> set (active_sessions s) \<subseteq> set (active_sessions s') \<Longrightarrow>
   cursor_ok s \<Longrightarrow> cursor_ok s'"
  unfolding cursor_ok_def by (metis subset_trans)

lemma accept_session_inv:
  assumes "persistent_inv es s" "sessions s sid = None"
  shows "persistent_inv (es @ [Ev_accept sid]) (on_accept (Some sid) s)"
proof -
  note inv = persistent_invD [OF assms(1)]
  have new: "Ev_accept sid \<notin> set es" "Some sid \<notin> set (active_sessions s)"
    using inv(3) [of sid] inv(4) assms(2) by auto
  have "messages_for i (es @ [Ev_accept sid]) = messages_for i es" if "sessions s i \<noteq> None" for i
    using that inv(3) [of i] by (simp add: messages_for_snoc)
  then have "session_inv (messages_for i (es @ [Ev_accept sid])) w"
    if "sessions (on_accept (Some sid) s) i = Some w" for i w
    using that inv(5) session_inv_new messages_for_new [OF new(1)] by (auto split: if_splits)
  moreover have "sessions (on_accept (Some sid) s) i \<noteq> None \<longleftrightarrow> Ev_accept i \<in> set (es @ [Ev_accept sid])" for i
    using inv(3) [of i] by simp
  moreover have "cursor_ok (on_accept (Some sid) s)" by (rule cursor_ok_cong [OF _ _ inv(6)]) auto
  ultimately show ?thesis
    using inv(1,2,4) new(2) by (intro persistent_invI) simp_all
qed

lemma on_sessionE:
  assumes "on_session sid f s = Some s'"
  obtains w w' where "sessions s sid = Some w" "f w = Some w'" "s' = s\<lparr>sessions := (sessions s)(sid \<mapsto> w')\<rparr>"
  using assms by (auto simp: on_session_def bind_eq_Some_conv split: if_splits)

lemma on_read_packetE:
  assumes "on_read_packet sid result s = Some s'"
  obtains w where "sessions s sid = Some w" "reading_message w" "stream_open w \<or> result = Inl ()"
    "s' = s\<lparr>sessions := (sessions s)(sid \<mapsto> fst (on_message_read sid result w (incoming_packets_queue s))),
            incoming_packets_queue := snd (on_message_read sid result w (incoming_packets_queue s))\<rparr>"
  using assms by (auto simp: on_read_packet_def split_beta split: option.splits if_splits)

lemma broadcast_toE:
  assumes "broadcast_to t sid m s = Some s'"
  obtains rest where "map_of (broadcasting s) t = Some (m, Some sid # rest)"
    "s' = s\<lparr>sessions := send_to sid m (sessions s), broadcasting := AList.update t (m, rest) (broadcasting s)\<rparr>"
  using assms by (auto simp: broadcast_to_def split: option.splits list.splits if_splits)

lemma cursor_ok_update:
  "cursor_ok s \<Longrightarrow> distinct rest \<Longrightarrow> set rest \<subseteq> set (active_sessions s) \<Longrightarrow>
   cursor_ok (s\<lparr>broadcasting := AList.update t (m, rest) (broadcasting s)\<rparr>)"
  by (auto simp: cursor_ok_def update_conv')

lemma cursor_ok_delete: "cursor_ok s \<Longrightarrow> cursor_ok (s\<lparr>broadcasting := AList.delete t (broadcasting s)\<rparr>)"
  unfolding cursor_ok_def by (simp add: delete_conv')

lemma cursor_okD:
  "cursor_ok s \<Longrightarrow> map_of (broadcasting s) t = Some (m, rest) \<Longrightarrow> distinct rest \<and> set rest \<subseteq> set (active_sessions s)"
  by (auto simp: cursor_ok_def)

lemma no_null_pointers: "persistent_inv es s \<Longrightarrow> broadcast_skip t s = None"
  using persistent_invD(4,6) [of es s]
  by (auto simp: broadcast_skip_def dest: cursor_okD split: option.splits list.splits)

lemma persistent_event_inv:
  assumes "persistent_inv es s" "handle_event e s = Some s'"
  shows "persistent_inv (es @ [e]) s'"
proof -
  note inv = persistent_invD [OF assms(1)] and session = persistent_inv_session [OF assms(1)]
    and frame = persistent_inv_frame [OF assms(1)] and message = persistent_inv_message [OF assms(1)]
  have cursor: "cursor_ok s'" if "broadcasting s' = broadcasting s" "active_sessions s' = active_sessions s" for s'
    using that inv(6) by (auto intro: cursor_ok_cong)
  show ?thesis
  proof (cases e)
    case (Ev_accept sid)
    with assms accept_session_inv [OF assms(1), of sid] show ?thesis by (auto split: if_splits)
  next
    case Ev_accept_error
    with assms(2) inv(1) show ?thesis by (intro frame cursor) (auto split: if_splits)
  next
    case (Ev_handshake sid ec)
    with assms(2) obtain w w' where w: "sessions s sid = Some w" "complete_handshake ec w = Some w'"
        "s' = s\<lparr>sessions := (sessions s)(sid \<mapsto> w')\<rparr>"
      by (auto elim: on_sessionE)
    with session_inv_handshake [OF inv(5) [OF w(1)]] have "session_inv (messages_for sid es) w'"
      by (auto simp: complete_handshake_def split: if_splits)
    with inv(1) Ev_handshake w show ?thesis by (intro session [OF w(1)] cursor) simp_all
  next
    case (Ev_read sid result)
    with assms(2) obtain w where w: "sessions s sid = Some w"
        "s' = s\<lparr>sessions := (sessions s)(sid \<mapsto> fst (on_message_read sid result w (incoming_packets_queue s))),
           incoming_packets_queue := snd (on_message_read sid result w (incoming_packets_queue s))\<rparr>"
      by (auto elim: on_read_packetE)
    with Ev_read packet_queue_read [OF inv(1)] session_inv_read [OF inv(5) [OF w(1)]] show ?thesis
      by (intro session [OF w(1)] cursor) simp_all
  next
    case (Ev_run_send sid)
    with assms(2) obtain w w' where w: "sessions s sid = Some w" "run_posted w = Some w'"
        "s' = s\<lparr>sessions := (sessions s)(sid \<mapsto> w')\<rparr>"
      by (auto elim: on_sessionE)
    with session_inv_run_send [OF inv(5) [OF w(1)]] have "session_inv (messages_for sid es) w'"
      by (auto simp: run_posted_def split: list.splits)
    with inv(1) Ev_run_send w show ?thesis by (intro session [OF w(1)] cursor) simp_all
  next
    case (Ev_written sid ec)
    with assms(2) obtain w w' where w: "sessions s sid = Some w" "complete_write ec w = Some w'"
        "s' = s\<lparr>sessions := (sessions s)(sid \<mapsto> w')\<rparr>"
      by (auto elim: on_sessionE)
    with session_inv_written [OF inv(5) [OF w(1)]] have "session_inv (messages_for sid es) w'"
      by (auto simp: complete_write_def split: if_splits)
    with inv(1) Ev_written w show ?thesis by (intro session [OF w(1)] cursor) simp_all
  next
    case (Ev_broadcast t m)
    with assms(2) inv(1,2,6) show ?thesis
      by (intro frame) (auto simp: broadcast_start_def cursor_ok_update split: if_splits)
  next
    case (Ev_broadcast_to t sid m)
    with assms(2) obtain rest where r: "map_of (broadcasting s) t = Some (m, Some sid # rest)"
        "s' = s\<lparr>sessions := send_to sid m (sessions s), broadcasting := AList.update t (m, rest) (broadcasting s)\<rparr>"
      by (auto elim: broadcast_toE)
    have "cursor_ok (s\<lparr>broadcasting := AList.update t (m, rest) (broadcasting s)\<rparr>)"
      using cursor_okD [OF inv(6) r(1)] inv(6) by (intro cursor_ok_update) auto
    with Ev_broadcast_to r(2) show ?thesis
      by (intro message [of _ sid m]) (simp_all add: cursor_ok_def)
  next
    case (Ev_broadcast_done t)
    with assms(2) inv(1,6) show ?thesis
      by (intro frame) (auto simp: broadcast_done_def cursor_ok_delete split: option.splits list.splits)
  next
    case (Ev_send sid m)
    with assms show ?thesis by (intro message [of _ sid m] cursor) (auto split: if_splits)
  next
    case Ev_pop
    with assms(2) have "s' = s\<lparr>incoming_packets_queue := snd (wait_and_pop packet_template (incoming_packets_queue s))\<rparr>"
      by (auto split: prod.splits wait_result.splits)
    with Ev_pop tsq.invar_take [OF inv(1)] show ?thesis by (intro frame cursor) simp_all
  qed (use assms(2) inv(1) no_null_pointers [OF assms(1)] in
      \<open>auto intro!: frame cursor simp: launch_server_def frame_begin_def frame_end_def stop_packets_def
        join_update_thread_def join_update_self_def Let_def queue_invar_stop split: if_splits\<close>)
qed

lemma persistent_run_inv: "persistent_run es s \<Longrightarrow> persistent_inv es s"
proof (induction rule: persistent_run.induct)
  case (constructed dt ms mb s)
  then show ?case
    by (auto simp: persistent_inv_def new_persistent_server_def queue_invar_def cursor_ok_def
        split: sum.splits)
next
  case (event es s e s')
  then show ?case by (intro persistent_event_inv)
qed


section \<open>Writing goes on\<close>

definition session_flows :: "websocket_session \<Rightarrow> bool" where
  "session_flows w \<longleftrightarrow> (write_queue w \<noteq> [] \<longleftrightarrow> write_outstanding w \<noteq> None)"

lemma session_flows_steps:
  "session_flows (start_session new_websocket_session)"
  "session_flows (send m w) = session_flows w"
  "session_flows (on_handshake ec w) = session_flows w"
  "session_flows (fst (on_message_read sid result w q)) = session_flows w"
  "session_flows w \<Longrightarrow> session_flows (run_send m (w\<lparr>posted_sends := rest\<rparr>))"
  "session_flows (on_message_written False m w)"
  by (auto simp: session_flows_def start_session_def new_websocket_session_def send_def on_handshake_def
      on_message_read_def push_incoming_packet_def read_message_async_def run_send_def
      write_message_async_def on_message_written_def Let_def split_beta split: list.splits sum.splits)

text \<open>What one event does to a session: nothing, its creation, a message, or one of its handlers.\<close>

lemma session_change:
  assumes "handle_event e s = Some s'" "sessions s' sid = Some w'"
  obtains (same) "sessions s sid = Some w'"
  | (created) "sessions s sid = None" "w' = start_session new_websocket_session"
  | (told) w m where "sessions s sid = Some w" "w' = send m w"
  | (handshake) w ec where "sessions s sid = Some w" "w' = on_handshake ec w"
  | (read_one) w result q where "sessions s sid = Some w" "w' = fst (on_message_read sid result w q)"
  | (posted) w m rest where "sessions s sid = Some w" "posted_sends w = m # rest"
      "w' = run_send m (w\<lparr>posted_sends := rest\<rparr>)"
  | (written) w ec m where "sessions s sid = Some w" "write_outstanding w = Some m" "e = Ev_written sid ec"
      "w' = on_message_written ec m w"
proof (cases e)
  case (Ev_broadcast_to t i m)
  have "sessions s sid = Some w' \<or> (\<exists>w. sessions s sid = Some w \<and> w' = send m w)"
    using assms Ev_broadcast_to by (auto simp: send_to_def elim!: broadcast_toE split: if_splits)
  then show thesis using same told by blast
next
  case (Ev_accept i)
  have "sessions s sid = Some w' \<or> (sessions s sid = None \<and> w' = start_session new_websocket_session)"
    using assms Ev_accept by (auto split: if_splits)
  then show thesis using same created by blast
next
  case (Ev_handshake i ec)
  have "sessions s sid = Some w' \<or> (\<exists>w. sessions s sid = Some w \<and> w' = on_handshake ec w)"
    using assms Ev_handshake by (auto simp: complete_handshake_def elim!: on_sessionE split: if_splits)
  then show thesis using same handshake by blast
next
  case (Ev_read i result)
  have "sessions s sid = Some w' \<or> (\<exists>w q. sessions s sid = Some w \<and> w' = fst (on_message_read sid result w q))"
    using assms Ev_read by (auto elim!: on_read_packetE split: if_splits)
  then show thesis using same read_one by blast
next
  case (Ev_run_send i)
  have "sessions s sid = Some w' \<or> (\<exists>w m rest. sessions s sid = Some w \<and> posted_sends w = m # rest
      \<and> w' = run_send m (w\<lparr>posted_sends := rest\<rparr>))"
    using assms Ev_run_send by (auto simp: run_posted_def elim!: on_sessionE split: if_splits list.splits)
  then show thesis using same posted by blast
next
  case (Ev_written i ec)
  have "sessions s sid = Some w' \<or> (\<exists>w m. sessions s sid = Some w \<and> write_outstanding w = Some m
      \<and> e = Ev_written sid ec \<and> w' = on_message_written ec m w)"
    using assms Ev_written by (auto simp: complete_write_def elim!: on_sessionE split: if_splits)
  then show thesis using same written by blast
next
  case (Ev_send i m)
  have "sessions s sid = Some w' \<or> (\<exists>w. sessions s sid = Some w \<and> w' = send m w)"
    using assms Ev_send by (auto simp: send_to_def split: if_splits)
  then show thesis using same told by blast
qed (rule same, use assms in \<open>auto simp: launch_server_def broadcast_start_def broadcast_skip_def
       broadcast_done_def frame_begin_def frame_end_def stop_packets_def join_update_thread_def
       join_update_self_def Let_def
       split: if_splits prod.splits wait_result.splits option.splits list.splits\<close>)

lemma persistent_run_flows:
  "persistent_run es s \<Longrightarrow> sessions s sid = Some w \<Longrightarrow> Ev_written sid True \<notin> set es \<Longrightarrow> session_flows w"
proof (induction arbitrary: w rule: persistent_run.induct)
  case (constructed dt ms mb s)
  then show ?case by (auto simp: new_persistent_server_def split: sum.splits)
next
  case (event es s e s')
  note IH = event.IH
  from event.hyps(3) event.prems(1) show ?case
  proof (cases rule: session_change)
    case (written w0 ec m)
    with event.prems(2) have "ec = False" by auto
    with written show ?thesis by (simp add: session_flows_steps)
  qed (use IH event.prems(2) in \<open>auto simp: session_flows_steps\<close>)
qed

lemma run_persistent_run:
  "persistent_run es s \<Longrightarrow> run_persistent es' s = Some s' \<Longrightarrow> persistent_run (es @ es') s'"
proof (induction es' arbitrary: es s)
  case (Cons e es')
  from Cons.prems(2) obtain s1 where "sound s" "handle_event e s = Some s1" "run_persistent es' s1 = Some s'"
    by (auto simp: bind_eq_Some_conv split: if_splits)
  with Cons.IH [of "es @ [e]" s1] Cons.prems(1) show ?case by (simp add: persistent_run.event)
qed simp

section \<open>Messages to the sessions\<close>

text \<open>
  C24: Messages to a session are delivered in order: at any moment of any run the messages
  written on a session's stream, followed by its write queue and by the sends still posted, are
  exactly the messages that broadcasts and sends have given it since it was accepted, in order, and a
  write under way writes the front of the queue (so there is at most one, and its buffer is
  alive).
\<close>

theorem session_messages_in_order:
  assumes "persistent_run es s" and "sessions s sid = Some w"
  shows "sent_messages w @ write_queue w @ posted_sends w = messages_for sid es \<and>
    (write_outstanding w = None \<or> write_outstanding w = Some (hd (write_queue w)) \<and> write_queue w \<noteq> [])"
  using persistent_invD(5) [OF persistent_run_inv [OF assms(1)] assms(2)]
  by (cases "write_queue w") (auto simp: session_inv_def split: option.splits)

definition chat_events :: "persistent_event list" where
  "chat_events =
     [Ev_launch, Ev_accept 3, Ev_handshake 3 False, Ev_broadcast 1 ''a'', Ev_broadcast_to 1 3 ''a'', Ev_broadcast_done 1,
      Ev_send 3 ''b'', Ev_run_send 3, Ev_run_send 3, Ev_written 3 False]"

definition chat_session :: websocket_session where
  "chat_session =
     \<lparr>stream_open = True, upgraded = True, accepting = False, reading_message = True, write_queue = [''b''],
      write_outstanding = Some ''b'', write_upgraded = True, posted_sends = [], sent_messages = [''a'']\<rparr>"

definition chat_start :: persistent_server where
  "chat_start =
     \<lparr>ps_base = fresh_base, sessions = Map.empty, active_sessions = [], update_loop_thread = No_thread,
      in_frame = False, fixed_delta_time = 1, incoming_packets_queue = new_queue 8 100, broadcasting = [],
      connected_calls = [], disconnected_calls = [], fault = None\<rparr>"

definition chat_server :: "websocket_session \<Rightarrow> persistent_server" where
  "chat_server w = chat_start\<lparr>ps_base := running_base, sessions := [3 \<mapsto> w], active_sessions := [Some 3],
     update_loop_thread := Executing, connected_calls := [None]\<rparr>"

lemmas chat_eval = event_defs send_to_def complete_handshake_def complete_write_def run_posted_def
  start_session_def new_websocket_session_def on_handshake_def read_message_async_def send_def
  run_send_def write_message_async_def on_message_written_def chat_session_def chat_server_def chat_start_def
  base_defs fresh_base_def running_base_def sound_def

lemma chat_start_run: "persistent_run [] chat_start"
  by (rule persistent_run.constructed [of 1 8 100])
    (simp add: new_persistent_server_def fresh_base_new chat_start_def)

lemma chat_run: "persistent_run chat_events (chat_server chat_session)"
proof -
  have "run_persistent chat_events chat_start = Some (chat_server chat_session)"
    by (simp add: chat_events_def chat_eval)
  from run_persistent_run [OF chat_start_run this] show ?thesis by simp
qed

lemma session_messages_in_order_witness:
  "sent_messages chat_session @ write_queue chat_session @ posted_sends chat_session = [''a'', ''b'']"
  using session_messages_in_order [OF chat_run, of 3 chat_session]
  by (simp add: chat_server_def chat_events_def messages_for_def)

text \<open>
  All messages are delivered: on a session none of whose writes has failed, once no send is
  posted and no write is under way, every message broadcast or sent to it has been written.
\<close>

theorem idle_session_delivered_all:
  assumes "persistent_run es s" and "sessions s sid = Some w" and "Ev_written sid True \<notin> set es"
    and "posted_sends w = []" and "write_outstanding w = None"
  shows "sent_messages w = messages_for sid es"
  using persistent_invD(5) [OF persistent_run_inv [OF assms(1)] assms(2)]
    persistent_run_flows [OF assms(1-3)] assms(4,5)
  by (simp add: session_inv_def session_flows_def)

lemma idle_session_delivered_all_witness:
  "[''a'', ''b''] = messages_for 3 (chat_events @ [Ev_written 3 False])"
proof -
  let ?w = "chat_session\<lparr>write_queue := [], write_outstanding := None, sent_messages := [''a'', ''b'']\<rparr>"
  have "persistent_run (chat_events @ [Ev_written 3 False]) (chat_server ?w)"
    by (rule persistent_run.event [OF chat_run]) (simp_all add: chat_eval)
  from idle_session_delivered_all [OF this, of 3 ?w] show ?thesis
    by (simp add: chat_server_def chat_events_def chat_session_def)
qed

definition session_load :: "websocket_session \<Rightarrow> nat" where
  "session_load w = 2 * length (posted_sends w) + length (write_queue w)"

lemma session_load_steps:
  "posted_sends w = m # rest \<Longrightarrow> session_load (run_send m (w\<lparr>posted_sends := rest\<rparr>)) < session_load w"
  "session_inv msgs w \<Longrightarrow> write_outstanding w = Some m \<Longrightarrow> session_load (on_message_written False m w) < session_load w"
  by (cases "write_queue w"; auto simp: session_load_def run_send_def write_message_async_def on_message_written_def
      session_inv_def Let_def split: list.splits)+

lemma session_can_step:
  assumes "persistent_run es s" "sound s" "io_running (ps_base s)" "sessions s sid = Some w"
    and "writable w" "posted_sends w \<noteq> [] \<or> write_outstanding w \<noteq> None"
  shows "\<exists>e w'. e \<in> {Ev_run_send sid, Ev_written sid False} \<and> session_load w' < session_load w \<and> writable w' \<and>
    handle_event e s = Some (s\<lparr>sessions := (sessions s)(sid \<mapsto> w')\<rparr>)"
proof (cases "posted_sends w")
  case (Cons m rest)
  with assms(3,4) session_load_steps(1) [OF Cons] show ?thesis
    by (intro exI [of _ "Ev_run_send sid"] exI [of _ "run_send m (w\<lparr>posted_sends := rest\<rparr>)"])
      (simp add: on_session_def run_posted_def writable_steps assms(5))
next
  case Nil
  with assms(6) obtain m where m: "write_outstanding w = Some m" by auto
  with assms(3,4,5) session_load_steps(2) [OF persistent_invD(5) [OF persistent_run_inv [OF assms(1)] assms(4)] m]
  show ?thesis
    by (intro exI [of _ "Ev_written sid False"] exI [of _ "on_message_written False m w"])
      (simp add: on_session_def complete_write_def writable_steps, simp add: writable_def)
qed

text \<open>
  C25: Every message is delivered: from any state of the running server, a session whose handshake
  has completed, whose stream has not been closed, whose outstanding write (if any) was started
  after the handshake and none of whose writes has failed comes, by its posted sends and
  successful writes alone, to have been sent every message that broadcasts and sends had given
  it, in order. Nothing of this is claimed for sessions still in the handshake: a write started
  there cannot succeed.
\<close>

theorem session_delivers_all:
  assumes "persistent_run es s" and "sound s" and "io_running (ps_base s)" and "sessions s sid = Some w"
    and "writable w" and "Ev_written sid True \<notin> set es"
  shows "\<exists>es' s' w'. run_persistent es' s = Some s' \<and> set es' \<subseteq> {Ev_run_send sid, Ev_written sid False} \<and>
    sessions s' sid = Some w' \<and> sent_messages w' = messages_for sid es"
  using assms
proof (induction "session_load w" arbitrary: es s w rule: less_induct)
  case less
  show ?case
  proof (cases "posted_sends w = [] \<and> write_outstanding w = None")
    case True
    with idle_session_delivered_all [OF less.prems(1,4,6)] less.prems(4) show ?thesis
      by (intro exI [of _ "[]"] exI [of _ s] exI [of _ w]) simp
  next
    case False
    then have "posted_sends w \<noteq> [] \<or> write_outstanding w \<noteq> None" by simp
    from session_can_step [OF less.prems(1-5) this] obtain e w1 where
      e: "e \<in> {Ev_run_send sid, Ev_written sid False}" "session_load w1 < session_load w" "writable w1"
        "handle_event e s = Some (s\<lparr>sessions := (sessions s)(sid \<mapsto> w1)\<rparr>)"
      by (elim exE conjE)
    let ?s = "s\<lparr>sessions := (sessions s)(sid \<mapsto> w1)\<rparr>"
    have "Ev_accept sid \<in> set es" using persistent_invD(3) [OF persistent_run_inv [OF less.prems(1)]] less.prems(4) by auto
    with e(1) have same: "messages_for sid (es @ [e]) = messages_for sid es" by (auto simp: messages_for_snoc)
    have "\<exists>es' s' w'. run_persistent es' ?s = Some s' \<and> set es' \<subseteq> {Ev_run_send sid, Ev_written sid False} \<and>
        sessions s' sid = Some w' \<and> sent_messages w' = messages_for sid (es @ [e])"
    proof (rule less.hyps [OF e(2) persistent_run.event [OF less.prems(1,2) e(4)]])
      show "sound ?s" "io_running (ps_base ?s)" using less.prems(2,3) by (simp_all add: sound_def)
      show "sessions ?s sid = Some w1" "writable w1" using e(3) by simp_all
      show "Ev_written sid True \<notin> set (es @ [e])" using less.prems(6) e(1) by auto
    qed
    then obtain es' s' w' where w': "run_persistent es' ?s = Some s' \<and> set es' \<subseteq> {Ev_run_send sid, Ev_written sid False} \<and>
        sessions s' sid = Some w' \<and> sent_messages w' = messages_for sid (es @ [e])"
      by (elim exE)
    with e(4) less.prems(2) have "run_persistent (e # es') s = Some s'" by simp
    with w' e(1) same show ?thesis
      by (intro exI [of _ "e # es'"] exI [of _ s'] exI [of _ w']) (simp del: run_persistent.simps)
  qed
qed

lemma session_delivers_all_witness:
  "\<exists>es' s' w'. run_persistent es' (chat_server chat_session) = Some s' \<and> sessions s' 3 = Some w' \<and>
     sent_messages w' = [''a'', ''b'']"
proof -
  have "messages_for 3 chat_events = [''a'', ''b'']" by (simp add: chat_events_def messages_for_def)
  moreover have "sound (chat_server chat_session)" "io_running (ps_base (chat_server chat_session))"
    "sessions (chat_server chat_session) 3 = Some chat_session" "writable chat_session"
    "Ev_written 3 True \<notin> set chat_events"
    by (simp_all add: chat_eval chat_events_def writable_def)
  ultimately show ?thesis using session_delivers_all [OF chat_run, of 3 chat_session] by metis
qed

lemma stalled_stays:
  assumes "handle_event e s = Some s'" "persistent_inv es s" "sessions s sid = Some w" "stalled w"
  shows "\<exists>w'. sessions s' sid = Some w' \<and> stalled w' \<and> sent_messages w' = sent_messages w"
proof -
  have "persistent_inv (es @ [e]) s'" by (rule persistent_event_inv [OF assms(2,1)])
  then have "sessions s' sid \<noteq> None"
    using persistent_invD(3) [of "es @ [e]" s' sid] persistent_invD(3) [OF assms(2), of sid] assms(3) by auto
  then obtain w' where w': "sessions s' sid = Some w'" by blast
  from assms(1) w' show ?thesis
  proof (cases rule: session_change)
    case (written w0 ec m)
    with assms(3,4) show ?thesis by (simp add: stalled_def)
  qed (use assms(3,4) w' in \<open>auto simp: stalled_run_send stalled_read on_handshake_def read_message_async_def Let_def\<close>)
qed

lemma stalled_forever:
  "persistent_run es s \<Longrightarrow> sessions s sid = Some w \<Longrightarrow> stalled w \<Longrightarrow> run_persistent es' s = Some s' \<Longrightarrow>
   \<exists>w'. sessions s' sid = Some w' \<and> stalled w' \<and> sent_messages w' = sent_messages w"
proof (induction es' arbitrary: es s w)
  case (Cons e es')
  from Cons.prems(4) obtain s1 where s1: "sound s" "handle_event e s = Some s1" "run_persistent es' s1 = Some s'"
    by (auto simp: bind_eq_Some_conv split: if_splits)
  from stalled_stays [OF s1(2) persistent_run_inv [OF Cons.prems(1)] Cons.prems(2,3)] obtain w1 where
    w1: "sessions s1 sid = Some w1" "stalled w1" "sent_messages w1 = sent_messages w" by blast
  from Cons.IH [OF persistent_run.event [OF Cons.prems(1) s1(1,2)] w1(1,2) s1(3)] w1(3) show ?case by simp
qed simp

text \<open>
  C37: A failed write silences the session for good, whatever the error: the message stays at
  the front of \<open>write_queue\<close>, so every later \<open>send\<close> believes a write to be in progress and
  none is ever started again. After any further events the messages written on the session
  are still the same, and no write is under way.
\<close>

theorem write_error_stalls_session:
  assumes "persistent_run es s" and "sessions s sid = Some w"
    and "run_persistent (Ev_written sid True # es') s = Some s'"
  shows "\<exists>w'. sessions s' sid = Some w' \<and> sent_messages w' = sent_messages w
    \<and> write_queue w' \<noteq> [] \<and> write_outstanding w' = None"
proof -
  from assms(3) obtain s1 where s1: "sound s" "handle_event (Ev_written sid True) s = Some s1"
      "run_persistent es' s1 = Some s'"
    by (auto simp: bind_eq_Some_conv split: if_splits)
  from s1(2) assms(2) obtain m where m: "write_outstanding w = Some m"
      "sessions s1 sid = Some (on_message_written True m w)"
    by (auto simp: complete_write_def elim!: on_sessionE)
  have "write_queue w \<noteq> []"
    using persistent_invD(5) [OF persistent_run_inv [OF assms(1)] assms(2)] m(1)
    by (auto simp: session_inv_def)
  then have "stalled (on_message_written True m w)" by (simp add: stalled_def on_message_written_def)
  from stalled_forever [OF persistent_run.event [OF assms(1) s1(1,2)] m(2) this s1(3)] show ?thesis
    by (auto simp: stalled_def on_message_written_def)
qed

lemma write_error_stalls_session_witness:
  "\<exists>w'. sessions (the (run_persistent [Ev_written 3 True, Ev_send 3 ''c'', Ev_run_send 3]
       (chat_server chat_session))) 3 = Some w'
    \<and> sent_messages w' = [''a''] \<and> write_queue w' \<noteq> [] \<and> write_outstanding w' = None"
proof -
  let ?r = "run_persistent [Ev_written 3 True, Ev_send 3 ''c'', Ev_run_send 3] (chat_server chat_session)"
  have "?r = Some (the ?r)" by (simp add: chat_eval)
  from write_error_stalls_session [OF chat_run _ this, of chat_session] show ?thesis
    by (simp add: chat_server_def chat_session_def)
qed

text \<open>
  A message for a session whose websocket handshake is still under way is written at once: a
  state is reachable in which the write has been started on a stream that is not upgraded yet, and
  cannot succeed.
\<close>

lemma write_before_handshake:
  "\<exists>es s w. persistent_run es s \<and> sessions s 3 = Some w \<and> accepting w \<and> write_outstanding w = Some ''a'' \<and>
     handle_event (Ev_written 3 False) s = None"
proof -
  let ?w = "\<lparr>stream_open = True, upgraded = False, accepting = True, reading_message = False, write_queue = [''a''],
      write_outstanding = Some ''a'', write_upgraded = False, posted_sends = [], sent_messages = []\<rparr>"
  have "run_persistent [Ev_launch, Ev_accept 3, Ev_send 3 ''a'', Ev_run_send 3] chat_start = Some (chat_server ?w)"
    by (simp add: chat_eval)
  from run_persistent_run [OF chat_start_run this] have "persistent_run
      [Ev_launch, Ev_accept 3, Ev_send 3 ''a'', Ev_run_send 3] (chat_server ?w)" by simp
  moreover have "sessions (chat_server ?w) 3 = Some ?w" by (simp add: chat_server_def)
  moreover have "handle_event (Ev_written 3 False) (chat_server ?w) = None" by (simp add: chat_eval)
  ultimately show ?thesis by fastforce
qed

section \<open>The set of sessions\<close>

text \<open>
  Sessions are never removed: \<open>active_sessions\<close> holds every session ever accepted, each
  once, whatever became of its connection, so a broadcast keeps queueing messages for sessions
  that are gone.
\<close>

theorem sessions_never_removed:
  assumes "persistent_run es s"
  shows "distinct (active_sessions s) \<and> set (active_sessions s) = Some ` {sid. Ev_accept sid \<in> set es}"
proof -
  note inv = persistent_invD [OF persistent_run_inv [OF assms]]
  have "dom (sessions s) = {sid. Ev_accept sid \<in> set es}" using inv(3) by (auto simp: dom_def)
  with inv(2,4) show ?thesis by simp
qed

lemma sessions_never_removed_witness: "set (active_sessions (chat_server chat_session)) = {Some 3}"
  using sessions_never_removed [OF chat_run] by (auto simp: chat_events_def)

text \<open>
  The update thread keeps its fixed rate: it runs one frame per observation that the
  server is running, up to the first that it is not, and each frame lasts as long as its update
  took or the frame duration, whichever is longer.
\<close>

theorem update_frames_fixed_rate:
  "update_loop frame_duration frames = map (\<lambda>(running, elapsed). max frame_duration elapsed) (takeWhile fst frames)"
  by (induction frame_duration frames rule: update_loop.induct) (auto simp: frame_sleep_def)

end
