(* ===== verification/Persistent_Service.thy ===== *)
theory Persistent_Service
  imports Persistent_Server
begin

text \<open>
  What the websocket server does as a whole: broadcasts beside the other threads, the packets
  that reach the application, the hooks, and stopping. The server is a \<open>stoppable_server\<close>.
\<close>

section \<open>Broadcasts\<close>

text \<open>The events of a loop of thread \<open>t\<close> over given pointers.\<close>

definition loop_events :: "nat \<Rightarrow> string \<Rightarrow> nat option list \<Rightarrow> persistent_event list" where
  "loop_events t m ptrs =
     map (\<lambda>p. case p of Some sid \<Rightarrow> Ev_broadcast_to t sid m | None \<Rightarrow> Ev_broadcast_skip t) ptrs"

lemma loop_events_simps [simp]:
  "loop_events t m [] = []"
  "loop_events t m (Some sid # ptrs) = Ev_broadcast_to t sid m # loop_events t m ptrs"
  "loop_events t m (None # ptrs) = Ev_broadcast_skip t # loop_events t m ptrs"
  by (simp_all add: loop_events_def)

lemma broadcast_loop_runs:
  "sound s \<Longrightarrow> broadcasting s = [(t, m, rest)] \<Longrightarrow> active_sessions s = kept @ rest \<Longrightarrow> None \<notin> set kept \<Longrightarrow>
   run_persistent (loop_events t m rest @ [Ev_broadcast_done t]) s =
     Some (s\<lparr>sessions := snd (broadcast_loop m rest (sessions s)),
             active_sessions := kept @ fst (broadcast_loop m rest (sessions s)), broadcasting := []\<rparr>)"
proof (induction m rest "sessions s" arbitrary: s kept rule: broadcast_loop.induct)
  case (1 m)
  then show ?case by (simp add: broadcast_done_def)
next
  case (2 m rest)
  let ?s = "s\<lparr>active_sessions := kept @ rest, broadcasting := [(t, m, rest)]\<rparr>"
  have "handle_event (Ev_broadcast_skip t) s = Some ?s"
    using 2 by (simp add: broadcast_skip_def remove1_append)
  with 2 show ?case by (simp add: sound_def)
next
  case (3 m sid rest)
  let ?s = "s\<lparr>sessions := send_to sid m (sessions s), broadcasting := [(t, m, rest)]\<rparr>"
  have "handle_event (Ev_broadcast_to t sid m) s = Some ?s"
    using 3 by (simp add: broadcast_to_def)
  with 3(1) [of ?s "kept @ [Some sid]"] 3(2-) show ?case by (simp add: sound_def split_beta)
qed

text \<open>Run without interruption, the loop's iterations are the function \<open>broadcast\<close>.\<close>

lemma uninterrupted_broadcast:
  assumes "sound s" "broadcasting s = []"
  shows "run_persistent (Ev_broadcast t m # loop_events t m (active_sessions s) @ [Ev_broadcast_done t]) s =
    Some (broadcast m s)"
proof -
  have "s\<lparr>broadcasting := []\<rparr> = s" using assms(2) by (cases s) simp
  moreover have "run_persistent (loop_events t m (active_sessions s) @ [Ev_broadcast_done t])
      (s\<lparr>broadcasting := [(t, m, active_sessions s)]\<rparr>) = Some ((s\<lparr>broadcasting := []\<rparr>)\<lparr>
        sessions := snd (broadcast_loop m (active_sessions s) (sessions s)),
        active_sessions := fst (broadcast_loop m (active_sessions s) (sessions s))\<rparr>)"
    using assms(1) by (subst broadcast_loop_runs [where kept = "[]"]) (simp_all add: sound_def)
  ultimately show ?thesis using assms by (simp add: broadcast_start_def broadcast_def split_beta)
qed

text \<open>The sessions that the iterations of the broadcast of thread \<open>t\<close> have sent to.\<close>

fun target_of :: "nat \<Rightarrow> persistent_event \<Rightarrow> (nat \<times> string) list" where
  "target_of t (Ev_broadcast_to u sid m) = (if u = t then [(sid, m)] else [])"
| "target_of t _ = []"

lemma sound_accept: "sound (on_accept (Some sid) s) \<Longrightarrow> broadcasting s = []"
  by (auto simp: sound_def event_defs Let_def split: if_splits)

lemma broadcast_step:
  assumes "handle_event e s = Some s'" "sound s'" "map_of (broadcasting s) t = Some (m, map Some sids)"
    and "e \<noteq> Ev_broadcast_done t"
  shows "\<exists>sids'. map_of (broadcasting s') t = Some (m, map Some sids') \<and>
    map (\<lambda>sid. (sid, m)) sids = target_of t e @ map (\<lambda>sid. (sid, m)) sids' \<and> (\<forall>sid. e \<noteq> Ev_accept sid)"
proof (cases e)
  case (Ev_accept sid)
  with assms show ?thesis using sound_accept [of sid s] by (simp split: if_splits)
next
  case (Ev_broadcast u x)
  with assms show ?thesis by (auto simp: broadcast_start_def update_conv' split: if_splits)
next
  case (Ev_broadcast_to u sid x)
  with assms(1) obtain rest where "map_of (broadcasting s) u = Some (x, Some sid # rest)"
      "map_of (broadcasting s') = (map_of (broadcasting s))(u \<mapsto> (x, rest))"
    by (auto simp: update_conv' elim!: broadcast_toE)
  with assms(3) Ev_broadcast_to show ?thesis by (auto simp: Cons_eq_map_conv)
next
  case (Ev_broadcast_skip u)
  with assms show ?thesis
    by (cases "u = t") (auto simp: broadcast_skip_def update_conv' split: list.splits option.splits)
next
  case (Ev_broadcast_done u)
  with assms show ?thesis by (auto simp: broadcast_done_def delete_conv' split: list.splits option.splits)
qed (use assms in \<open>auto simp: launch_server_def frame_begin_def frame_end_def
    stop_packets_def join_update_thread_def join_update_self_def Let_def elim!: on_sessionE on_read_packetE
    split: if_splits prod.splits wait_result.splits\<close>)

lemma run_persistent_sound: "run_persistent es s = Some s' \<Longrightarrow> sound s' \<Longrightarrow> sound s"
  by (cases es) (auto split: if_splits)

lemma broadcast_progress:
  "run_persistent es s = Some s' \<Longrightarrow> sound s' \<Longrightarrow> map_of (broadcasting s) t = Some (m, map Some sids) \<Longrightarrow>
   Ev_broadcast_done t \<notin> set es \<Longrightarrow>
   \<exists>sids'. map_of (broadcasting s') t = Some (m, map Some sids') \<and>
     map (\<lambda>sid. (sid, m)) sids = concat (map (target_of t) es) @ map (\<lambda>sid. (sid, m)) sids' \<and>
     (\<forall>sid. Ev_accept sid \<notin> set es)"
proof (induction es arbitrary: s sids)
  case (Cons e es)
  from Cons.prems(1) obtain s1 where s1: "handle_event e s = Some s1" "run_persistent es s1 = Some s'"
    by (auto simp: bind_eq_Some_conv split: if_splits)
  have "e \<noteq> Ev_broadcast_done t" using Cons.prems(4) by auto
  from broadcast_step [OF s1(1) run_persistent_sound [OF s1(2) Cons.prems(2)] Cons.prems(3) this]
  obtain sids1 where "map_of (broadcasting s1) t = Some (m, map Some sids1)"
      "map (\<lambda>sid. (sid, m)) sids = target_of t e @ map (\<lambda>sid. (sid, m)) sids1" "\<forall>sid. e \<noteq> Ev_accept sid"
    by blast
  moreover from Cons.IH [OF s1(2) Cons.prems(2) this(1)] Cons.prems(4) obtain sids' where
      "map_of (broadcasting s') t = Some (m, map Some sids')"
      "map (\<lambda>sid. (sid, m)) sids1 = concat (map (target_of t) es) @ map (\<lambda>sid. (sid, m)) sids'"
      "\<forall>sid. Ev_accept sid \<notin> set es"
    by auto
  ultimately show ?case by auto
qed simp

lemma active_pointers:
  assumes "persistent_inv es s"
  shows "\<exists>sids. active_sessions s = map Some sids \<and> distinct sids \<and> set sids = dom (sessions s)"
proof -
  have "\<forall>p \<in> set (active_sessions s). Some (the p) = p" using persistent_invD(4) [OF assms] by auto
  then have sids: "active_sessions s = map Some (map the (active_sessions s))"
    by (simp add: map_idI)
  then have "distinct (map the (active_sessions s))"
    using persistent_invD(2) [OF assms] by (metis distinct_map)
  moreover have "set (map the (active_sessions s)) = dom (sessions s)"
    using persistent_invD(4) [OF assms] by (simp add: image_image)
  ultimately show ?thesis using sids by blast
qed

text \<open>
  C13: A broadcast that completes without a data race reaches every session exactly once: however
  its iterations interleave with the other threads, between its start and its end the message
  is sent by that thread once to each session that existed at the start, in one order, and no session is
  accepted meanwhile (accepting one is the race). Other threads may broadcast at the same time.
\<close>

theorem broadcast_reaches_every_session:
  assumes "persistent_run es s"
    and "run_persistent (Ev_broadcast t m # es' @ [Ev_broadcast_done t]) s = Some s'" and "sound s'"
    and "Ev_broadcast_done t \<notin> set es'"
  shows "\<exists>sids. distinct sids \<and> set sids = {sid. Ev_accept sid \<in> set es} \<and>
    concat (map (target_of t) es') = map (\<lambda>sid. (sid, m)) sids \<and> (\<forall>sid. Ev_accept sid \<notin> set es')"
proof -
  note inv = persistent_run_inv [OF assms(1)]
  from active_pointers [OF inv] obtain sids where
    sids: "active_sessions s = map Some sids" "distinct sids" "set sids = dom (sessions s)" by blast
  from assms(2) obtain s0 where s0: "s0 = s\<lparr>broadcasting := AList.update t (m, active_sessions s) (broadcasting s)\<rparr>"
      "run_persistent (es' @ [Ev_broadcast_done t]) s0 = Some s'"
    by (auto simp: broadcast_start_def bind_eq_Some_conv split: if_splits)
  have split: "run_persistent (xs @ ys) t = Option.bind (run_persistent xs t) (run_persistent ys)" for xs ys t
    by (induction xs arbitrary: t) (auto simp: bind_eq_Some_conv split: bind_splits)
  from s0(2) obtain s1 where s1: "run_persistent es' s0 = Some s1" "sound s1" "broadcast_done t s1 = Some s'"
    by (auto simp: split bind_eq_Some_conv split: if_splits)
  from broadcast_progress [OF s1(1,2) _ assms(4), of m sids] s0(1) sids(1) obtain sids' where
    p: "map_of (broadcasting s1) t = Some (m, map Some sids')" "map (\<lambda>sid. (sid, m)) sids =
      concat (map (target_of t) es') @ map (\<lambda>sid. (sid, m)) sids'" "\<forall>sid. Ev_accept sid \<notin> set es'"
    by (auto simp: update_conv')
  have "sids' = []" using s1(3) p(1) by (auto simp: broadcast_done_def split: list.splits)
  moreover have "dom (sessions s) = {sid. Ev_accept sid \<in> set es}"
    using persistent_invD(3) [OF inv] by (auto simp: dom_def)
  ultimately show ?thesis using p(2,3) sids(2,3) by (intro exI [of _ sids]) simp
qed

lemma broadcast_reaches_every_session_witness:
  "\<exists>sids. distinct sids \<and> set sids = {3} \<and>
     concat (map (target_of 1) [Ev_pop, Ev_broadcast 2 ''d'', Ev_broadcast_to 1 3 ''c'', Ev_broadcast_to 2 3 ''d'', Ev_run_send 3]) = map (\<lambda>sid. (sid, ''c'')) sids"
proof -
  let ?es = "Ev_broadcast 1 ''c'' # [Ev_pop, Ev_broadcast 2 ''d'', Ev_broadcast_to 1 3 ''c'', Ev_broadcast_to 2 3 ''d'', Ev_run_send 3] @ [Ev_broadcast_done 1]"
  let ?q = "\<lparr>dequeue = [\<lparr>packet_session = 3, payload = ''x''\<rparr>], stopped = False, maximum_size = 8,
      maximum_bytes = 100, current_bytes = 1\<rparr>"
  have run: "persistent_run (chat_events @ [Ev_read 3 (Inr ''x'')])
      (chat_server chat_session\<lparr>incoming_packets_queue := ?q\<rparr>)"
    by (rule persistent_run.event [OF chat_run])
      (simp_all add: chat_eval on_read_packet_def on_message_read_def push_incoming_packet_def
        try_push_back_def pre_addition_check_protocol_def packet_template_def new_queue_def)
  have "\<exists>s'. run_persistent ?es (chat_server chat_session\<lparr>incoming_packets_queue := ?q\<rparr>) = Some s' \<and> sound s'"
    by (simp add: chat_eval wait_and_pop_def wait_predicate_def removal_protocol_def packet_template_def)
  then obtain s' where s': "run_persistent ?es (chat_server chat_session\<lparr>incoming_packets_queue := ?q\<rparr>) = Some s'"
      "sound s'" by blast
  have accepts: "{sid. Ev_accept sid \<in> set (chat_events @ [Ev_read 3 (Inr ''x'')])} = {3}"
    by (auto simp: chat_events_def)
  from broadcast_reaches_every_session [OF run s'] show ?thesis unfolding accepts by simp
qed


section \<open>Packets to the application\<close>

text \<open>The packet an event puts into the queue, and the one it hands to the application.\<close>

fun packet_queued :: "persistent_event \<Rightarrow> persistent_server \<Rightarrow> incoming_packet list" where
  "packet_queued (Ev_read sid (Inr data)) s =
     (let packet = \<lparr>packet_session = sid, payload = data\<rparr>
      in if fst (try_push_back packet_template packet (incoming_packets_queue s)) then [packet] else [])"
| "packet_queued _ s = []"

fun packet_popped :: "persistent_event \<Rightarrow> persistent_server \<Rightarrow> incoming_packet list" where
  "packet_popped Ev_pop s = take 1 (dequeue (incoming_packets_queue s))"
| "packet_popped _ s = []"

fun packet_log ::
    "persistent_event list \<Rightarrow> persistent_server \<Rightarrow> incoming_packet list \<times> incoming_packet list" where
  "packet_log [] s = ([], [])"
| "packet_log (e # es) s =
     (case handle_event e s of
        None \<Rightarrow> ([], [])
      | Some s' \<Rightarrow>
          let (queued, popped) = packet_log es s'
          in (packet_queued e s @ queued, packet_popped e s @ popped))"

lemma packet_step:
  assumes "handle_event e s = Some s'"
  shows "dequeue (incoming_packets_queue s) @ packet_queued e s =
    packet_popped e s @ dequeue (incoming_packets_queue s')"
proof (cases e)
  case (Ev_read sid result)
  with assms obtain w where
    "incoming_packets_queue s' = snd (on_message_read sid result w (incoming_packets_queue s))"
    by (auto elim!: on_read_packetE)
  with Ev_read show ?thesis
    by (cases result) (auto simp: on_message_read_def push_incoming_packet_def Let_def split_beta dequeue_try_push_back)
next
  case Ev_pop
  with assms show ?thesis
    by (auto simp: wait_and_pop_def split: if_splits list.splits)
qed (use assms in \<open>auto simp: launch_server_def broadcast_start_def broadcast_skip_def broadcast_done_def
    frame_begin_def frame_end_def stop_packets_def join_update_thread_def join_update_self_def Let_def
    elim!: on_sessionE broadcast_toE split: if_splits option.splits list.splits\<close>)

text \<open>
  The application gets the packets in the order in which they were read, over all sessions:
  the packets popped from the queue are the first of the packets it accepted, in the same
  order, and the rest is what it still holds.
\<close>

theorem packets_popped_in_order:
  assumes "run_persistent es s = Some s'" and "dequeue (incoming_packets_queue s) = []"
  shows "fst (packet_log es s) = snd (packet_log es s) @ dequeue (incoming_packets_queue s')"
proof -
  have "dequeue (incoming_packets_queue s) @ fst (packet_log es s) =
      snd (packet_log es s) @ dequeue (incoming_packets_queue s')"
    using assms(1)
  proof (induction es arbitrary: s)
    case (Cons e es)
    then obtain s1 where s1: "handle_event e s = Some s1" "run_persistent es s1 = Some s'"
      by (auto simp: bind_eq_Some_conv split: if_splits)
    from Cons.IH [OF s1(2)] packet_step [OF s1(1)] s1(1) show ?case
      by (simp add: split_beta) (metis append.assoc)
  qed simp
  with assms(2) show ?thesis by simp
qed

lemma packets_popped_in_order_witness:
  "fst (packet_log chat_events chat_start) = snd (packet_log chat_events chat_start) @ []"
proof -
  have "run_persistent chat_events chat_start = Some (chat_server chat_session)"
    by (simp add: chat_events_def chat_eval)
  from packets_popped_in_order [OF this] show ?thesis
    by (simp add: chat_start_def chat_server_def new_queue_def)
qed

section \<open>Flooding\<close>

text \<open>The messages read on a session.\<close>

fun data_read :: "nat \<Rightarrow> persistent_event \<Rightarrow> string list" where
  "data_read sid (Ev_read i (Inr data)) = (if i = sid then [data] else [])"
| "data_read sid _ = []"

lemma stream_open_frame [simp]:
  "stream_open (run_send m w) = stream_open w" "stream_open (send m w) = stream_open w"
  "stream_open (on_handshake ec w) = stream_open w" "stream_open (on_message_written ec m w) = stream_open w"
  by (auto simp: run_send_def write_message_async_def send_def on_handshake_def read_message_async_def
      on_message_written_def Let_def split: list.splits)

lemma stream_closed_read:
  "\<not> stream_open w \<Longrightarrow> \<not> stream_open (fst (on_message_read sid result w q))"
  by (auto simp: on_message_read_def push_incoming_packet_def read_message_async_def Let_def split_beta
      split: sum.splits)

lemma stream_closed_stays:
  assumes "handle_event e s = Some s'" "persistent_inv es s" "sessions s sid = Some w" "\<not> stream_open w"
  shows "data_read sid e = [] \<and> (\<exists>w'. sessions s' sid = Some w' \<and> \<not> stream_open w')"
proof -
  have "data_read sid e = []"
  proof (cases "(sid, e)" rule: data_read.cases)
    case (1 i j data)
    with assms show ?thesis by (auto elim!: on_read_packetE)
  qed simp_all
  moreover have "persistent_inv (es @ [e]) s'" by (rule persistent_event_inv [OF assms(2,1)])
  then obtain w' where w': "sessions s' sid = Some w'"
    using persistent_invD(3) [of "es @ [e]" s' sid] persistent_invD(3) [OF assms(2), of sid] assms(3) by auto
  from assms(1) w' have "\<not> stream_open w'"
    by (cases rule: session_change) (use assms(3,4) w' in \<open>auto simp: stream_closed_read\<close>)
  ultimately show ?thesis using w' by blast
qed

lemma stream_closed_run:
  "persistent_run es s \<Longrightarrow> sessions s sid = Some w \<Longrightarrow> \<not> stream_open w \<Longrightarrow> run_persistent es' s = Some s' \<Longrightarrow>
   concat (map (data_read sid) es') = []"
proof (induction es' arbitrary: es s w)
  case (Cons e es')
  from Cons.prems(4) obtain s1 where s1: "sound s" "handle_event e s = Some s1" "run_persistent es' s1 = Some s'"
    by (auto simp: bind_eq_Some_conv split: if_splits)
  from stream_closed_stays [OF s1(2) persistent_run_inv [OF Cons.prems(1)] Cons.prems(2,3)]
    Cons.IH [OF persistent_run.event [OF Cons.prems(1) s1(1,2)] _ _ s1(3)]
  show ?case by auto
qed simp

text \<open>
  A session that floods the server is cut off: when the queue refuses a packet, the
  session's stream is closed, the queue keeps what it held, and no further message of that
  session is ever read.
\<close>

theorem flooding_session_cut_off:
  assumes "persistent_run es s" and "sound s"
    and "handle_event (Ev_read sid (Inr data)) s = Some s1"
    and "\<not> fits packet_template \<lparr>packet_session = sid, payload = data\<rparr> (incoming_packets_queue s)"
    and "run_persistent es' s1 = Some s'"
  shows "incoming_packets_queue s1 = incoming_packets_queue s \<and>
    (\<exists>w1. sessions s1 sid = Some w1 \<and> \<not> stream_open w1) \<and> concat (map (data_read sid) es') = []"
proof -
  let ?p = "\<lparr>packet_session = sid, payload = data\<rparr>" and ?q = "incoming_packets_queue s"
  have inv: "queue_invar packet_template ?q" by (rule persistent_invD(1) [OF persistent_run_inv [OF assms(1)]])
  have refused: "\<not> fst (try_push_back packet_template ?p ?q)" "snd (snd (try_push_back packet_template ?p ?q)) = ?q"
    using tsq.offer_refused [OF inv assms(4)] by simp_all
  from assms(3) obtain w where w: "s1 = s\<lparr>sessions := (sessions s)(sid \<mapsto> fst (on_message_read sid (Inr data) w ?q)),
      incoming_packets_queue := snd (on_message_read sid (Inr data) w ?q)\<rparr>"
    by (auto elim!: on_read_packetE)
  have "\<not> stream_open (fst (on_message_read sid (Inr data) w ?q))" "snd (on_message_read sid (Inr data) w ?q) = ?q"
    using refused by (simp_all add: on_message_read_def push_incoming_packet_def read_message_async_def Let_def split_beta)
  with stream_closed_run [OF persistent_run.event [OF assms(1-3)] _ _ assms(5), of sid] w show ?thesis by auto
qed

definition tiny_server :: persistent_server where
  "tiny_server = chat_start\<lparr>ps_base := running_base, sessions := [3 \<mapsto> chat_session\<lparr>write_queue := [],
     write_outstanding := None, write_upgraded := False, sent_messages := []\<rparr>], active_sessions := [Some 3],
     update_loop_thread := Executing, connected_calls := [None],
     incoming_packets_queue := (new_queue 8 1)\<rparr>"

lemma tiny_run: "persistent_run [Ev_launch, Ev_accept 3, Ev_handshake 3 False] tiny_server"
proof -
  let ?s = "chat_start\<lparr>incoming_packets_queue := new_queue 8 1\<rparr>"
  have "persistent_run [] ?s"
    by (rule persistent_run.constructed [of 1 8 1])
      (simp add: new_persistent_server_def fresh_base_new chat_start_def)
  moreover have "run_persistent [Ev_launch, Ev_accept 3, Ev_handshake 3 False] ?s = Some tiny_server"
    by (simp add: tiny_server_def chat_eval)
  ultimately show ?thesis using run_persistent_run by fastforce
qed

lemma flooding_session_cut_off_witness:
  "\<exists>w1. sessions (the (handle_event (Ev_read 3 (Inr ''hello'')) tiny_server)) 3 = Some w1 \<and> \<not> stream_open w1"
proof -
  let ?r = "handle_event (Ev_read 3 (Inr ''hello'')) tiny_server"
  have "?r = Some (the ?r)"
    by (simp add: tiny_server_def chat_eval on_read_packet_def split_beta)
  moreover have "\<not> fits packet_template \<lparr>packet_session = 3, payload = ''hello''\<rparr> (incoming_packets_queue tiny_server)"
    by (simp add: tiny_server_def fits_def counts_bytes_def packet_template_def new_queue_def queued_bytes_def)
  moreover have "sound tiny_server" by (simp add: tiny_server_def chat_eval)
  ultimately show ?thesis
    using flooding_session_cut_off [OF tiny_run, of 3 "''hello''" "the ?r" "[]"] by simp
qed

section \<open>The hooks\<close>

text \<open>
  \<open>on_client_connected\<close> runs once per accepted session, but always with the socket that was
  moved into the session; \<open>on_client_disconnected\<close> is never called.
\<close>

lemma hooks_step:
  assumes "handle_event e s = Some s'"
  shows "disconnected_calls s' = disconnected_calls s \<and>
    connected_calls s' = connected_calls s @ (case e of Ev_accept sid \<Rightarrow> [None] | _ \<Rightarrow> [])"
  using assms
  by (cases e) (auto simp: event_defs Let_def elim!: on_read_packetE
      split: if_splits option.splits list.splits prod.splits wait_result.splits)

lemma connected_with_moved_socket:
  "persistent_run es s \<Longrightarrow> disconnected_calls s = [] \<and>
   connected_calls s = map (\<lambda>_. None) (filter (\<lambda>e. \<exists>sid. e = Ev_accept sid) es)"
proof (induction rule: persistent_run.induct)
  case (constructed dt ms mb s)
  then show ?case by (auto simp: new_persistent_server_def split: sum.splits)
next
  case (event es s e s')
  with hooks_step [OF event.hyps(3)] show ?case by (cases e) simp_all
qed


section \<open>Stopping\<close>

lemma persistent_base_step:
  assumes "handle_event e s = Some s'"
  shows "case persistent_base_event e of None \<Rightarrow> ps_base s' = ps_base s
    | Some be \<Rightarrow> base_step be (ps_base s) = Some (ps_base s')"
  using assms
  by (cases e) (auto simp: event_defs start_accept_async_def is_running_def Let_def elim!: on_read_packetE
      split: if_splits option.splits list.splits prod.splits wait_result.splits)

lemma persistent_keeps_stopped:
  assumes "handle_event e s = Some s'" "stopped (incoming_packets_queue s)"
  shows "stopped (incoming_packets_queue s')"
proof (cases e)
  case (Ev_read sid result)
  with assms obtain w where
    "incoming_packets_queue s' = snd (on_message_read sid result w (incoming_packets_queue s))"
    by (auto elim!: on_read_packetE)
  moreover have "stopped (snd (snd (try_push_back packet_template p (incoming_packets_queue s))))" for p
    using call_keeps_stopped [OF assms(2), of packet_template "Try_push_back p"] by (simp add: split_beta)
  ultimately show ?thesis
    using assms(2)
    by (cases result) (simp_all add: on_message_read_def push_incoming_packet_def Let_def split_beta)
next
  case Ev_pop
  with assms show ?thesis by (auto simp: wait_and_pop_def split: if_splits list.splits)
qed (use assms in \<open>auto simp: event_defs Let_def split: if_splits option.splits list.splits\<close>)

interpretation pss: stoppable_server ps_base persistent_run handle_event persistent_base_event
    "\<lambda>s. stopped (incoming_packets_queue s)"
proof
  show "persistent_run [] s \<Longrightarrow> new_server_base None = Inr (ps_base s)" for s
    by (erule persistent_run.cases) (auto simp: new_persistent_server_def split: sum.splits)
  show "persistent_run (es @ [e]) s' \<Longrightarrow>
      \<exists>s. persistent_run es s \<and> failure (ps_base s) = None \<and> handle_event e s = Some s'" for es e s'
    by (erule persistent_run.cases) (auto simp: sound_def)
  show "handle_event e s = Some s' \<Longrightarrow> (case persistent_base_event e of None \<Rightarrow> ps_base s' = ps_base s
      | Some be \<Rightarrow> base_step be (ps_base s) = Some (ps_base s'))" for e s s'
    by (rule persistent_base_step)
  show "stopped (incoming_packets_queue s')"
    if "handle_event e s = Some s'" "persistent_base_event e = Some Queue_stops" for e s s'
  proof -
    have "e = Ev_queue_stop \<or> e = Ev_base Queue_stops"
      using that(2) by (cases e) simp_all
    with that(1) show ?thesis by (auto simp: stop_packets_def)
  qed
  show "handle_event e s = Some s' \<Longrightarrow> stopped (incoming_packets_queue s) \<Longrightarrow> stopped (incoming_packets_queue s')"
    for e s s'
    by (rule persistent_keeps_stopped)
qed

text \<open>The update thread exists only with a positive frame time, and a frame only in a thread.\<close>

definition update_inv :: "persistent_server \<Rightarrow> bool" where
  "update_inv s \<longleftrightarrow> (in_frame s \<longrightarrow> update_loop_thread s = Executing)
     \<and> (update_loop_thread s \<noteq> No_thread \<longrightarrow> 0 < fixed_delta_time s)"

lemma update_inv_step: "handle_event e s = Some s' \<Longrightarrow> update_inv s \<Longrightarrow> update_inv s'"
  by (cases e) (auto simp: event_defs update_inv_def Let_def elim!: on_read_packetE
      split: if_splits option.splits list.splits prod.splits wait_result.splits)

lemma update_inv_run: "persistent_run es s \<Longrightarrow> update_inv s"
proof (induction rule: persistent_run.induct)
  case (constructed dt ms mb s)
  then show ?case by (auto simp: new_persistent_server_def update_inv_def split: sum.splits)
next
  case (event es s e s')
  then show ?case by (blast intro: update_inv_step)
qed

lemma run_persistent_append:
  "run_persistent es s = Some s1 \<Longrightarrow> run_persistent es' s1 = Some s2 \<Longrightarrow> run_persistent (es @ es') s = Some s2"
  by (induction es arbitrary: s) (auto simp: bind_eq_Some_conv split: if_splits)

lemma run_base_persistent:
  "fault s = None \<Longrightarrow> list_all stop_path es \<Longrightarrow> base_steps es (ps_base s) = Some b \<Longrightarrow>
   run_persistent (map Ev_base es) s = Some (s\<lparr>ps_base := b\<rparr>)"
proof (induction es arbitrary: s)
  case (Cons e es)
  from Cons.prems(3) obtain b1 where "failure (ps_base s) = None" "base_step e (ps_base s) = Some b1"
      "base_steps es b1 = Some b"
    by (auto simp: bind_eq_Some_conv split: if_splits)
  moreover have "shared_event e" "e \<noteq> Launch" "stop_caller_present e s"
    using Cons.prems(2) stop_path_shared [of e] by (cases "(e, s)" rule: stop_caller_present.cases; simp)+
  ultimately show ?case using Cons.prems Cons.IH [of "s\<lparr>ps_base := b1\<rparr>"] by (simp add: sound_def)
qed simp

text \<open>The update thread, once the context is stopped: it finishes its frame and leaves the loop.\<close>

lemma update_thread_ends:
  assumes "sound s" "update_inv s" "\<not> is_running (ps_base s)" "\<not> in_stop 0 (ps_base s)"
  shows "\<exists>es s'. run_persistent es s = Some s' \<and> sound s' \<and> ps_base s' = ps_base s \<and>
    update_loop_thread s' \<noteq> Executing"
proof (cases "update_loop_thread s = Executing")
  case False
  with assms(1) show ?thesis by (intro exI [of _ "[]"] exI [of _ s]) simp
next
  case True
  show ?thesis
  proof (cases "in_frame s")
    case True
    with \<open>update_loop_thread s = Executing\<close> assms(1,3,4) show ?thesis
      by (intro exI [of _ "[Ev_frame_end, Ev_frame_begin]"] exI)
        (auto simp: frame_end_def frame_begin_def sound_def)
  next
    case False
    with True assms(1,3) show ?thesis
      by (intro exI [of _ "[Ev_frame_begin]"] exI) (auto simp: frame_begin_def sound_def)
  qed
qed

lemma update_join_completes:
  assumes "persistent_run es s" "sound s" "Queue_stopped \<le> stop_progress (ps_base s)" "\<not> in_stop 0 (ps_base s)"
  shows "\<exists>es' s'. run_persistent es' s = Some s' \<and> sound s' \<and> stop_progress (ps_base s') = Stop_returned"
proof (cases "stop_progress (ps_base s) = Stop_returned")
  case True
  with assms(2) show ?thesis by (intro exI [of _ "[]"] exI [of _ s]) simp
next
  case False
  with assms(3) have prog: "stop_progress (ps_base s) = Queue_stopped"
    by (cases "stop_progress (ps_base s)") (simp_all add: progress_order)
  then have "\<not> is_running (ps_base s)"
    using base_invD(2) [OF pss.run_base_inv [OF assms(1)]] by (simp add: is_running_def progress_order)
  from update_thread_ends [OF assms(2) update_inv_run [OF assms(1)] this assms(4)] obtain es1 s1 where
    s1: "run_persistent es1 s = Some s1" "sound s1" "ps_base s1 = ps_base s" "update_loop_thread s1 \<noteq> Executing"
    by blast
  then have "run_persistent [Ev_joined] s1 =
      Some (s1\<lparr>ps_base := (ps_base s1)\<lparr>stop_progress := Stop_returned\<rparr>, update_loop_thread := No_thread\<rparr>)"
    using prog by (simp add: join_update_thread_def)
  from run_persistent_append [OF s1(1) this] s1(2) show ?thesis unfolding sound_def by fastforce
qed

lemma packet_stop_completes:
  assumes "sound s" "Base_stopped \<le> stop_progress (ps_base s)"
  shows "\<exists>es' s'. run_persistent es' s = Some s' \<and> sound s' \<and> Queue_stopped \<le> stop_progress (ps_base s')
    \<and> stop_caller (ps_base s') = stop_caller (ps_base s) \<and> stopping (ps_base s') = stopping (ps_base s)"
proof (cases "stop_progress (ps_base s) = Base_stopped")
  case True
  with assms(1) show ?thesis
    by (intro exI [of _ "[Ev_queue_stop]"] exI) (auto simp: stop_packets_def sound_def)
next
  case False
  with assms show ?thesis
    by (intro exI [of _ "[]"] exI [of _ s]) (cases "stop_progress (ps_base s)"; simp add: progress_order)
qed

lemma reaches_packet_stop:
  assumes "persistent_run es s" "sound s" "stopping (ps_base s)"
    and "joiner (ps_base s) \<noteq> Some Waiter" "stop_caller (ps_base s) \<noteq> Context_thread"
  shows "\<exists>es' s'. run_persistent es' s = Some s' \<and> sound s' \<and> Queue_stopped \<le> stop_progress (ps_base s')
    \<and> stop_caller (ps_base s') = stop_caller (ps_base s) \<and> stopping (ps_base s')"
proof -
  have ok: "fault s = None" "failure (ps_base s) = None" using assms(2) by (simp_all add: sound_def)
  from base_stop_completes [OF pss.run_base_inv [OF assms(1)] ok(2) assms(3-5)] obtain es1 b where
    b: "list_all stop_path es1" "base_steps es1 (ps_base s) = Some b" "failure b = None"
      "Base_stopped \<le> stop_progress b"
    by blast
  let ?s1 = "s\<lparr>ps_base := b\<rparr>"
  have s1: "run_persistent (map Ev_base es1) s = Some ?s1" "sound ?s1"
    using run_base_persistent [OF ok(1) b(1,2)] b(3) ok(1) by (simp_all add: sound_def)
  from packet_stop_completes [OF s1(2)] b(4) obtain es2 s2 where
    s2: "run_persistent es2 ?s1 = Some s2" "sound s2" "Queue_stopped \<le> stop_progress (ps_base s2)"
      "stop_caller (ps_base s2) = stop_caller b" "stopping (ps_base s2) = stopping b" by auto
  from run_persistent_append [OF s1(1) s2(1)] s2 stop_path_caller [OF b(1,2)] assms(3) show ?thesis by metis
qed

text \<open>
  C38: The websocket server stops once, in order and completely: the steps of \<open>stop\<close> that have
  happened are the first of the sequence stop the context, join its thread, stop the queue,
  join the update thread; after the join no handler runs. From every reachable state in which
  an application thread is in \<open>stop\<close>, and no thread waits in \<open>join_context_thread\<close>, there is a
  continuation in which \<open>stop\<close> returns.
\<close>

theorem persistent_stop_completes:
  assumes "persistent_run es s" and "sound s"
  shows "filter (\<lambda>e. e \<in> set stop_sequence) (List.map_filter persistent_base_event es) =
      take (progress_rank (stop_progress (ps_base s)) - 1) stop_sequence \<and>
    (Base_stopped \<le> stop_progress (ps_base s) \<longrightarrow> \<not> io_running (ps_base s)) \<and>
    (stopping (ps_base s) \<and> joiner (ps_base s) \<noteq> Some Waiter \<and> stop_caller (ps_base s) = Application_thread \<longrightarrow>
       (\<exists>es' s'. run_persistent es' s = Some s' \<and> sound s' \<and> stop_progress (ps_base s') = Stop_returned))"
proof -
  have ok: "fault s = None" "failure (ps_base s) = None" using assms(2) by (simp_all add: sound_def)
  have "\<exists>es' s'. run_persistent es' s = Some s' \<and> sound s' \<and> stop_progress (ps_base s') = Stop_returned"
    if st: "stopping (ps_base s)" "joiner (ps_base s) \<noteq> Some Waiter" "stop_caller (ps_base s) = Application_thread"
  proof -
    from reaches_packet_stop [OF assms st(1,2)] st(3) obtain es1 s1 where
      s1: "run_persistent es1 s = Some s1" "sound s1" "Queue_stopped \<le> stop_progress (ps_base s1)"
        "\<not> in_stop 0 (ps_base s1)"
      by (auto simp: in_stop_def)
    from update_join_completes [OF run_persistent_run [OF assms(1) s1(1)] s1(2-4)] obtain es2 s2 where
      "run_persistent es2 s1 = Some s2" "sound s2" "stop_progress (ps_base s2) = Stop_returned" by blast
    with run_persistent_append [OF s1(1)] show ?thesis by blast
  qed
  then show ?thesis
    using pss.stop_once_in_order [OF assms(1)] pss.no_io_after_base_stop [OF assms(1) ok(2)] by blast
qed

lemma persistent_stop_completes_witness:
  "\<exists>es' s'. run_persistent es' (chat_server chat_session\<lparr>ps_base := stopping_base\<rparr>) = Some s' \<and> sound s'
     \<and> stop_progress (ps_base s') = Stop_returned"
proof -
  have "persistent_run (chat_events @ [Ev_base (Try_stop Application_thread)])
      (chat_server chat_session\<lparr>ps_base := stopping_base\<rparr>)"
    by (rule persistent_run.event [OF chat_run])
      (simp_all add: stopping_base_def waiting_base_def chat_eval)
  from persistent_stop_completes [OF this] show ?thesis
    by (simp add: stopping_base_def waiting_base_def chat_eval)
qed

text \<open>
  The update thread cannot stop the server: while it is in \<open>stop\<close> the frame does not end,
  and the join of the update thread by itself ends the program.
\<close>

lemma update_stop_frame: "persistent_run es s \<Longrightarrow> in_stop w (ps_base s) \<Longrightarrow> w = 0 \<and> in_frame s \<and> stop_progress (ps_base s) \<noteq> Stop_returned"
proof (induction rule: persistent_run.induct)
  case (constructed dt ms mb s)
  then show ?case by (auto simp: new_persistent_server_def new_server_base_def in_stop_def split: sum.splits)
next
  case (event es s e s')
  show ?case
  proof (cases "in_stop w (ps_base s)")
    case True
    with event.IH event.hyps(3) update_inv_run [OF event.hyps(1)] show ?thesis
      by (cases e) (auto simp: event_defs base_defs update_inv_def in_stop_def Let_def elim!: stop_caller_present.elims on_read_packetE
          split: if_splits option.splits list.splits prod.splits wait_result.splits)
  next
    case False
    have base: "case persistent_base_event e of None \<Rightarrow> ps_base s' = ps_base s
        | Some be \<Rightarrow> base_step be (ps_base s) = Some (ps_base s')"
      by (rule pss.step_base [OF event.hyps(3)])
    with False event.prems obtain be where
      be: "persistent_base_event e = Some be" "base_step be (ps_base s) = Some (ps_base s')"
      by (auto split: option.splits)
    with base_step_in_stop False event.prems have "be = Try_stop (Pool_thread w)" by blast
    with be(1) have "e = Ev_base (Try_stop (Pool_thread w))" by (cases e) simp_all
    with event.hyps(3) event.prems False show ?thesis by (auto simp: base_defs in_stop_def split: if_splits)
  qed
qed

lemma update_cannot_stop_server:
  assumes "persistent_run es s" "sound s" "in_stop w (ps_base s)" "joiner (ps_base s) \<noteq> Some Waiter"
  shows "stop_progress (ps_base s) \<noteq> Stop_returned \<and>
    (\<exists>es' s'. run_persistent es' s = Some s' \<and> fault s' = Some (System_error ''resource_deadlock_would_occur''))"
proof -
  have caller: "stopping (ps_base s)" "stop_caller (ps_base s) = Pool_thread w"
    using assms(3) by (simp_all add: in_stop_def)
  with reaches_packet_stop [OF assms(1,2) caller(1) assms(4)] obtain es1 s1 where
    s1: "run_persistent es1 s = Some s1" "sound s1" "Queue_stopped \<le> stop_progress (ps_base s1)" "in_stop w (ps_base s1)"
    by (auto simp: in_stop_def)
  note run1 = run_persistent_run [OF assms(1) s1(1)]
  have "stop_progress (ps_base s1) = Queue_stopped"
    using update_stop_frame [OF run1 s1(4)] s1(3) by (cases "stop_progress (ps_base s1)") (simp_all add: progress_order)
  then have "run_persistent [Ev_join_self] s1 =
      Some (s1\<lparr>fault := Some (System_error ''resource_deadlock_would_occur'')\<rparr>)"
    using s1(2,4) update_stop_frame [OF run1 s1(4)] by (simp add: join_update_self_def)
  from run_persistent_append [OF s1(1) this] update_stop_frame [OF assms(1,3)] show ?thesis by fastforce
qed

end
