(* ===== verification/Broadcast_Server.thy ===== *)
theory Broadcast_Server
  imports Persistent_Service
begin

text \<open>
  An application of the websocket server, \<open>testing/servers/broadcast_server.hpp\<close>: its \<open>update\<close>
  drains the queue of incoming packets and broadcasts each payload. Composes the queue, the
  sessions and the broadcast loop: what clients send reaches every session, in the order in which
  it was read.
\<close>

section \<open>The override of \<open>update\<close>\<close>

record broadcast_server =
  server :: persistent_server
  last_received_payload :: string
  processed_packets_count :: "32 word"

definition new_broadcast_server :: "exn option \<Rightarrow> broadcast_server outcome" where
  "new_broadcast_server bind_error =
     map_sum id (\<lambda>s. \<lparr>server = s, last_received_payload = [], processed_packets_count = 0\<rparr>)
       (new_persistent_server bind_error (1 / 60) DEFAULT_MAX_INCOMING_PACKETS DEFAULT_MAX_INCOMING_BYTES)"

definition test_broadcast :: "string \<Rightarrow> broadcast_server \<Rightarrow> broadcast_server" where
  "test_broadcast msg b = b\<lparr>server := broadcast msg (server b)\<rparr>"

lemma new_broadcast_server_run: "new_broadcast_server None = Inr b \<Longrightarrow> persistent_run [] (server b)"
  by (auto simp: new_broadcast_server_def map_sum_def intro: persistent_run.constructed split: sum.splits)

text \<open>
  \<open>while (!incoming_packets_queue.empty())\<close>: the update thread is the only one that removes
  packets, so \<open>pop_front\<close> does not throw.
\<close>

function update :: "broadcast_server \<Rightarrow> broadcast_server" where
  "update b =
     (if empty (incoming_packets_queue (server b)) then b
      else case pop_front packet_template (incoming_packets_queue (server b)) of
          (Inl e, q) \<Rightarrow> b
        | (Inr packet, q) \<Rightarrow>
            update \<lparr>server = broadcast (payload packet) ((server b)\<lparr>incoming_packets_queue := q\<rparr>),
                    last_received_payload = payload packet,
                    processed_packets_count = processed_packets_count b + 1\<rparr>)"
  by pat_completeness auto
termination
  by (relation "measure (\<lambda>b. length (dequeue (incoming_packets_queue (server b))))")
    (auto simp: empty_def pop_front_def broadcast_def split_beta split: list.splits)

declare update.simps [simp del]

text \<open>The events of a call that no other thread interrupts, made by the thread \<open>t\<close>.\<close>

fun update_events :: "nat \<Rightarrow> nat option list \<Rightarrow> incoming_packet list \<Rightarrow> persistent_event list" where
  "update_events t ptrs [] = []"
| "update_events t ptrs (packet # packets) =
     (Ev_pop # Ev_broadcast t (payload packet) # loop_events t (payload packet) ptrs @ [Ev_broadcast_done t]) @
     update_events t ptrs packets"

lemma broadcast_loop_pointers:
  "distinct sids \<Longrightarrow> broadcast_loop m (map Some sids) ss =
     (map Some sids, \<lambda>sid. if sid \<in> set sids then map_option (send m) (ss sid) else ss sid)"
  by (induction sids arbitrary: ss) (auto simp: send_to_def fun_eq_iff)

text \<open>The pointers are those of the sessions, each once.\<close>

definition pointers_ok :: "nat list \<Rightarrow> persistent_server \<Rightarrow> bool" where
  "pointers_ok sids s \<longleftrightarrow> active_sessions s = map Some sids \<and> distinct sids \<and> set sids = dom (sessions s)"

lemma broadcast_effect:
  assumes "pointers_ok sids s"
  shows "broadcast m s = s\<lparr>sessions := (\<lambda>sid. map_option (send m) (sessions s sid))\<rparr>"
proof -
  have "(\<lambda>sid. if sid \<in> set sids then map_option (send m) (sessions s sid) else sessions s sid) =
      (\<lambda>sid. map_option (send m) (sessions s sid))"
    using assms by (auto simp: pointers_ok_def fun_eq_iff domIff)
  with assms show ?thesis by (simp add: broadcast_def broadcast_loop_pointers pointers_ok_def)
qed

text \<open>
  The call as events of the server, and its effect: the queue is drained, and every session has the
  payloads posted to it, in the order of the queue.
\<close>

lemma update_runs:
  assumes "sound (server b)" "broadcasting (server b) = []" "pointers_ok sids (server b)"
    and "dequeue (incoming_packets_queue (server b)) = packets"
  shows "run_persistent (update_events t (map Some sids) packets) (server b) = Some (server (update b)) \<and>
    dequeue (incoming_packets_queue (server (update b))) = [] \<and>
    sessions (server (update b)) =
      (\<lambda>sid. map_option (\<lambda>w. w\<lparr>posted_sends := posted_sends w @ map payload packets\<rparr>) (sessions (server b) sid)) \<and>
    processed_packets_count (update b) = processed_packets_count b + of_nat (length packets) \<and>
    last_received_payload (update b) = last (last_received_payload b # map payload packets)"
  using assms
proof (induction packets arbitrary: b)
  case Nil
  then show ?case by (simp add: update.simps empty_def fun_eq_iff option.map_ident)
next
  case (Cons packet packets)
  let ?s = "server b"
  let ?q = "snd (pop_front packet_template (incoming_packets_queue ?s))"
  let ?s1 = "?s\<lparr>incoming_packets_queue := ?q\<rparr>"
  let ?b = "\<lparr>server = broadcast (payload packet) ?s1, last_received_payload = payload packet,
    processed_packets_count = processed_packets_count b + 1\<rparr>"
  have q: "dequeue ?q = packets" "update b = update ?b" "handle_event Ev_pop ?s = Some ?s1"
    using Cons.prems(4)
    by (simp_all add: update.simps [of b] empty_def pop_front_def wait_and_pop_def wait_predicate_def)
  have s1: "sound ?s1" "broadcasting ?s1 = []" "pointers_ok sids ?s1"
    using Cons.prems by (simp_all add: sound_def pointers_ok_def)
  have e: "broadcast (payload packet) ?s1 = ?s1\<lparr>sessions := (\<lambda>sid. map_option (send (payload packet)) (sessions ?s sid))\<rparr>"
    using broadcast_effect [OF s1(3)] by simp
  have "active_sessions ?s1 = map Some sids" using s1(3) by (simp add: pointers_ok_def)
  then have first: "run_persistent (Ev_pop # Ev_broadcast t (payload packet) # loop_events t (payload packet) (map Some sids) @
      [Ev_broadcast_done t]) ?s = Some (server ?b)"
    using uninterrupted_broadcast [OF s1(1,2), of t "payload packet"] Cons.prems(1) q(3) by simp
  have "pointers_ok sids (server ?b)" "sound (server ?b)" "broadcasting (server ?b) = []"
    using s1 by (auto simp: e pointers_ok_def sound_def dom_def)
  from Cons.IH [OF this(2,3,1)] q(1)
  have IH: "run_persistent (update_events t (map Some sids) packets) (server ?b) = Some (server (update ?b))"
      "dequeue (incoming_packets_queue (server (update ?b))) = []"
      "sessions (server (update ?b)) =
        (\<lambda>sid. map_option (\<lambda>w. w\<lparr>posted_sends := posted_sends w @ map payload packets\<rparr>) (sessions (server ?b) sid))"
      "processed_packets_count (update ?b) = processed_packets_count ?b + of_nat (length packets)"
      "last_received_payload (update ?b) = last (last_received_payload ?b # map payload packets)"
    by (simp_all add: e)
  from run_persistent_append [OF first IH(1)]
  have "run_persistent (update_events t (map Some sids) (packet # packets)) ?s = Some (server (update ?b))"
    by (simp only: update_events.simps)
  then show ?case unfolding q(2) using IH(2-) by (simp add: e option.map_comp o_def send_def fun_eq_iff)
qed

lemma messages_for_append:
  assumes "Ev_accept sid \<in> set es"
  shows "messages_for sid (es @ es') = messages_for sid es @ concat (map (message_in sid) es')"
  using assms by (auto simp: messages_for_def dropWhile_append1)

lemma loop_messages:
  "distinct sids \<Longrightarrow>
   concat (map (message_in sid) (loop_events t m (map Some sids))) = (if sid \<in> set sids then [m] else [])"
  by (induction sids) auto

lemma update_messages:
  assumes "distinct sids" "sid \<in> set sids"
  shows "concat (map (message_in sid) (update_events t (map Some sids) packets)) = map payload packets"
  by (induction packets) (simp_all add: loop_messages [OF assms(1)] assms(2))

text \<open>
  What clients send reaches every client. In any state of the websocket server with no broadcast
  under way, a call of \<open>update\<close> is a run of the server that leaves the queue of packets empty; it
  sends the payload of every packet that was in the queue to every session, in the order in which the
  packets were read, so each session's messages grow by exactly these.
\<close>

theorem update_relays_packets:
  assumes "persistent_run es (server b)" and "sound (server b)" and "broadcasting (server b) = []"
  defines "packets \<equiv> dequeue (incoming_packets_queue (server b))"
  shows "\<exists>es'. persistent_run (es @ es') (server (update b)) \<and>
    dequeue (incoming_packets_queue (server (update b))) = [] \<and>
    (\<forall>sid. Ev_accept sid \<in> set es \<longrightarrow> messages_for sid (es @ es') = messages_for sid es @ map payload packets)"
proof -
  note inv = persistent_run_inv [OF assms(1)]
  from active_pointers [OF inv] obtain sids where sids: "pointers_ok sids (server b)" by (auto simp: pointers_ok_def)
  from update_runs [OF assms(2,3) sids] have run:
    "run_persistent (update_events t (map Some sids) packets) (server b) = Some (server (update b))"
    "dequeue (incoming_packets_queue (server (update b))) = []" for t
    by (simp_all add: packets_def)
  have "sid \<in> set sids" if "Ev_accept sid \<in> set es" for sid
    using that persistent_invD(3) [OF inv] sids by (auto simp: pointers_ok_def)
  with update_messages [of sids _ 0 packets] sids messages_for_append [of _ es]
  have "\<forall>sid. Ev_accept sid \<in> set es \<longrightarrow>
      messages_for sid (es @ update_events 0 (map Some sids) packets) = messages_for sid es @ map payload packets"
    by (auto simp: pointers_ok_def)
  with run_persistent_run [OF assms(1) run(1)] run(2) show ?thesis by blast
qed

end
