(* ===== verification/Server_Construction.thy ===== *)
theory Server_Construction
  imports Request_Server Persistent_Server
begin

text \<open>
  Constructing and launching the servers when the system refuses to create a thread, which
  \<open>std::thread\<close> reports by a \<open>std::system_error\<close>. An exception that leaves a constructor destroys
  the members that have been constructed, in the reverse of their order: for
  \<open>request_server_base\<close> the limiter, which joins its own thread, then the vector of workers, whose
  elements nobody joins, then the queue and the base.
\<close>

section \<open>Constructors\<close>

text \<open>The constructor of the limiter creates its thread last; members that are destroyed then own none.\<close>

definition construct_rate_limiter :: "exn option \<Rightarrow> real \<Rightarrow> real \<Rightarrow> real \<Rightarrow> rate_limiter outcome" where
  "construct_rate_limiter thread_error mt rate idle =
     (case new_rate_limiter mt rate idle of
        Inl e \<Rightarrow> Inl e
      | Inr rl \<Rightarrow> (case thread_error of Some e \<Rightarrow> Inl e | None \<Rightarrow> Inr rl))"

text \<open>
  The loop that creates the workers; \<open>worker_error i\<close> is what creating the worker number \<open>i\<close>
  throws. The result is the number of workers, or the exception and the number of those that are
  running when it is thrown.
\<close>

fun start_workers :: "(nat \<Rightarrow> exn option) \<Rightarrow> nat \<Rightarrow> nat \<Rightarrow> (exn \<times> nat) + nat" where
  "start_workers worker_error i 0 = Inr i"
| "start_workers worker_error i (Suc left) =
     (case worker_error i of Some e \<Rightarrow> Inl (e, i) | None \<Rightarrow> start_workers worker_error (Suc i) left)"

text \<open>Destroying a vector of threads that have not been joined ends the program, if it has any.\<close>

definition unwind_workers :: "exn \<Rightarrow> nat \<Rightarrow> exn" where
  "unwind_workers e running = (if running = 0 then e else Terminate)"

definition construct_request_server ::
    "exn option \<Rightarrow> exn option \<Rightarrow> (nat \<Rightarrow> exn option) \<Rightarrow> nat \<Rightarrow> size_t \<Rightarrow> size_t \<Rightarrow> real \<Rightarrow> real \<Rightarrow>
     ('rq, 'rs) request_server outcome" where
  "construct_request_server bind_error limiter_error worker_error worker_count max_pending_requests max_request_bytes
       max_ip_rate_tokens ip_token_refill_rate =
     (case new_server_base bind_error of
        Inl e \<Rightarrow> Inl e
      | Inr b \<Rightarrow>
          (case construct_rate_limiter limiter_error max_ip_rate_tokens ip_token_refill_rate
                  DEFAULT_RATE_LIMITER_CLEANUP_AFTER_IDLE_DURATION of
             Inl e \<Rightarrow> Inl e
           | Inr limiter \<Rightarrow>
               (case start_workers worker_error 0 worker_count of
                  Inl (e, running) \<Rightarrow> Inl (unwind_workers e running)
                | Inr n \<Rightarrow>
                    Inr \<lparr>base = b, connections = Map.empty,
                         request_queue = new_queue max_pending_requests max_request_bytes,
                         workers = replicate n Waiting, ip_rate_limiter = limiter, aborted = None\<rparr>)))"

lemma start_workers_all: "(\<And>i. worker_error i = None) \<Longrightarrow> start_workers worker_error i n = Inr (i + n)"
  by (induction n arbitrary: i) simp_all

lemma start_workers_fails:
  "k < n \<Longrightarrow> worker_error (i + k) = Some e \<Longrightarrow> (\<And>j. j < k \<Longrightarrow> worker_error (i + j) = None) \<Longrightarrow>
   start_workers worker_error i n = Inl (e, i + k)"
proof (induction n arbitrary: i k)
  case (Suc n)
  show ?case
  proof (cases k)
    case (Suc k')
    with Suc.prems(3) [of 0] have "worker_error i = None" by simp
    moreover have "start_workers worker_error (Suc i) n = Inl (e, Suc i + k')"
      using Suc.prems(1,2) Suc.prems(3) [of "Suc _"] Suc by (intro Suc.IH) simp_all
    ultimately show ?thesis using Suc by simp
  qed (use Suc.prems in simp)
qed simp

text \<open>Without such failures this is the constructor that the runs of the server start from.\<close>

lemma construct_request_server_ok:
  "construct_request_server bind_error None (\<lambda>_. None) n ms mb mt rate = new_request_server bind_error n ms mb mt rate"
  by (auto simp: construct_request_server_def new_request_server_def construct_rate_limiter_def start_workers_all
      split: sum.splits)

text \<open>
  A pool that comes up in part ends the program. When creating a worker throws, the caller of the
  constructor gets the exception only if it was the first worker; otherwise the workers already
  running are destroyed unjoined.
\<close>

theorem partial_pool_ends_program:
  assumes "0 < mt" "0 < rate" "k < n" "worker_error k = Some e" "\<And>j. j < k \<Longrightarrow> worker_error j = None"
  shows "construct_request_server None None worker_error n ms mb mt rate = Inl (if k = 0 then e else Terminate)"
  using assms start_workers_fails [of k n worker_error 0 e]
  by (simp add: construct_request_server_def new_server_base_def construct_rate_limiter_def new_rate_limiter_def
      unwind_workers_def)

section \<open>Launching\<close>

text \<open>
  \<open>launch\<close> of the websocket server when the update thread cannot be created: the new thread is an
  operand of the assignment, so the exception comes before it, and what the base class has launched
  stays launched.
\<close>

definition launch_server_throws :: "exn \<Rightarrow> persistent_server \<Rightarrow> exn \<times> persistent_server" where
  "launch_server_throws e s = (e, s\<lparr>ps_base := launch (ps_base s)\<rparr>)"

text \<open>
  An application that catches the exception and launches again ends the program, because the
  context thread of the first attempt is still running.
\<close>

lemma relaunch_ends_program:
  assumes "context_thread (ps_base s) = No_thread" "launch_server_throws e s = (e', s')"
  shows "e' = e \<and> failure (ps_base s') = failure (ps_base s) \<and> failure (ps_base (launch_server s')) = Some Terminate"
  using assms by (auto simp: launch_server_throws_def launch_server_def launch_def joinable_def start_accept_async_def Let_def
      split: if_splits)

end
