(* ===== verification/Saved_Board.thy ===== *)
theory Saved_Board
  imports Json_Store
begin

text \<open>
  What the three boards have in common: a board in memory, its file, and the calls an
  application makes on it, changes, saves and loads, while other programs may write to the
  file. The locales state what a board class promises, and show from it that the file is always
  a complete save and that the board keeps its invariant all its life; \<open>Board_History\<close>
  interprets them for the leaderboard, the nameboard and the score stream.
\<close>

section \<open>A board and its file\<close>

text \<open>
  The members of a board class: the call that adds to the board, \<open>save\<close>, the document
  that \<open>save\<close> builds, and \<open>load\<close>.
\<close>

record ('txt, 'b, 'c) board_class =
  call :: "'c \<Rightarrow> 'b \<Rightarrow> 'b outcome"
  save_to :: "'txt io_outcomes \<Rightarrow> 'b \<Rightarrow> 'txt file_system \<Rightarrow> bool \<times> 'txt file_system"
  document :: "'b \<Rightarrow> json"
  load_from :: "'txt file_system \<Rightarrow> 'b \<Rightarrow> bool \<times> 'b"

record ('txt, 'b) board_world =
  board :: 'b
  disk :: "'txt file_system"
  last_saved :: "json option"

datatype ('txt, 'c) board_call =
    Change 'c
  | Save "'txt io_outcomes"
  | Load
  | Foreign "'txt file_system"

fun board_step ::
    "('txt, 'b, 'c) board_class \<Rightarrow> ('txt, 'c) board_call \<Rightarrow> ('txt, 'b) board_world \<Rightarrow>
     ('txt, 'b) board_world outcome" where
  "board_step B (Change c) w = (case call B c (board w) of Inl e \<Rightarrow> Inl e | Inr b \<Rightarrow> Inr (w\<lparr>board := b\<rparr>))"
| "board_step B (Save io) w = (let (ok, fs) = save_to B io (board w) (disk w) in
       Inr (w\<lparr>disk := fs, last_saved := (if ok then Some (document B (board w)) else last_saved w)\<rparr>))"
| "board_step B Load w = Inr (w\<lparr>board := snd (load_from B (disk w) (board w))\<rparr>)"
| "board_step B (Foreign fs) w = Inr (w\<lparr>disk := fs\<rparr>)"

fun board_steps ::
    "('txt, 'b, 'c) board_class \<Rightarrow> ('txt, 'c) board_call list \<Rightarrow> ('txt, 'b) board_world \<Rightarrow>
     ('txt, 'b) board_world outcome" where
  "board_steps B [] w = Inr w"
| "board_steps B (c # cs) w = (case board_step B c w of Inl e \<Rightarrow> Inl e | Inr w' \<Rightarrow> board_steps B cs w')"

text \<open>A board just constructed over the file system it was constructed on.\<close>

definition opened :: "'b \<Rightarrow> 'txt file_system \<Rightarrow> ('txt, 'b) board_world" where
  "opened b fs = \<lparr>board = b, disk = fs, last_saved = None\<rparr>"

lemma opened_simps [simp]:
  "board (opened b fs) = b" "disk (opened b fs) = fs" "last_saved (opened b fs) = None"
  by (simp_all add: opened_def)

text \<open>What other programs write to the file at \<open>path\<close> satisfies \<open>good\<close>.\<close>

fun foreign_ok :: "('txt option \<Rightarrow> bool) \<Rightarrow> string \<Rightarrow> ('txt, 'c) board_call \<Rightarrow> bool" where
  "foreign_ok good path (Foreign fs) = good (fs path)"
| "foreign_ok good path _ = True"

lemma all_foreign_ok: "foreign_ok (\<lambda>_. True) path c"
  by (cases c) simp_all

text \<open>The file is as at the start, or the complete document of the last successful save.\<close>

definition file_is_last_save ::
    "('txt, 's) json_lib \<Rightarrow> 'txt file_system \<Rightarrow> string \<Rightarrow> ('txt, 'b) board_world \<Rightarrow> bool" where
  "file_is_last_save lib fs path w \<longleftrightarrow>
     (case last_saved w of
        None \<Rightarrow> disk w path = fs path
      | Some doc \<Rightarrow> dump lib doc \<noteq> None \<and> disk w path = dump lib doc)"

fun foreign :: "('txt, 'c) board_call \<Rightarrow> bool" where
  "foreign (Foreign fs) = True"
| "foreign _ = False"

section \<open>The file\<close>

text \<open>
  A board class over a file: \<open>save\<close> writes the document to the board's path and nothing
  changes that path.
\<close>

locale board_file =
  fixes B :: "('txt, 'b, 'c) board_class"
    and lib :: "('txt, 's) json_lib"
    and path_of :: "'b \<Rightarrow> string"
  assumes save_writes: "save_to B io b fs = write_document lib io (path_of b) (document B b) fs"
    and call_path: "call B c b = Inr b' \<Longrightarrow> path_of b' = path_of b"
    and load_path: "path_of (snd (load_from B fs b)) = path_of b"
begin

lemma step_path:
  assumes "board_step B c w = Inr w'"
  shows "path_of (board w') = path_of (board w)"
  using assms by (cases c) (auto simp: split_beta load_path dest: call_path split: sum.splits)

lemma save_disk:
  assumes "save_to B io b fs = (ok, fs')"
  shows "ok \<Longrightarrow> dump lib (document B b) \<noteq> None \<and> fs' (path_of b) = dump lib (document B b)"
    and "\<not> ok \<Longrightarrow> fs' (path_of b) = fs (path_of b)"
  using write_document_outcome(1,2) [OF assms [unfolded save_writes]] by auto

lemma step_last_save:
  assumes "board_step B c w = Inr w'" "\<not> foreign c" "path_of (board w) = path" "file_is_last_save lib fs path w"
  shows "file_is_last_save lib fs path w'"
proof (cases c)
  case (Save io)
  obtain ok fs1 where s: "save_to B io (board w) (disk w) = (ok, fs1)" by fastforce
  with Save assms save_disk [OF s] show ?thesis
    by (cases ok) (auto simp: file_is_last_save_def split: option.splits)
qed (use assms in \<open>auto simp: file_is_last_save_def split: sum.splits option.splits\<close>)

lemma steps_last_save:
  assumes "board_steps B cs w = Inr w'" "list_all (\<lambda>c. \<not> foreign c) cs"
    and "path_of (board w) = path" "file_is_last_save lib fs path w"
  shows "file_is_last_save lib fs path w'"
  using assms
proof (induction cs arbitrary: w)
  case (Cons c cs)
  from Cons.prems(1) obtain w1 where w1: "board_step B c w = Inr w1" "board_steps B cs w1 = Inr w'"
    by (auto split: sum.splits)
  from Cons.prems(2-) step_last_save [OF w1(1)] step_path [OF w1(1)] show ?case
    by (intro Cons.IH [OF w1(2)]) auto
qed simp

text \<open>Saves leave files under other paths alone, but for the temporary one.\<close>

lemma opened_last_save:
  assumes "board_steps B cs (opened b fs) = Inr w" "list_all (\<lambda>c. \<not> foreign c) cs"
  shows "file_is_last_save lib fs (path_of b) w"
  using steps_last_save [OF assms] by (simp add: file_is_last_save_def)

end

section \<open>The invariant\<close>

text \<open>
  A board class with an invariant \<open>ok\<close>, kept by every call, and by a load provided the file
  is \<open>good\<close>, as the files that it saves itself are.
\<close>

locale board_life = board_file B lib path_of
  for B :: "('txt, 'b, 'c) board_class" and lib :: "('txt, 's) json_lib" and path_of :: "'b \<Rightarrow> string" +
  fixes ok :: "'b \<Rightarrow> bool"
    and good :: "'txt option \<Rightarrow> bool"
  assumes call_ok: "ok b \<Longrightarrow> \<exists>b'. call B c b = Inr b' \<and> ok b'"
    and load_ok: "ok b \<Longrightarrow> good (fs (path_of b)) \<Longrightarrow> ok (snd (load_from B fs b))"
    and save_good: "ok b \<Longrightarrow> dump lib (document B b) = Some t \<Longrightarrow> good (Some t)"
begin

lemma step_ok:
  assumes "ok (board w)" "good (disk w (path_of (board w)))" "foreign_ok good (path_of (board w)) c"
  obtains w' where "board_step B c w = Inr w'" "ok (board w')" "good (disk w' (path_of (board w')))"
proof -
  have "\<exists>w'. board_step B c w = Inr w' \<and> ok (board w') \<and> good (disk w' (path_of (board w')))"
  proof (cases c)
    case (Change d)
    from call_ok [OF assms(1)] obtain b' where "call B d (board w) = Inr b'" "ok b'" by blast
    with Change assms(2) call_path show ?thesis by auto
  next
    case (Save io)
    obtain r fs where s: "save_to B io (board w) (disk w) = (r, fs)" by fastforce
    with save_disk [OF s] assms save_good [OF assms(1)] have "good (fs (path_of (board w)))" by (cases r) auto
    with Save s assms(1) show ?thesis by simp
  qed (use assms load_ok load_path in auto)
  with that show thesis by blast
qed

lemma steps_ok:
  assumes "ok (board w)" "path_of (board w) = path" "good (disk w path)" "list_all (foreign_ok good path) cs"
  shows "\<exists>w'. board_steps B cs w = Inr w' \<and> ok (board w') \<and> path_of (board w') = path"
  using assms
proof (induction cs arbitrary: w)
  case (Cons c cs)
  then obtain w1 where w1: "board_step B c w = Inr w1" "ok (board w1)" "good (disk w1 (path_of (board w1)))"
    using step_ok [of w c] by auto
  with Cons.IH [of w1] Cons.prems step_path [OF w1(1)] show ?case by auto
qed auto

text \<open>A constructor that loads the file into an empty board starts such a life.\<close>

lemma life:
  assumes "ok b" "path_of b = path" "good (fs path)" "list_all (foreign_ok good path) cs"
  shows "\<exists>w. board_steps B cs (opened (snd (load_from B fs b)) fs) = Inr w \<and> ok (board w) \<and> path_of (board w) = path"
  using assms load_ok [OF assms(1)] load_path by (intro steps_ok) auto

end

end
