(* ===== verification/Leaderboard.thy ===== *)
theory Leaderboard
  imports Json_Store
begin

text \<open>
  \<open>src/data_structures/global_boards/leaderboard.hpp\<close>: the ranked board.

  \<^item> \<open>entries\<close> owns one heap entry per player. An \<open>entry_ptr\<close> is identified with the
    player under which \<open>entries\<close> owns the entry, and dereferencing it reads
    \<open>entries\<close>; so \<open>ranking\<close>, the multiset of raw pointers, is the list of players
    in container order, and updating an entry through the map is visible through the
    ranking, as in the code.
  \<^item> \<open>highest_first\<close> is the state of the comparator object inside \<open>ranking\<close>.
  \<^item> \<open>submit_score\<close> takes the clock reading \<open>now\<close> and the contents \<open>junk\<close> of the
    memory that the local \<open>candidate\<close> occupies: its \<open>timestamp\<close> and \<open>id\<close> are
    never initialised.
\<close>

section \<open>State and operations\<close>

record 's leaderboard =
  entries :: "string \<rightharpoonup> 's leaderboard_entry"
  ranking :: "string list"
  highest_first :: bool
  next_id :: u64
  file_path :: string
  max_board_size :: size_t

definition deref :: "(string \<rightharpoonup> 's leaderboard_entry) \<Rightarrow> string \<Rightarrow> 's leaderboard_entry" where
  "deref es p = the (es p)"

definition key_comp :: "('s::linorder) leaderboard \<Rightarrow> string \<Rightarrow> string \<Rightarrow> bool" where
  "key_comp b = leaderboard_entry_ptr_comparator (highest_first b) (deref (entries b))"

definition remove_last :: "'s leaderboard \<Rightarrow> 's leaderboard" where
  "remove_last b =
     (if ranking b = [] then b
      else let e = deref (entries b) (last (ranking b)) in
        b\<lparr>ranking := butlast (ranking b), entries := (entries b)(name e := None)\<rparr>)"

text \<open>The branch of \<open>submit_score\<close> for a player who is already on the board.\<close>

definition update_score ::
    "time_s \<Rightarrow> time_s \<times> u64 \<Rightarrow> string \<Rightarrow> 's \<Rightarrow> 's leaderboard_entry \<Rightarrow> ('s::linorder) leaderboard \<Rightarrow>
     (nat option \<times> nat option) \<times> 's leaderboard" where
  "update_score now junk player s e b =
     (let candidate = \<lparr>name = [], timestamp = fst junk, entry_id = snd junk, score = s\<rparr> in
      if \<not> leaderboard_entry_comparator (highest_first b) candidate e then ((None, None), b)
      else let previous_index = index_of player (ranking b);
               b1 = b\<lparr>ranking := remove1 player (ranking b)\<rparr>;
               e' = e\<lparr>score := s, timestamp := now, entry_id := next_id b1\<rparr>;
               b2 = b1\<lparr>entries := (entries b1)(player \<mapsto> e'), next_id := next_id b1 + 1\<rparr>;
               b3 = b2\<lparr>ranking := ms_insert (key_comp b2) player (ranking b2)\<rparr>
           in ((Some (index_of player (ranking b3)), Some previous_index), b3))"

text \<open>
  The branch for a new player. \<open>std::prev(ranking.end())\<close> on an empty ranking, reached
  when the capacity is 0, is undefined.
\<close>

definition add_player ::
    "time_s \<Rightarrow> string \<Rightarrow> 's \<Rightarrow> ('s::linorder) leaderboard \<Rightarrow>
     ((nat option \<times> nat option) \<times> 's leaderboard) outcome" where
  "add_player now player s b =
     (let e = \<lparr>name = player, timestamp = now, entry_id = next_id b, score = s\<rparr>;
          b1 = b\<lparr>next_id := next_id b + 1\<rparr>;
          full = (unat (max_board_size b1) \<le> length (ranking b1))
      in if full \<and> ranking b1 = [] then Inl (Undefined_behaviour ''prev of end() on an empty ranking'')
         else if full \<and> \<not> leaderboard_entry_comparator (highest_first b1) e
                           (deref (entries b1) (last (ranking b1)))
         then Inr ((None, None), b1)
         else
           let b2 = b1\<lparr>entries := (entries b1)(player \<mapsto> e)\<rparr>;
               b3 = b2\<lparr>ranking := ms_insert (key_comp b2) player (ranking b2)\<rparr>;
               placement = index_of player (ranking b3);
               b4 = (if unat (max_board_size b3) < length (ranking b3) then remove_last b3 else b3)
           in Inr ((Some placement, None), b4))"

definition submit_score ::
    "time_s \<Rightarrow> time_s \<times> u64 \<Rightarrow> string \<Rightarrow> 's \<Rightarrow> ('s::linorder) leaderboard \<Rightarrow>
     ((nat option \<times> nat option) \<times> 's leaderboard) outcome" where
  "submit_score now junk player s b =
     (case entries b player of
        Some e \<Rightarrow> Inr (update_score now junk player s e b)
      | None \<Rightarrow> add_player now player s b)"

definition get_top_scores :: "size_t \<Rightarrow> 's leaderboard \<Rightarrow> 's leaderboard_entry list outcome" where
  "get_top_scores n b =
     copy_entries (deref (entries b)) (min (unat n) (length (ranking b))) (ranking b) []"

definition get_bottom_scores :: "size_t \<Rightarrow> 's leaderboard \<Rightarrow> 's leaderboard_entry list outcome" where
  "get_bottom_scores n b =
     copy_entries (deref (entries b)) (min (unat n) (length (ranking b))) (rev (ranking b)) []"

definition get_range_from_top ::
    "size_t \<Rightarrow> size_t \<Rightarrow> 's leaderboard \<Rightarrow> 's leaderboard_entry list outcome" where
  "get_range_from_top start end b =
     (if length (ranking b) \<le> unat start \<or> start > end then Inr []
      else copy_entries (deref (entries b)) (min (unat end) (length (ranking b)) - unat start)
             (drop (unat start) (ranking b)) [])"

definition get_range_from_bottom ::
    "size_t \<Rightarrow> size_t \<Rightarrow> 's leaderboard \<Rightarrow> 's leaderboard_entry list outcome" where
  "get_range_from_bottom start end b =
     (if length (ranking b) \<le> unat start \<or> start > end then Inr []
      else copy_entries (deref (entries b)) (min (unat end) (length (ranking b)) - unat start)
             (drop (unat start) (rev (ranking b))) [])"

definition board_size :: "'s leaderboard \<Rightarrow> nat" where
  "board_size b = length (ranking b)"

section \<open>Persistence\<close>

definition LEADERBOARDS_SUBDIRECTORY_NAME :: string where
  "LEADERBOARDS_SUBDIRECTORY_NAME = ''leaderboards''"

definition LEADERBOARD_NAME_KEY :: string where
  [simp]: "LEADERBOARD_NAME_KEY = ''name''"

definition LEADERBOARD_SCORE_KEY :: string where
  [simp]: "LEADERBOARD_SCORE_KEY = ''score''"

definition LEADERBOARD_TIMESTAMP_KEY :: string where
  [simp]: "LEADERBOARD_TIMESTAMP_KEY = ''timestamp''"

definition saved_item :: "('txt, 's) json_lib \<Rightarrow> 's leaderboard_entry \<Rightarrow> json" where
  "saved_item lib e = JObject
     [(LEADERBOARD_NAME_KEY, JString (name e)), (LEADERBOARD_SCORE_KEY, put_score lib (score e)),
      (LEADERBOARD_TIMESTAMP_KEY, JInt (timestamp e))]"

definition save ::
    "('txt, 's) json_lib \<Rightarrow> 'txt io_outcomes \<Rightarrow> 's leaderboard \<Rightarrow> 'txt file_system \<Rightarrow>
     bool \<times> 'txt file_system" where
  "save lib io b fs =
     write_document lib io (file_path b)
       (JArray (map (\<lambda>p. saved_item lib (deref (entries b) p)) (ranking b))) fs"

text \<open>
  The loop of \<open>load\<close> over the items of the document, with its local variables
  \<open>new_entries\<close>, \<open>new_ranking\<close>, \<open>new_next_id\<close> and \<open>item_count\<close>; \<open>None\<close> is
  \<open>return false\<close>, from the loop or from the handler of an exception. \<open>new_ranking\<close> is
  default-constructed, so its comparator ranks the highest score first.
\<close>

fun load_items ::
    "('txt, 's::linorder) json_lib \<Rightarrow> size_t \<Rightarrow> json list \<Rightarrow> size_t \<Rightarrow>
     (string \<rightharpoonup> 's leaderboard_entry) \<Rightarrow> string list \<Rightarrow> u64 \<Rightarrow>
     ((string \<rightharpoonup> 's leaderboard_entry) \<times> string list \<times> u64) option" where
  "load_items lib msize [] item_count new_entries new_ranking new_next_id =
     Some (new_entries, new_ranking, new_next_id)"
| "load_items lib msize (item # items) item_count new_entries new_ranking new_next_id =
     (if item_count + 1 > msize then Some (new_entries, new_ranking, new_next_id)
      else if \<not> is_object item then None
      else
        Option.bind (Option.bind (json_at item LEADERBOARD_NAME_KEY) (get_string lib)) (\<lambda>n.
        Option.bind (Option.bind (json_at item LEADERBOARD_SCORE_KEY) (get_score lib)) (\<lambda>s.
        Option.bind (Option.bind (json_at item LEADERBOARD_TIMESTAMP_KEY) (get_int64 lib)) (\<lambda>t.
        let e = \<lparr>name = n, timestamp = t, entry_id = new_next_id, score = s\<rparr>;
            new_entries' = new_entries(n \<mapsto> e);
            new_ranking' = ms_insert (leaderboard_entry_ptr_comparator True (deref new_entries'))
                             n new_ranking
        in if new_entries n \<noteq> None then None
           else load_items lib msize items (item_count + 1) new_entries' new_ranking'
                  (new_next_id + 1)))))"

definition load :: "('txt, 's::linorder) json_lib \<Rightarrow> 'txt file_system \<Rightarrow> 's leaderboard \<Rightarrow> bool \<times> 's leaderboard" where
  "load lib fs b =
     (case fs (file_path b) of
        None \<Rightarrow> (False, b)
      | Some text \<Rightarrow>
          (case parse lib text of
             Some (JArray items) \<Rightarrow>
               (case load_items lib (max_board_size b) items 0 Map.empty [] (next_id b) of
                  None \<Rightarrow> (False, b)
                | Some (es, rk, i) \<Rightarrow>
                    (True, b\<lparr>entries := es, ranking := rk, highest_first := True, next_id := i\<rparr>))
           | _ \<Rightarrow> (False, b)))"

definition new_leaderboard ::
    "('txt, 's::linorder) json_lib \<Rightarrow> 'txt file_system \<Rightarrow> string \<Rightarrow> size_t \<Rightarrow> bool \<Rightarrow> 's leaderboard" where
  "new_leaderboard lib fs path msize hf =
     snd (load lib fs
       \<lparr>entries = Map.empty, ranking = [], highest_first = hf, next_id = 0,
        file_path = path, max_board_size = msize\<rparr>)"

definition DEFAULT_MAX_LEADERBOARD_SIZE :: size_t where
  "DEFAULT_MAX_LEADERBOARD_SIZE = 300"

section \<open>The board as a ranked list of entries\<close>

text \<open>
  \<open>view\<close> reads the ranking through the pointers. \<open>rank_submit\<close> is the specification
  of \<open>submit_score\<close> on such lists: no pointers, no iterators.
\<close>

definition view :: "'s leaderboard \<Rightarrow> 's leaderboard_entry list" where
  "view b = map (deref (entries b)) (ranking b)"

definition fresh_entry :: "time_s \<Rightarrow> string \<Rightarrow> 's \<Rightarrow> u64 \<Rightarrow> 's leaderboard_entry" where
  "fresh_entry now player s i = \<lparr>name = player, timestamp = now, entry_id = i, score = s\<rparr>"

definition uninitialised_candidate :: "time_s \<times> u64 \<Rightarrow> 's \<Rightarrow> 's leaderboard_entry" where
  "uninitialised_candidate junk s = fresh_entry (fst junk) [] s (snd junk)"

definition rank_submit ::
    "bool \<Rightarrow> nat \<Rightarrow> ('s::linorder) leaderboard_entry \<Rightarrow> 's leaderboard_entry \<Rightarrow>
     's leaderboard_entry list \<Rightarrow> 's leaderboard_entry list" where
  "rank_submit hf cap cand new es =
     (case find (\<lambda>e. name e = name new) es of
        Some e \<Rightarrow>
          if leaderboard_entry_comparator hf cand e
          then ms_insert (leaderboard_entry_comparator hf) new (filter (\<lambda>e. name e \<noteq> name new) es)
          else es
      | None \<Rightarrow> take cap (ms_insert (leaderboard_entry_comparator hf) new es))"

definition board_wf :: "('s::linorder) leaderboard \<Rightarrow> bool" where
  "board_wf b \<longleftrightarrow>
     distinct (ranking b) \<and> dom (entries b) = set (ranking b)
     \<and> (\<forall>p \<in> set (ranking b). name (deref (entries b) p) = p)
     \<and> ms_sorted (leaderboard_entry_comparator (highest_first b)) (view b)"

definition board_inv :: "('s::linorder) leaderboard \<Rightarrow> bool" where
  "board_inv b \<longleftrightarrow> board_wf b \<and> length (ranking b) \<le> unat (max_board_size b)"

lemma board_wfD:
  assumes "board_wf b"
  shows "distinct (ranking b)" "dom (entries b) = set (ranking b)"
    "p \<in> set (ranking b) \<Longrightarrow> name (deref (entries b) p) = p"
    "ms_sorted (leaderboard_entry_comparator (highest_first b)) (view b)"
  using assms by (auto simp: board_wf_def)

lemma board_invD:
  assumes "board_inv b"
  shows "board_wf b" "length (ranking b) \<le> unat (max_board_size b)"
  using assms by (auto simp: board_inv_def)

lemma deref_update [simp]: "deref (es(p \<mapsto> e)) = (deref es)(p := e)"
  by (auto simp: deref_def)

lemma length_view [simp]: "length (view b) = length (ranking b)"
  by (simp add: view_def)

lemma map_name_view: "board_wf b \<Longrightarrow> map name (view b) = ranking b"
  by (auto simp: view_def board_wf_def intro: map_idI)

lemma view_remove1:
  assumes "board_wf b"
  shows "map (deref (entries b)) (remove1 p (ranking b)) = filter (\<lambda>e. name e \<noteq> p) (view b)"
proof -
  have "remove1 p (ranking b) = filter (\<lambda>q. q \<noteq> p) (ranking b)"
    using board_wfD(1) [OF assms]
    by (auto simp: distinct_remove1_removeAll removeAll_filter_not_eq intro: filter_cong)
  moreover have "filter (\<lambda>q. name (deref (entries b) q) \<noteq> p) (ranking b) = filter (\<lambda>q. q \<noteq> p) (ranking b)"
    by (rule filter_cong) (simp_all add: board_wfD(3) [OF assms])
  ultimately show ?thesis by (simp add: view_def filter_map o_def)
qed

lemma find_view:
  assumes "board_wf b"
  shows "find (\<lambda>e. name e = p) (view b) = entries b p"
proof (cases "entries b p")
  case None
  then have "p \<notin> set (ranking b)" using board_wfD(2) [OF assms] by auto
  then have "find (\<lambda>e. name e = p) (view b) = None"
    using board_wfD(3) [OF assms] by (auto simp: find_None_iff view_def)
  with None show ?thesis by simp
next
  case (Some e)
  then have p: "p \<in> set (ranking b)" using board_wfD(2) [OF assms] by auto
  from Some have e: "deref (entries b) p = e" by (simp add: deref_def)
  have "find (\<lambda>e. name e = p) (view b) \<noteq> None"
    using p board_wfD(3) [OF assms] by (auto simp: find_None_iff view_def)
  then obtain e' where e': "find (\<lambda>e. name e = p) (view b) = Some e'" by blast
  then have "e' \<in> set (view b)" "name e' = p" by (auto simp: find_Some_iff)
  then obtain q where "q \<in> set (ranking b)" "e' = deref (entries b) q" "name e' = p"
    by (auto simp: view_def)
  with board_wfD(3) [OF assms] have "e' = deref (entries b) p" by auto
  with e e' Some show ?thesis by simp
qed

text \<open>Inserting a pointer whose entry is in the store, seen through the view.\<close>

lemma map_deref_insert:
  assumes "p \<notin> set ps"
  shows "map ((deref es)(p := e))
           (ms_insert (leaderboard_entry_ptr_comparator hf ((deref es)(p := e))) p ps) =
         ms_insert (leaderboard_entry_comparator hf) e (map (deref es) ps)"
  using assms
  by (subst map_ms_insert [where lt = "leaderboard_entry_comparator hf"])
    (auto simp: leaderboard_ptr_comparator_at intro!: arg_cong2 [where f = "ms_insert _"] map_cong)

lemma update_score_effect:
  assumes "board_wf b" and "entries b player = Some e"
    and acc: "leaderboard_entry_comparator (highest_first b) (uninitialised_candidate junk s) e"
    and upd: "update_score now junk player s e b = (r, b')"
  shows "view b' = ms_insert (leaderboard_entry_comparator (highest_first b))
           (fresh_entry now player s (next_id b)) (filter (\<lambda>e. name e \<noteq> player) (view b))"
    and "r = (Some (index_of player (ranking b')), Some (index_of player (ranking b)))"
    and "entries b' = (entries b)(player \<mapsto> fresh_entry now player s (next_id b))"
    and "mset (ranking b') = mset (ranking b)"
    and "next_id b' = next_id b + 1" "highest_first b' = highest_first b"
    "max_board_size b' = max_board_size b" "file_path b' = file_path b"
proof -
  have p: "player \<in> set (ranking b)" using board_wfD(2) [OF assms(1)] assms(2) by auto
  then have "name e = player"
    using board_wfD(3) [OF assms(1) p] assms(2) by (simp add: deref_def)
  then have new: "e\<lparr>score := s, timestamp := now, entry_id := next_id b\<rparr> =
      fresh_entry now player s (next_id b)"
    by (cases e) (simp add: fresh_entry_def)
  have notin: "player \<notin> set (remove1 player (ranking b))"
    using board_wfD(1) [OF assms(1)] by simp
  let ?es = "(entries b)(player \<mapsto> fresh_entry now player s (next_id b))"
  let ?rk = "ms_insert (leaderboard_entry_ptr_comparator (highest_first b) (deref ?es)) player
               (remove1 player (ranking b))"
  have b': "b' = b\<lparr>ranking := ?rk, entries := ?es, next_id := next_id b + 1\<rparr>"
    and r: "r = (Some (index_of player ?rk), Some (index_of player (ranking b)))"
    using upd acc new
    by (auto simp: update_score_def Let_def key_comp_def uninitialised_candidate_def fresh_entry_def)
  from b' r show "r = (Some (index_of player (ranking b')), Some (index_of player (ranking b)))"
    "entries b' = (entries b)(player \<mapsto> fresh_entry now player s (next_id b))"
    "next_id b' = next_id b + 1" "highest_first b' = highest_first b"
    "max_board_size b' = max_board_size b" "file_path b' = file_path b" by simp_all
  from p b' show "mset (ranking b') = mset (ranking b)" by simp
  show "view b' = ms_insert (leaderboard_entry_comparator (highest_first b))
           (fresh_entry now player s (next_id b)) (filter (\<lambda>e. name e \<noteq> player) (view b))"
    using map_deref_insert [OF notin, of "entries b" "fresh_entry now player s (next_id b)" "highest_first b"]
      view_remove1 [OF assms(1), of player]
    by (simp add: view_def b')
qed

lemma board_wfI:
  assumes "distinct (ranking b)" "dom (entries b) = set (ranking b)"
    "\<And>p. p \<in> set (ranking b) \<Longrightarrow> name (deref (entries b) p) = p"
    "ms_sorted (leaderboard_entry_comparator (highest_first b)) (view b)"
  shows "board_wf b"
  using assms by (auto simp: board_wf_def)

lemma board_next_id_irrelevant [simp]:
  "view (b\<lparr>next_id := i\<rparr>) = view b" "board_wf (b\<lparr>next_id := i\<rparr>) = board_wf b"
  "board_inv (b\<lparr>next_id := i\<rparr>) = board_inv b"
  by (simp_all add: board_inv_def board_wf_def view_def)

lemma ms_sorted_filter: "ms_sorted lt xs \<Longrightarrow> ms_sorted lt (filter P xs)"
  by (simp add: ms_sorted_def sorted_wrt_filter)

lemma update_score_wf:
  assumes "board_wf b" "entries b player = Some e"
  shows "board_wf (snd (update_score now junk player s e b))"
proof (cases "leaderboard_entry_comparator (highest_first b) (uninitialised_candidate junk s) e")
  case True
  obtain r b' where u: "update_score now junk player s e b = (r, b')" by fastforce
  note eff = update_score_effect [OF assms True u]
  have set: "set (ranking b') = set (ranking b)" by (metis eff(4) set_mset_mset)
  have "board_wf b'"
  proof (rule board_wfI)
    show "distinct (ranking b')" using board_wfD(1) [OF assms(1)] eff(4) mset_eq_imp_distinct_iff by blast
    show "dom (entries b') = set (ranking b')" using board_wfD(2) [OF assms(1)] set assms(2) eff(3) by auto
    show "name (deref (entries b') p) = p" if "p \<in> set (ranking b')" for p
      using board_wfD(3) [OF assms(1)] set that by (simp add: eff(3) fresh_entry_def)
    show "ms_sorted (leaderboard_entry_comparator (highest_first b')) (view b')"
      unfolding eff(1,6) using board_wfD(4) [OF assms(1)]
      by (intro leaderboard_order.sorted_insert ms_sorted_filter)
  qed
  with u show ?thesis by simp
next
  case False
  with assms show ?thesis by (simp add: update_score_def uninitialised_candidate_def fresh_entry_def)
qed

lemma remove_last_view:
  assumes "board_wf b"
  shows "view (remove_last b) = butlast (view b)" and "board_wf (remove_last b)"
    and "ranking (remove_last b) = butlast (ranking b)"
    and "highest_first (remove_last b) = highest_first b" "next_id (remove_last b) = next_id b"
    "max_board_size (remove_last b) = max_board_size b" "file_path (remove_last b) = file_path b"
proof -
  have "view (remove_last b) = butlast (view b) \<and> board_wf (remove_last b)"
  proof (cases "ranking b" rule: rev_cases)
    case Nil
    with assms show ?thesis by (simp add: remove_last_def view_def)
  next
    case (snoc ps p)
    let ?es = "(entries b)(p := None)"
    from snoc board_wfD(1) [OF assms] have p: "p \<notin> set ps" by simp
    have rl: "remove_last b = b\<lparr>ranking := ps, entries := ?es\<rparr>"
      using snoc board_wfD(3) [OF assms, of p] by (simp add: remove_last_def)
    have same: "q \<in> set ps \<Longrightarrow> deref ?es q = deref (entries b) q" for q
      using p by (auto simp: deref_def)
    then have "view (remove_last b) = butlast (view b)"
      by (simp add: rl view_def snoc butlast_append cong: map_cong)
    moreover from this have "board_wf (remove_last b)"
      using assms p snoc same ms_sorted_butlast [OF board_wfD(4) [OF assms]]
      by (intro board_wfI) (auto simp: rl board_wf_def)
    ultimately show ?thesis by blast
  qed
  then show "view (remove_last b) = butlast (view b)" and "board_wf (remove_last b)" by simp_all
qed (simp_all add: remove_last_def Let_def)

text \<open>The insertion of a new player, before the capacity is enforced.\<close>

definition insert_player :: "time_s \<Rightarrow> string \<Rightarrow> 's \<Rightarrow> ('s::linorder) leaderboard \<Rightarrow> 's leaderboard" where
  "insert_player now player s b =
     (let es = (entries b)(player \<mapsto> fresh_entry now player s (next_id b)) in
      b\<lparr>next_id := next_id b + 1, entries := es,
        ranking := ms_insert (leaderboard_entry_ptr_comparator (highest_first b) (deref es))
                     player (ranking b)\<rparr>)"

lemma insert_player_view:
  assumes "board_wf b" "entries b player = None"
  shows "view (insert_player now player s b) =
      ms_insert (leaderboard_entry_comparator (highest_first b))
        (fresh_entry now player s (next_id b)) (view b)"
    and "board_wf (insert_player now player s b)"
proof -
  have notin: "player \<notin> set (ranking b)" using board_wfD(2) [OF assms(1)] assms(2) by auto
  show v: "view (insert_player now player s b) =
      ms_insert (leaderboard_entry_comparator (highest_first b))
        (fresh_entry now player s (next_id b)) (view b)"
    using map_deref_insert [OF notin, of "entries b" "fresh_entry now player s (next_id b)" "highest_first b"]
    by (simp add: insert_player_def view_def Let_def)
  show "board_wf (insert_player now player s b)"
  proof (rule board_wfI)
    show "ms_sorted (leaderboard_entry_comparator (highest_first (insert_player now player s b)))
            (view (insert_player now player s b))"
      unfolding v using leaderboard_order.sorted_insert [OF board_wfD(4) [OF assms(1)]]
      by (simp add: insert_player_def Let_def)
  qed (use notin assms(1) in \<open>auto simp: insert_player_def Let_def board_wf_def fresh_entry_def\<close>)
qed

lemma add_player_eq:
  assumes "max_board_size b \<noteq> 0" "board_inv b"
  shows "add_player now player s b =
    (if unat (max_board_size b) \<le> length (ranking b)
        \<and> \<not> leaderboard_entry_comparator (highest_first b) (fresh_entry now player s (next_id b)) (last (view b))
     then Inr ((None, None), b\<lparr>next_id := next_id b + 1\<rparr>)
     else Inr ((Some (index_of player (ranking (insert_player now player s b))), None),
       if unat (max_board_size b) < length (ranking (insert_player now player s b))
       then remove_last (insert_player now player s b) else insert_player now player s b))"
proof -
  have pos: "0 < unat (max_board_size b)" using assms(1) by (simp add: unat_gt_0)
  then have ne: "unat (max_board_size b) \<le> length (ranking b) \<Longrightarrow> ranking b \<noteq> []" by auto
  then have l: "unat (max_board_size b) \<le> length (ranking b) \<Longrightarrow>
      last (view b) = deref (entries b) (last (ranking b))"
    by (simp add: view_def last_map)
  show ?thesis
    using ne l
    by (auto simp: add_player_def insert_player_def Let_def key_comp_def fresh_entry_def)
qed

lemma find_name_view:
  "board_wf b \<Longrightarrow> find (\<lambda>e. name e = name (fresh_entry now p s i)) (view b) = entries b p"
  by (simp add: find_view fresh_entry_def)

lemma update_score_refines:
  assumes "board_wf b" "entries b player = Some e"
  shows "view (snd (update_score now junk player s e b)) =
    rank_submit (highest_first b) cap (uninitialised_candidate junk s)
      (fresh_entry now player s (next_id b)) (view b)"
proof (cases "leaderboard_entry_comparator (highest_first b) (uninitialised_candidate junk s) e")
  case True
  obtain r b' where u: "update_score now junk player s e b = (r, b')" by fastforce
  from update_score_effect(1) [OF assms True u] True u assms show ?thesis
    by (simp add: rank_submit_def find_name_view) (simp add: fresh_entry_def)
next
  case False
  with assms show ?thesis
    by (simp add: rank_submit_def find_name_view)
      (simp add: update_score_def uninitialised_candidate_def fresh_entry_def)
qed

lemma add_player_refines:
  assumes "board_inv b" "entries b player = None" "max_board_size b \<noteq> 0"
    and "add_player now player s b = Inr (r, b')"
  shows "view b' = rank_submit (highest_first b) (unat (max_board_size b)) cand
      (fresh_entry now player s (next_id b)) (view b)"
    and "board_inv b'"
proof -
  let ?cmp = "leaderboard_entry_comparator (highest_first b)"
  let ?new = "fresh_entry now player s (next_id b)"
  let ?cap = "unat (max_board_size b)"
  let ?i = "insert_player now player s b"
  note wf = board_invD(1) [OF assms(1)] and le = board_invD(2) [OF assms(1)]
  have spec: "rank_submit (highest_first b) ?cap cand ?new (view b) = take ?cap (ms_insert ?cmp ?new (view b))"
    using wf assms(2) by (simp add: rank_submit_def find_name_view)
  note ins = insert_player_view [OF wf assms(2), of now s]
  have len: "length (ranking ?i) = Suc (length (ranking b))"
    by (simp add: insert_player_def Let_def)
  have frame: "max_board_size ?i = max_board_size b" by (simp add: insert_player_def Let_def)
  show "view b' = rank_submit (highest_first b) ?cap cand ?new (view b)"
  proof (cases "?cap \<le> length (ranking b) \<and> \<not> ?cmp ?new (last (view b))")
    case True
    then have "ms_insert ?cmp ?new (view b) = view b @ [?new]"
      using leaderboard_order.insert_snoc_iff [OF board_wfD(4) [OF wf]] by blast
    with True le spec assms(4) add_player_eq [OF assms(3,1)] show ?thesis
      by (auto simp: view_def)
  next
    case False
    with assms(4) add_player_eq [OF assms(3,1)]
    have b': "b' = (if ?cap < length (ranking ?i) then remove_last ?i else ?i)" by auto
    have cap: "?cap < length (ranking ?i) \<Longrightarrow> length (view b) = ?cap" using len le by simp
    show ?thesis
      using cap len remove_last_view(1) [OF ins(2)] ins(1)
      by (auto simp: b' spec butlast_conv_take)
  qed
  have "board_inv (remove_last ?i)" if "?cap < length (ranking ?i)"
    using remove_last_view(2,3,6) [OF ins(2)] len le frame by (simp add: board_inv_def)
  moreover have "board_inv ?i" if "\<not> ?cap < length (ranking ?i)"
    using ins(2) frame that by (simp add: board_inv_def)
  ultimately show "board_inv b'"
    using assms(1,4) add_player_eq [OF assms(3,1), of now player s] by (auto split: if_splits)
qed

lemma update_score_frame:
  "player \<in> set (ranking b) \<Longrightarrow>
   length (ranking (snd (update_score now junk player s e b))) = length (ranking b)"
  "max_board_size (snd (update_score now junk player s e b)) = max_board_size b"
  by (auto simp: update_score_def Let_def length_remove1 dest: length_pos_if_in_set)

lemma update_score_inv:
  assumes "board_inv b" "entries b player = Some e"
  shows "board_inv (snd (update_score now junk player s e b))"
proof -
  note wf = board_invD(1) [OF assms(1)]
  from wf assms(2) have "player \<in> set (ranking b)" using board_wfD(2) by blast
  with update_score_frame [where player = player and b = b] board_invD(2) [OF assms(1)]
    update_score_wf [OF wf assms(2), of now junk s]
  show ?thesis by (simp add: board_inv_def)
qed

section \<open>What a submission returns\<close>

lemma view_index:
  assumes "p \<in> set (ranking b)"
  shows "view b ! index_of p (ranking b) = deref (entries b) p"
  using assms by (simp add: view_def index_of_less nth_index_of)

lemma submit_score_cases:
  assumes "board_inv b" "max_board_size b \<noteq> 0"
  obtains
    (kept) e where "entries b player = Some e"
      "\<not> leaderboard_entry_comparator (highest_first b) (uninitialised_candidate junk s) e"
      "submit_score now junk player s b = Inr ((None, None), b)"
  | (improved) e b' where "entries b player = Some e"
      "leaderboard_entry_comparator (highest_first b) (uninitialised_candidate junk s) e"
      "submit_score now junk player s b = Inr
         ((Some (index_of player (ranking b')), Some (index_of player (ranking b))), b')"
      "update_score now junk player s e b =
         ((Some (index_of player (ranking b')), Some (index_of player (ranking b))), b')"
  | (refused) "entries b player = None"
      "submit_score now junk player s b = Inr ((None, None), b\<lparr>next_id := next_id b + 1\<rparr>)"
  | (added) b' where "entries b player = None"
      "add_player now player s b =
         Inr ((Some (index_of player (ranking (insert_player now player s b))), None), b')"
      "submit_score now junk player s b =
         Inr ((Some (index_of player (ranking (insert_player now player s b))), None), b')"
      "b' = (if unat (max_board_size b) < length (ranking (insert_player now player s b))
             then remove_last (insert_player now player s b) else insert_player now player s b)"
      "unat (max_board_size b) \<le> length (ranking b) \<Longrightarrow>
         leaderboard_entry_comparator (highest_first b) (fresh_entry now player s (next_id b)) (last (view b))"
proof (cases "entries b player")
  case None
  then show thesis
    using refused added add_player_eq [OF assms(2,1), of now player s]
    by (auto simp: submit_score_def split: if_splits)
next
  case (Some e)
  obtain r b' where u: "update_score now junk player s e b = (r, b')" by fastforce
  show thesis
  proof (cases "leaderboard_entry_comparator (highest_first b) (uninitialised_candidate junk s) e")
    case True
    from update_score_effect(2) [OF board_invD(1) [OF assms(1)] Some True u] u Some True
    show thesis by (intro improved [of e b']) (simp_all add: submit_score_def)
  next
    case False
    then show thesis using Some
      by (intro kept [of e])
        (simp_all add: submit_score_def update_score_def uninitialised_candidate_def fresh_entry_def)
  qed
qed

lemma added_index_survives:
  assumes "board_inv b" "max_board_size b \<noteq> 0" "entries b player = None"
    and "unat (max_board_size b) \<le> length (ranking b) \<Longrightarrow>
      leaderboard_entry_comparator (highest_first b) (fresh_entry now player s (next_id b)) (last (view b))"
  defines "i \<equiv> insert_player now player s b"
  shows "index_of player (ranking i) <
     (if unat (max_board_size b) < length (ranking i) then unat (max_board_size b) else length (ranking i))"
    and "view i ! index_of player (ranking i) = fresh_entry now player s (next_id b)"
proof -
  note wf = board_invD(1) [OF assms(1)]
  let ?cmp = "leaderboard_entry_comparator (highest_first b)"
  let ?new = "fresh_entry now player s (next_id b)"
  let ?mem = "(deref (entries b))(player := ?new)"
  let ?lt = "leaderboard_entry_ptr_comparator (highest_first b) ?mem"
  have notin: "player \<notin> set (ranking b)" using board_wfD(2) [OF wf] assms(3) by auto
  have "ranking i = ms_insert ?lt player (ranking b)"
    by (simp add: i_def insert_player_def Let_def)
  then have idx: "index_of player (ranking i) = upper_bound ?lt player (ranking b)"
    using index_of_ms_insert [OF notin] by simp
  have "upper_bound ?lt player (ranking b) = upper_bound ?cmp (?mem player) (map ?mem (ranking b))"
    by (rule upper_bound_map) (simp add: leaderboard_ptr_comparator_at)
  moreover have "map ?mem (ranking b) = view b" using notin by (auto simp: view_def)
  ultimately have ub: "index_of player (ranking i) = upper_bound ?cmp ?new (view b)" using idx by simp
  then show "view i ! index_of player (ranking i) = ?new"
    using insert_player_view(1) [OF wf assms(3)] by (simp add: i_def nth_ms_insert_upper_bound)
  have len: "length (ranking i) = Suc (length (ranking b))" by (simp add: i_def insert_player_def Let_def)
  have "upper_bound ?cmp ?new (view b) < unat (max_board_size b)"
    if full: "unat (max_board_size b) < length (ranking i)"
  proof -
    from full len have f: "unat (max_board_size b) \<le> length (ranking b)" by simp
    with assms(2) have "view b \<noteq> []" by (auto simp: view_def unat_eq_0)
    with assms(4) [OF f] leaderboard_order.inserted_last_iff [OF board_wfD(4) [OF wf]]
    have "upper_bound ?cmp ?new (view b) \<noteq> length (view b)" by blast
    with upper_bound_le [of ?cmp ?new "view b"] board_invD(2) [OF assms(1)] f show ?thesis by simp
  qed
  then show "index_of player (ranking i) <
     (if unat (max_board_size b) < length (ranking i) then unat (max_board_size b) else length (ranking i))"
    using ub upper_bound_le [of ?cmp ?new "view b"] len by (auto simp: view_def)
qed

lemma added_nth:
  assumes "board_inv b" "max_board_size b \<noteq> 0" "entries b player = None"
    and "b' = (if unat (max_board_size b) < length (ranking (insert_player now player s b))
             then remove_last (insert_player now player s b) else insert_player now player s b)"
    and "unat (max_board_size b) \<le> length (ranking b) \<Longrightarrow>
      leaderboard_entry_comparator (highest_first b) (fresh_entry now player s (next_id b)) (last (view b))"
  defines "k \<equiv> index_of player (ranking (insert_player now player s b))"
  shows "k < length (view b') \<and> view b' ! k = fresh_entry now player s (next_id b)"
proof -
  let ?i = "insert_player now player s b"
  note wf = insert_player_view(2) [OF board_invD(1) [OF assms(1)] assms(3), of now s]
  have len: "length (ranking ?i) = Suc (length (ranking b))" by (simp add: insert_player_def Let_def)
  from added_index_survives [OF assms(1-3,5)] show ?thesis
    using remove_last_view(1,3) [OF wf] board_invD(2) [OF assms(1)] len
    by (auto simp: assms(4) k_def nth_butlast split: if_splits)
qed

section \<open>Properties of submissions\<close>

definition empty_board :: "size_t \<Rightarrow> bool \<Rightarrow> string \<Rightarrow> 's leaderboard" where
  "empty_board msize hf path =
     \<lparr>entries = Map.empty, ranking = [], highest_first = hf, next_id = 0,
      file_path = path, max_board_size = msize\<rparr>"

lemma empty_board_inv [simp]: "board_inv (empty_board msize hf path)"
  by (simp add: board_inv_def board_wf_def view_def empty_board_def ms_sorted_def)

lemma empty_board_simps [simp]:
  "entries (empty_board msize hf path) = Map.empty" "ranking (empty_board msize hf path) = []"
  "highest_first (empty_board msize hf path) = hf" "next_id (empty_board msize hf path) = 0"
  "file_path (empty_board msize hf path) = path" "max_board_size (empty_board msize hf path) = msize"
  "view (empty_board msize hf path) = []"
  by (simp_all add: empty_board_def view_def)

text \<open>
  C8: \<open>submit_score\<close> refines its pointer-free specification. On every board that
  satisfies the invariant and has a non-zero capacity the call returns (no undefined
  behaviour), keeps the invariant (ranking sorted by the comparator, one entry per player,
  owned entries and ranked pointers in agreement, capacity respected), and the ranked list
  it leaves is the one of \<open>rank_submit\<close>: an improving score moves its player to the
  upper bound of its new rank, a new player is inserted there and the ranking is cut back
  to the capacity, anything else leaves the ranking alone.
\<close>

theorem submit_score_refines_ranking:
  assumes "board_inv b" and "max_board_size b \<noteq> 0"
  shows "\<exists>r b'. submit_score now junk player s b = Inr (r, b') \<and> board_inv b' \<and>
    view b' = rank_submit (highest_first b) (unat (max_board_size b))
      (uninitialised_candidate junk s) (fresh_entry now player s (next_id b)) (view b)"
proof (cases "entries b player")
  case None
  from add_player_eq [OF assms(2,1)] obtain r b' where a: "add_player now player s b = Inr (r, b')"
    by (cases "unat (max_board_size b) \<le> length (ranking b)
        \<and> \<not> leaderboard_entry_comparator (highest_first b) (fresh_entry now player s (next_id b)) (last (view b))")
      auto
  from add_player_refines [OF assms(1) None assms(2) a] a None show ?thesis
    by (simp add: submit_score_def)
next
  case (Some e)
  obtain r b' where u: "update_score now junk player s e b = (r, b')" by fastforce
  from update_score_refines [OF board_invD(1) [OF assms(1)] Some, of now junk s]
    update_score_inv [OF assms(1) Some, of now junk s] u Some
  show ?thesis by (intro exI [of _ r] exI [of _ b']) (simp add: submit_score_def)
qed

lemma submit_score_refines_ranking_witness:
  "\<exists>r b'. submit_score 100 (0, 0) ''alice'' (7::int) (empty_board 2 True ''f'') = Inr (r, b') \<and>
     map name (view b') = [''alice'']"
  using submit_score_refines_ranking [of "empty_board 2 True ''f''" 100 "(0, 0)" "''alice''" "7::int"]
  by (auto simp: rank_submit_def fresh_entry_def)

text \<open>
  C23: The positions \<open>submit_score\<close> returns are right. If it returns a position, the new
  ranking holds the submitted entry (player, score, clock reading, fresh id) exactly there;
  a returned past index is where the player stood before, and none is returned exactly when
  the player was not on the board; if it returns no position, the ranking is unchanged.
\<close>

theorem submit_score_positions:
  assumes "board_inv b" and "max_board_size b \<noteq> 0"
    and "submit_score now junk player s b = Inr ((pos, past), b')"
  shows "case pos of
      Some i \<Rightarrow> i < length (view b') \<and> view b' ! i = fresh_entry now player s (next_id b) \<and>
        (case past of
           Some j \<Rightarrow> j < length (view b) \<and> name (view b ! j) = player
         | None \<Rightarrow> player \<notin> name ` set (view b))
    | None \<Rightarrow> past = None \<and> view b' = view b"
  using assms(1,2)
proof (cases rule: submit_score_cases [where player = player and junk = junk and s = s and now = now])
  case (kept e)
  with assms(3) show ?thesis by simp
next
  case (improved e b2)
  note wf = board_invD(1) [OF assms(1)]
  have b2: "b' = b2" "pos = Some (index_of player (ranking b2))" "past = Some (index_of player (ranking b))"
    using improved(3) assms(3) by auto
  note eff = update_score_effect [OF wf improved(1,2,4)]
  have p: "player \<in> set (ranking b)" using improved(1) board_wfD(2) [OF wf] by auto
  moreover from p have "player \<in> set (ranking b2)" by (metis eff(4) set_mset_mset)
  ultimately show ?thesis
    using view_index [of player b] view_index [of player b2] board_wfD(3) [OF wf p]
    by (simp add: b2 eff(3) index_of_less)
next
  case refused
  with assms(3) show ?thesis by auto
next
  case (added b2)
  note wf = board_invD(1) [OF assms(1)]
  have "player \<notin> name ` set (view b)"
    using added(1) board_wfD(2) [OF wf] map_name_view [OF wf] by (metis domIff list.set_map)
  with added_nth [OF assms(1,2) added(1,4,5)] added(3) assms(3) show ?thesis by auto
qed

lemma submit_score_positions_witness:
  "view (snd (projr (submit_score 5 (0, 0) ''bob'' (9::int) (empty_board 3 True ''f'')))) ! 0 =
     fresh_entry 5 ''bob'' 9 0"
  using submit_score_positions
    [of "empty_board 3 True ''f''" 5 "(0, 0)" "''bob''" "9::int" "Some 0" None
      "insert_player 5 ''bob'' 9 (empty_board 3 True ''f'')"]
  by (simp add: submit_score_def add_player_def insert_player_def Let_def key_comp_def fresh_entry_def)

text \<open>
  A player's recorded score never gets worse. If the submitted score differs from the
  recorded one, then afterwards the player is still on the board with the better of the two
  (the larger for highest-first, the smaller for lowest-first), whatever the uninitialised
  memory holds; the score is replaced exactly when it is strictly better.
\<close>

theorem submit_score_keeps_best:
  assumes "board_inv b" and "entries b player = Some e" and "s \<noteq> score e"
  shows "\<exists>r b' e'. submit_score now junk player s b = Inr (r, b') \<and> entries b' player = Some e' \<and>
    score e' = (if highest_first b then max s (score e) else min s (score e)) \<and>
    (fst r \<noteq> None \<longleftrightarrow> score e' \<noteq> score e)"
proof -
  obtain r b' where u: "update_score now junk player s e b = (r, b')" by fastforce
  have sub: "submit_score now junk player s b = Inr (r, b')" using u assms(2) by (simp add: submit_score_def)
  let ?better = "leaderboard_entry_comparator (highest_first b) (uninitialised_candidate junk s) e"
  have better: "?better \<longleftrightarrow> (if highest_first b then s > score e else s < score e)"
    using assms(3)
    by (simp add: leaderboard_entry_comparator_def uninitialised_candidate_def fresh_entry_def)
  show ?thesis
  proof (cases ?better)
    case True
    with update_score_effect [OF board_invD(1) [OF assms(1)] assms(2) True u] sub better assms(3)
    show ?thesis by (auto simp: fresh_entry_def split: if_splits)
  next
    case False
    then have "r = (None, None)" "b' = b"
      using u by (auto simp: update_score_def uninitialised_candidate_def fresh_entry_def)
    with False sub better assms(2,3) show ?thesis by (auto split: if_splits)
  qed
qed

definition one_player_board :: "int leaderboard" where
  "one_player_board = insert_player 10 ''ann'' 50 (empty_board 4 True ''f'')"

lemma one_player_board_simps:
  "board_inv one_player_board" "entries one_player_board = [''ann'' \<mapsto> fresh_entry 10 ''ann'' 50 0]"
  "highest_first one_player_board" "max_board_size one_player_board = 4"
  "next_id one_player_board = 1" "ranking one_player_board = [''ann'']"
  using insert_player_view(2) [of "empty_board 4 True ''f''" "''ann''" 10 "50::int"]
    board_invD(1) [OF empty_board_inv [of 4 True "''f''"]]
  by (simp_all add: one_player_board_def board_inv_def)
    (simp_all add: insert_player_def empty_board_def Let_def)

lemma submit_score_keeps_best_witness:
  "\<exists>r b' e'. submit_score 20 (0, 0) ''ann'' 40 one_player_board = Inr (r, b') \<and>
     entries b' ''ann'' = Some e' \<and> score e' = 50"
  using submit_score_keeps_best
    [of one_player_board "''ann''" "fresh_entry 10 ''ann'' 50 0" 40 20 "(0, 0)"]
  by (auto simp: one_player_board_simps fresh_entry_def)

text \<open>
  C34: Resubmitting the score a player already has is decided by uninitialised memory. The
  comparator falls through to the candidate's \<open>timestamp\<close> and \<open>id\<close>, which
  \<open>submit_score\<close> never sets: for one content of that memory the call rewrites the
  player's timestamp and id and reports a position, for another it reports a rejection.
\<close>

theorem equal_score_depends_on_garbage:
  assumes "board_inv b" and "entries b player = Some e"
  shows "\<exists>junk1 junk2 i j b'.
     submit_score now junk1 player (score e) b = Inr ((Some i, Some j), b') \<and>
     entries b' player = Some (fresh_entry now player (score e) (next_id b)) \<and>
     submit_score now junk2 player (score e) b = Inr ((None, None), b)"
proof -
  let ?junk1 = "(timestamp e - 1, 0)" and ?junk2 = "(timestamp e + 1, 0)"
  have acc: "leaderboard_entry_comparator (highest_first b) (uninitialised_candidate ?junk1 (score e)) e"
    and rej: "\<not> leaderboard_entry_comparator (highest_first b) (uninitialised_candidate ?junk2 (score e)) e"
    by (simp_all add: leaderboard_entry_comparator_def entry_comparator_def
        uninitialised_candidate_def fresh_entry_def)
  obtain r b' where u: "update_score now ?junk1 player (score e) e b = (r, b')" by fastforce
  from update_score_effect(2,3) [OF board_invD(1) [OF assms(1)] assms(2) acc u] u assms(2)
  have "\<exists>i j. submit_score now ?junk1 player (score e) b = Inr ((Some i, Some j), b') \<and>
     entries b' player = Some (fresh_entry now player (score e) (next_id b))"
    by (simp add: submit_score_def)
  moreover have "submit_score now ?junk2 player (score e) b = Inr ((None, None), b)"
    using rej assms(2)
    by (simp add: submit_score_def update_score_def uninitialised_candidate_def fresh_entry_def)
  ultimately show ?thesis by blast
qed

lemma equal_score_depends_on_garbage_witness:
  "\<exists>junk1 junk2 i j b'.
     submit_score 99 junk1 ''ann'' 50 one_player_board = Inr ((Some i, Some j), b') \<and>
     submit_score 99 junk2 ''ann'' 50 one_player_board = Inr ((None, None), one_player_board)"
  using equal_score_depends_on_garbage
    [of one_player_board "''ann''" "fresh_entry 10 ''ann'' 50 0" 99]
  by (simp add: one_player_board_simps fresh_entry_def) blast

text \<open>
  A board constructed with capacity 0 has undefined behaviour on its first submission:
  \<open>std::prev(ranking.end())\<close> is taken of an empty ranking.
\<close>

theorem zero_capacity_undefined:
  "submit_score now junk player s (empty_board 0 hf path) =
     Inl (Undefined_behaviour ''prev of end() on an empty ranking'')"
  by (simp add: submit_score_def add_player_def)

text \<open>
  The ranking queries read the board safely and return the stretch they name: no
  query dereferences the end iterator; \<open>get_top_scores\<close> is the first entries of the
  ranking, \<open>get_bottom_scores\<close> the last ones from the bottom up, and the range queries
  are the half-open stretch of indices counted from the top or from the bottom, empty when
  the start is beyond the end or the board.
\<close>

theorem leaderboard_queries:
  "get_top_scores n b = Inr (take (unat n) (view b)) \<and>
   get_bottom_scores n b = Inr (take (unat n) (rev (view b))) \<and>
   get_range_from_top start end b = Inr (take (unat end - unat start) (drop (unat start) (view b))) \<and>
   get_range_from_bottom start end b =
     Inr (take (unat end - unat start) (drop (unat start) (rev (view b))))"
  unfolding get_top_scores_def get_bottom_scores_def get_range_from_top_def get_range_from_bottom_def
  using copy_prefix [of "deref (entries b)" "unat n" "ranking b"]
    copy_prefix [of "deref (entries b)" "unat n" "rev (ranking b)"]
    copy_stretch [of "deref (entries b)" "unat end" "ranking b" "unat start"]
    copy_stretch [of "deref (entries b)" "unat end" "rev (ranking b)" "unat start"]
  by (auto simp: view_def rev_map word_less_nat_alt)

section \<open>Saving and loading\<close>

lemma load_items_step:
  assumes "json_lib_laws lib" "in_int64 (timestamp e)" "item_count + 1 \<le> msize"
    "entries c (name e) = None" "highest_first c"
  defines "c' \<equiv> insert_player (timestamp e) (name e) (score e) c"
  shows "load_items lib msize (saved_item lib e # items) item_count (entries c) (ranking c) (next_id c) =
    load_items lib msize items (item_count + 1) (entries c') (ranking c') (next_id c')"
proof -
  have "\<not> msize < item_count + 1" using assms(3) by (simp add: not_less)
  with assms(1,2,4,5) show ?thesis
    by (simp add: json_lib_laws_def saved_item_def c'_def insert_player_def Let_def fresh_entry_def
        in_int64_def)
qed

lemma insert_player_frame [simp]:
  "highest_first (insert_player now p s b) = highest_first b"
  "next_id (insert_player now p s b) = next_id b + 1"
  by (simp_all add: insert_player_def Let_def)

lemma insert_saved:
  assumes "board_wf c" "highest_first c" "view c = relabel pre" "next_id c = of_nat (length pre)"
    and "ms_sorted (leaderboard_entry_comparator True) (pre @ [e])" "length pre < 2 ^ 64"
    and "name e \<notin> name ` set pre"
  defines "c' \<equiv> insert_player (timestamp e) (name e) (score e) c"
  shows "entries c (name e) = None" and "view c' = relabel (pre @ [e])" and "board_wf c'"
proof -
  have "ranking c = map name pre"
    using map_name_view [OF assms(1)] map_relabel [of name pre] assms(3) by simp
  then show new: "entries c (name e) = None" using board_wfD(2) [OF assms(1)] assms(7) by auto
  have fe: "fresh_entry (timestamp e) (name e) (score e) (next_id c) = e\<lparr>entry_id := of_nat (length pre)\<rparr>"
    using assms(4) by (cases e) (simp add: fresh_entry_def)
  have "pre = [] \<or> \<not> leaderboard_entry_comparator True
      (e\<lparr>entry_id := of_nat (length pre)\<rparr>) (last (relabel pre))"
    using relabelled_not_better assms(5,6) by blast
  then show "view c' = relabel (pre @ [e])"
    using insert_player_view(1) [OF assms(1) new, of "timestamp e" "score e"]
      leaderboard_order.insert_snoc_iff [OF board_wfD(4) [OF assms(1)]] assms(2,3) fe
    by (auto simp: relabel_snoc c'_def)
  show "board_wf c'" unfolding c'_def by (rule insert_player_view(2) [OF assms(1) new])
qed

lemma load_items_saved:
  assumes "json_lib_laws lib" "length (pre @ es) \<le> unat msize"
    "distinct (map name (pre @ es))" "list_all (\<lambda>e. in_int64 (timestamp e)) es"
    "ms_sorted (leaderboard_entry_comparator True) (pre @ es)"
    "board_wf c" "highest_first c" "view c = relabel pre" "next_id c = of_nat (length pre)"
  shows "\<exists>c'. load_items lib msize (map (saved_item lib) es) (of_nat (length pre))
           (entries c) (ranking c) (next_id c) = Some (entries c', ranking c', next_id c')
         \<and> board_wf c' \<and> highest_first c' \<and> view c' = relabel (pre @ es)"
  using assms(2-)
proof (induction es arbitrary: pre c)
  case Nil
  then show ?case by (intro exI [of _ c]) simp
next
  case (Cons e es)
  let ?c = "insert_player (timestamp e) (name e) (score e) c"
  have len: "length pre < unat msize" using Cons.prems(1) by simp
  with unat_u64_bound [of msize] have small: "length pre < 2 ^ 64" by simp
  have step: "(of_nat (length pre) :: u64) + 1 = of_nat (length (pre @ [e]))" by simp
  note fits = item_count_step(2) [OF len]
  have "ms_sorted (leaderboard_entry_comparator True) (pre @ [e])" "name e \<notin> name ` set pre"
    using Cons.prems(2,4) by (auto simp: ms_sorted_def sorted_wrt_append)
  note ins = insert_saved [OF Cons.prems(5-8) this(1) small this(2)]
  have "in_int64 (timestamp e)" using Cons.prems(3) by simp
  then have "load_items lib msize (map (saved_item lib) (e # es)) (of_nat (length pre))
       (entries c) (ranking c) (next_id c) =
     load_items lib msize (map (saved_item lib) es) (of_nat (length (pre @ [e])))
       (entries ?c) (ranking ?c) (next_id ?c)"
    unfolding step [symmetric] list.map by (rule load_items_step [OF assms(1) _ fits ins(1) Cons.prems(6)])
  moreover have "\<exists>c'. load_items lib msize (map (saved_item lib) es) (of_nat (length (pre @ [e])))
       (entries ?c) (ranking ?c) (next_id ?c) = Some (entries c', ranking c', next_id c')
     \<and> board_wf c' \<and> highest_first c' \<and> view c' = relabel ((pre @ [e]) @ es)"
    using Cons.prems ins(2,3) by (intro Cons.IH) simp_all
  ultimately show ?case by simp
qed

text \<open>What \<open>save\<close> writes of an entry: everything but its id.\<close>

definition saved_part :: "'s leaderboard_entry \<Rightarrow> string \<times> 's \<times> time_s" where
  "saved_part e = (name e, score e, timestamp e)"

lemma load_items_any_order:
  assumes "json_lib_laws lib" "length (ranking c) + length es \<le> unat msize"
    "distinct (ranking c @ map name es)" "list_all (\<lambda>e. in_int64 (timestamp e)) es" "board_wf c" "highest_first c"
  shows "\<exists>c'. load_items lib msize (map (saved_item lib) es) (of_nat (length (ranking c)))
           (entries c) (ranking c) (next_id c) = Some (entries c', ranking c', next_id c')
         \<and> board_wf c' \<and> highest_first c' \<and>
         mset (map saved_part (view c')) = mset (map saved_part (view c)) + mset (map saved_part es)"
  using assms(2-)
proof (induction es arbitrary: c)
  case Nil
  then show ?case by (intro exI [of _ c]) simp
next
  case (Cons e es)
  let ?c = "insert_player (timestamp e) (name e) (score e) c"
  have len: "length (ranking c) < unat msize" using Cons.prems(1) by simp
  have new: "entries c (name e) = None" using board_wfD(2) [OF Cons.prems(4)] Cons.prems(2) by auto
  note ins = insert_player_view [OF Cons.prems(4) new, of "timestamp e" "score e"]
  have rk: "mset (ranking ?c) = add_mset (name e) (mset (ranking c))" by (simp add: insert_player_def Let_def)
  have "mset (ranking ?c @ map name es) = mset (ranking c @ map name (e # es))" by (simp add: rk)
  then have d: "distinct (ranking ?c @ map name es)" using Cons.prems(2) mset_eq_imp_distinct_iff by blast
  have l: "length (ranking ?c) = Suc (length (ranking c))" by (metis rk size_add_mset size_mset)
  have step: "(of_nat (length (ranking c)) :: u64) + 1 = of_nat (length (ranking ?c))" by (simp add: l)
  have "in_int64 (timestamp e)" using Cons.prems(3) by simp
  note load = load_items_step [OF assms(1) this item_count_step(2) [OF len] new Cons.prems(5)]
  have "\<exists>c'. load_items lib msize (map (saved_item lib) es) (of_nat (length (ranking ?c)))
      (entries ?c) (ranking ?c) (next_id ?c) = Some (entries c', ranking c', next_id c')
    \<and> board_wf c' \<and> highest_first c' \<and>
    mset (map saved_part (view c')) = mset (map saved_part (view ?c)) + mset (map saved_part es)"
    using Cons.prems d l ins(2) by (intro Cons.IH) simp_all
  moreover have "mset (map saved_part (view ?c)) = add_mset (saved_part e) (mset (map saved_part (view c)))"
    by (simp add: ins(1) saved_part_def fresh_entry_def)
  ultimately show ?case unfolding list.map load step by simp
qed

lemma board_wf_cong:
  assumes "entries b = entries c" "ranking b = ranking c" "highest_first b = highest_first c"
  shows "board_wf b = board_wf c" "view b = view c"
  using assms by (simp_all add: board_wf_def view_def)

lemma view_empty_board: "view (empty_board msize hf path) = []"
  by (simp add: view_def)

lemma new_leaderboard_loads:
  assumes "json_lib_laws lib" "board_inv b" "list_all (\<lambda>e. in_int64 (timestamp e)) (view b)"
    "fs (file_path b) = Some t" "parse lib t = Some (JArray (map (saved_item lib) (view b)))"
    "b' = new_leaderboard lib fs (file_path b) (max_board_size b) hf"
  shows "board_inv b' \<and> highest_first b' \<and> mset (map saved_part (view b')) = mset (map saved_part (view b))"
    and "highest_first b \<Longrightarrow> view b' = relabel (view b)"
proof -
  note wf = board_invD(1) [OF assms(2)]
  let ?e = "empty_board (max_board_size b) True (file_path b)"
  have e: "board_wf ?e" by (rule board_invD(1) [OF empty_board_inv])
  then have "\<exists>c'. load_items lib (max_board_size b) (map (saved_item lib) (view b)) 0
      Map.empty [] 0 = Some (entries c', ranking c', next_id c')
    \<and> board_wf c' \<and> highest_first c' \<and> mset (map saved_part (view c')) = mset (map saved_part (view b))"
    using load_items_any_order [of lib ?e "view b" "max_board_size b"]
      assms(1,3) board_invD(2) [OF assms(2)] board_wfD(1) [OF wf]
    by (simp add: map_name_view [OF wf] view_empty_board)
  then obtain c' where c': "load_items lib (max_board_size b) (map (saved_item lib) (view b)) 0
      Map.empty [] 0 = Some (entries c', ranking c', next_id c')"
    "board_wf c'" "highest_first c'" "mset (map saved_part (view c')) = mset (map saved_part (view b))" by auto
  have eq: "entries b' = entries c'" "ranking b' = ranking c'" "highest_first b' = highest_first c'"
    "max_board_size b' = max_board_size b"
    using assms(4,5) c' by (simp_all add: assms(6) new_leaderboard_def load_def)
  have "length (view c') = length (view b)" by (metis c'(4) length_map size_mset)
  then have "length (ranking b') \<le> unat (max_board_size b')"
    using eq board_invD(2) [OF assms(2)] by (simp add: view_def)
  with board_wf_cong [OF eq(1-3)] c' eq(3)
  show "board_inv b' \<and> highest_first b' \<and> mset (map saved_part (view b')) = mset (map saved_part (view b))"
    by (simp add: board_inv_def)
  show "view b' = relabel (view b)" if hf: "highest_first b"
  proof -
    obtain d where d: "load_items lib (max_board_size b) (map (saved_item lib) (view b)) 0 Map.empty [] 0 =
        Some (entries d, ranking d, next_id d)" "view d = relabel (view b)"
      using load_items_saved [of lib "[]" "view b" "max_board_size b" ?e] e hf
        assms(1,3) board_invD(2) [OF assms(2)] board_wfD(1,4) [OF wf]
      by (auto simp: map_name_view [OF wf] relabel_def)
    with c'(1) eq show ?thesis by (simp add: view_def)
  qed
qed

text \<open>
  C11: Saving and reloading gives the entries of a board back. If \<open>save\<close> reports success, then
  constructing a leaderboard on the resulting file (with the same capacity) yields a board that
  satisfies the invariant and holds the same players with the same scores and timestamps, each
  once; only the ids are renumbered. A board that ranks the highest score first comes back in the
  same order. One that ranks the lowest first does not: its entries come back ranked highest
  first, since \<open>load\<close> replaces the comparator.
\<close>

theorem leaderboard_save_load_roundtrip:
  assumes "json_lib_laws lib" and "board_inv b" and "list_all (\<lambda>e. in_int64 (timestamp e)) (view b)"
    and "save lib io b fs = (True, fs')"
    and "b' = new_leaderboard lib fs' (file_path b) (max_board_size b) hf"
  shows "board_inv b' \<and> highest_first b' \<and>
    mset (map (\<lambda>e. (name e, score e, timestamp e)) (view b')) = mset (map (\<lambda>e. (name e, score e, timestamp e)) (view b)) \<and>
    (highest_first b \<longrightarrow>
      map (\<lambda>e. (name e, score e, timestamp e)) (view b') = map (\<lambda>e. (name e, score e, timestamp e)) (view b))"
proof -
  have doc: "map (\<lambda>p. saved_item lib (deref (entries b) p)) (ranking b) = map (saved_item lib) (view b)"
    by (simp add: view_def)
  from write_document_outcome(1) [OF assms(4) [unfolded save_def doc]]
  obtain t where t: "dump lib (JArray (map (saved_item lib) (view b))) = Some t" "fs' (file_path b) = Some t"
    by blast
  with assms(1) have "parse lib t = Some (JArray (map (saved_item lib) (view b)))"
    by (auto simp: json_lib_laws_def)
  note loads = new_leaderboard_loads [OF assms(1-3) t(2) this assms(5)]
  have part: "(\<lambda>e. (name e, score e, timestamp e)) = saved_part" by (simp add: saved_part_def fun_eq_iff)
  have "map saved_part (view b') = map saved_part (view b)" if "highest_first b"
    unfolding loads(2) [OF that] by (rule map_relabel) (simp add: saved_part_def)
  with loads(1) show ?thesis unfolding part by blast
qed

lemma one_player_save:
  "save plain_json_lib fair_weather one_player_board fs =
     (True, (fs(''f'' \<mapsto> JArray [JObject [(''name'', JString ''ann''), (''score'', JInt 50),
        (''timestamp'', JInt 10)]]))(''f.tmp'' := None))"
  by (simp add: save_def write_document_def Let_def fair_weather_def plain_json_lib_def
      one_player_board_def insert_player_def saved_item_def fresh_entry_def temp_path_def
      fun_upd_twist)

lemma leaderboard_save_load_roundtrip_witness:
  "map name (view (new_leaderboard plain_json_lib
     (snd (save plain_json_lib fair_weather one_player_board Map.empty)) ''f'' 4 True)) = [''ann'']"
proof -
  let ?fs = "snd (save plain_json_lib fair_weather one_player_board Map.empty)"
  have s: "save plain_json_lib fair_weather one_player_board Map.empty = (True, ?fs)"
    by (simp add: one_player_save)
  have f: "file_path one_player_board = ''f''"
    by (simp add: one_player_board_def insert_player_def Let_def)
  have "map (\<lambda>e. (name e, score e, timestamp e))
      (view (new_leaderboard plain_json_lib ?fs (file_path one_player_board) (max_board_size one_player_board) True)) =
    map (\<lambda>e. (name e, score e, timestamp e)) (view one_player_board)"
    using leaderboard_save_load_roundtrip
      [OF plain_json_lib_laws one_player_board_simps(1) _ s refl, of True] one_player_board_simps(3)
    by (simp add: view_def one_player_board_simps deref_def fresh_entry_def in_int64_def)
  from arg_cong [OF this, of "map fst"] show ?thesis
    by (simp add: f one_player_board_simps o_def view_def deref_def fresh_entry_def)
qed

text \<open>What the loop of \<open>load\<close> does to an item it accepts, whatever the file holds.\<close>

lemma load_items_ConsE:
  assumes "load_items lib msize (item # items) k (entries c) (ranking c) (next_id c) = Some res"
    and "highest_first c"
  obtains (break) "msize < k + 1" "res = (entries c, ranking c, next_id c)"
  | (accept) t n s where "k + 1 \<le> msize" "entries c n = None"
      "load_items lib msize items (k + 1) (entries (insert_player t n s c))
         (ranking (insert_player t n s c)) (next_id (insert_player t n s c)) = Some res"
proof (cases "msize < k + 1")
  case True
  with assms(1) show thesis by (intro break) simp_all
next
  case False
  with assms show thesis
    by (auto simp: bind_eq_Some_conv Let_def insert_player_def fresh_entry_def not_less
        split: if_splits intro: accept)
qed

lemma load_items_inv:
  assumes "load_items lib msize items k (entries c) (ranking c) (next_id c) = Some (es, rk, i)"
    and "board_wf c" "highest_first c" "unat k = length (ranking c)" "unat k \<le> unat msize" "msize \<noteq> - 1"
  shows "\<exists>c'. es = entries c' \<and> rk = ranking c' \<and> board_wf c' \<and> highest_first c' \<and> length rk \<le> unat msize"
  using assms
proof (induction items arbitrary: k c)
  case Nil
  then show ?case by (intro exI [of _ c]) simp
next
  case (Cons item items)
  from Cons.prems(1,3) show ?case
  proof (cases rule: load_items_ConsE)
    case break
    with Cons.prems show ?thesis by (intro exI [of _ c]) simp
  next
    case (accept t n s)
    let ?c = "insert_player t n s c"
    have "unat (k + 1) = Suc (unat k)" "Suc (unat k) \<le> unat msize"
      using item_count_next [of msize k] accept(1) Cons.prems(5,6) by (simp_all add: not_less)
    moreover have "length (ranking ?c) = Suc (length (ranking c))"
      by (simp add: insert_player_def Let_def)
    ultimately show ?thesis
      using Cons.IH [OF accept(3)] insert_player_view(2) [OF Cons.prems(2) accept(2)]
        Cons.prems(3,4,6) accept(1)
      by (simp add: word_le_nat_alt)
  qed
qed

lemma load_outcome:
  assumes "load lib fs b = (ok, b')" "max_board_size b \<noteq> - 1"
  shows "if ok then board_inv b' else b' = b"
proof (cases ok)
  case False
  with assms(1) show ?thesis
    by (auto simp: load_def split: option.splits json.splits)
next
  case True
  with assms(1) obtain items es rk i where
    l: "load_items lib (max_board_size b) items 0 Map.empty [] (next_id b) = Some (es, rk, i)"
    and b': "b' = b\<lparr>entries := es, ranking := rk, highest_first := True, next_id := i\<rparr>"
    by (auto simp: load_def split: option.splits json.splits)
  let ?e = "(empty_board (max_board_size b) True [])\<lparr>next_id := next_id b\<rparr>"
  have "load_items lib (max_board_size b) items 0 (entries ?e) (ranking ?e) (next_id ?e) = Some (es, rk, i)"
    using l by simp
  then obtain c' where "es = entries c'" "rk = ranking c'" "board_wf c'" "highest_first c'"
    "length rk \<le> unat (max_board_size b)"
    using load_items_inv [of lib "max_board_size b" items 0 ?e es rk i] assms(2)
      board_invD(1) [OF empty_board_inv] by auto
  with b' True board_wf_cong(1) [of b' c'] show ?thesis by (simp add: board_inv_def)
qed

lemma load_frame [simp]:
  "file_path (snd (load lib fs b)) = file_path b" "max_board_size (snd (load lib fs b)) = max_board_size b"
  by (auto simp: load_def split: option.splits json.splits)

lemma submit_score_frame:
  assumes "submit_score now junk player s b = Inr (r, b')"
  shows "file_path b' = file_path b \<and> max_board_size b' = max_board_size b"
  using assms
  by (auto simp: submit_score_def update_score_def add_player_def remove_last_def Let_def split_beta
      split: option.splits if_splits list.splits sum.splits)

lemma submit_score_inv:
  assumes "board_inv b" "max_board_size b \<noteq> 0"
  obtains r b' where "submit_score now junk player s b = Inr (r, b')" "board_inv b'"
    "file_path b' = file_path b" "max_board_size b' = max_board_size b"
proof -
  from assms have "\<exists>r b'. submit_score now junk player s b = Inr (r, b') \<and> board_inv b'"
  proof (cases rule: submit_score_cases [of b player junk s now])
    case (improved e b')
    with update_score_inv [OF assms(1) improved(1), of now junk s] show ?thesis by simp
  next
    case (added b')
    with add_player_refines(2) [OF assms(1) added(1) assms(2) added(2)] show ?thesis by blast
  qed (use assms(1) in auto)
  with submit_score_frame that show thesis by blast
qed

text \<open>
  Loading is all or nothing, for any file content. If \<open>load\<close> reports failure (no
  file, text that is not JSON, not an array, an item that is not an object, a missing or
  ill-typed field, a duplicate player) the board is exactly as before; if it reports success
  the board satisfies the invariant and its capacity.
\<close>

theorem leaderboard_load_all_or_nothing:
  assumes "load lib fs b = (ok, b')" and "max_board_size b \<noteq> - 1"
  shows "if ok then board_inv b' else b' = b"
  by (rule load_outcome [OF assms])

lemma leaderboard_load_all_or_nothing_witness:
  "snd (load plain_json_lib [''f'' \<mapsto> JArray [JString ''x'']] one_player_board) = one_player_board"
  using leaderboard_load_all_or_nothing
    [of plain_json_lib "[''f'' \<mapsto> JArray [JString ''x'']]" one_player_board False]
  by (simp add: load_def plain_json_lib_def one_player_board_simps
      one_player_board_def [unfolded insert_player_def Let_def, THEN arg_cong [of _ _ file_path]])

text \<open>
  Reloading forgets the sort direction. \<open>load\<close> fills a default-constructed
  multiset, whose comparator ranks the highest score first, and moves it, comparator
  included, over \<open>ranking\<close>: whatever direction the board was constructed with, after a
  successful load it ranks the highest score first.
\<close>

theorem load_forgets_direction:
  assumes "load lib fs b = (True, b')"
  shows "highest_first b'"
  using assms by (auto simp: load_def split: option.splits json.splits)

definition two_scores_file :: "json file_system" where
  "two_scores_file = [''f'' \<mapsto> JArray
     [JObject [(''name'', JString ''low''), (''score'', JInt 1), (''timestamp'', JInt 0)],
      JObject [(''name'', JString ''high''), (''score'', JInt 2), (''timestamp'', JInt 0)]]]"

lemma load_forgets_direction_witness:
  "highest_first (new_leaderboard plain_json_lib two_scores_file ''f'' 10 False) \<and>
   ranking (new_leaderboard plain_json_lib two_scores_file ''f'' 10 False) = [''high'', ''low'']"
proof -
  let ?b = "empty_board 10 False ''f'' :: int leaderboard"
  let ?l = "load plain_json_lib two_scores_file ?b"
  have l: "?l = (True, snd ?l)" and r: "ranking (snd ?l) = [''high'', ''low'']"
    by (simp_all add: load_def two_scores_file_def plain_json_lib_def Let_def deref_def
        leaderboard_entry_ptr_comparator_def leaderboard_entry_comparator_def)
  have "new_leaderboard plain_json_lib two_scores_file ''f'' 10 False = snd ?l"
    by (simp add: new_leaderboard_def empty_board_def)
  with load_forgets_direction [OF l] r show ?thesis by simp
qed

end
