(* ===== verification/Nameboard.thy ===== *)
theory Nameboard
  imports Json_Store
begin

text \<open>
  \<open>src/data_structures/global_boards/nameboard.hpp\<close>: the chronological board of names.

  \<open>entries\<close> is a \<open>std::list\<close> whose nodes never move: a node is its address and its
  value, and a pointer into the list is the address. \<open>ranking\<close> is the multiset of those
  pointers in container order. \<open>node_count\<close> stands for the allocator: the address of the
  next node, different from every address handed out before.
\<close>

section \<open>State and operations\<close>

type_synonym node = "nat \<times> entry"

record nameboard =
  nb_next_id :: u64
  nodes :: "node list"
  nb_ranking :: "nat list"
  nb_file_path :: string
  nb_max_size :: size_t
  node_count :: nat

definition node_at :: "node list \<Rightarrow> nat \<Rightarrow> entry" where
  "node_at ns a = the (map_of ns a)"

definition contains :: "string \<Rightarrow> nameboard \<Rightarrow> bool" where
  "contains nm b \<longleftrightarrow> list_ex (\<lambda>(a, e). name e = nm) (nodes b)"

definition nameboard_size :: "nameboard \<Rightarrow> nat" where
  "nameboard_size b = length (nb_ranking b)"

text \<open>The loop that erases the node with a given address.\<close>

fun erase_node :: "nat \<Rightarrow> node list \<Rightarrow> node list" where
  "erase_node a [] = []"
| "erase_node a (n # ns) = (if fst n = a then ns else n # erase_node a ns)"

text \<open>\<open>entries.emplace_back(...)\<close>, \<open>ranking.insert(&e)\<close>.\<close>

definition append_entry :: "string \<Rightarrow> time_s \<Rightarrow> nameboard \<Rightarrow> nameboard" where
  "append_entry nm t b =
     (let a = node_count b;
          ns = nodes b @ [(a, \<lparr>name = nm, timestamp = t, entry_id = nb_next_id b\<rparr>)]
      in b\<lparr>nb_next_id := nb_next_id b + 1, nodes := ns, node_count := Suc a,
           nb_ranking := ms_insert (entry_ptr_comparator (node_at ns)) a (nb_ranking b)\<rparr>)"

definition add_name :: "time_s \<Rightarrow> string \<Rightarrow> nameboard \<Rightarrow> nat option \<times> nameboard" where
  "add_name now nm b =
     (if contains nm b then (None, b)
      else
        let a = node_count b;
            b1 = append_entry nm now b;
            index = index_of a (nb_ranking b1)
        in if unat (nb_max_size b1) < length (nb_ranking b1) then
             (let oldest = hd (nb_ranking b1);
                  b2 = b1\<lparr>nb_ranking := tl (nb_ranking b1), nodes := erase_node oldest (nodes b1)\<rparr>
              in if oldest = a then (None, b2) else (Some index, b2))
           else (Some index, b1))"

definition nb_get_all :: "nameboard \<Rightarrow> entry list outcome" where
  "nb_get_all b = copy_entries (node_at (nodes b)) (length (nb_ranking b)) (nb_ranking b) []"

definition nb_get_from_first :: "size_t \<Rightarrow> nameboard \<Rightarrow> entry list outcome" where
  "nb_get_from_first amount b =
     copy_entries (node_at (nodes b)) (min (unat amount) (length (nb_ranking b))) (nb_ranking b) []"

definition nb_get_from_last :: "size_t \<Rightarrow> nameboard \<Rightarrow> entry list outcome" where
  "nb_get_from_last amount b =
     copy_entries (node_at (nodes b)) (min (unat amount) (length (nb_ranking b))) (rev (nb_ranking b)) []"

definition nb_get_in_range_from_top :: "size_t \<Rightarrow> size_t \<Rightarrow> nameboard \<Rightarrow> entry list outcome" where
  "nb_get_in_range_from_top start end b =
     (if length (nb_ranking b) \<le> unat start \<or> start > end then Inr []
      else copy_entries (node_at (nodes b)) (min (unat end) (length (nb_ranking b)) - unat start)
             (drop (unat start) (nb_ranking b)) [])"

definition nb_get_in_range_from_bottom :: "size_t \<Rightarrow> size_t \<Rightarrow> nameboard \<Rightarrow> entry list outcome" where
  "nb_get_in_range_from_bottom start end b =
     (if length (nb_ranking b) \<le> unat start \<or> start > end then Inr []
      else copy_entries (node_at (nodes b)) (min (unat end) (length (nb_ranking b)) - unat start)
             (drop (unat start) (rev (nb_ranking b))) [])"

section \<open>Persistence\<close>

definition NAMEBOARDS_SUBDIRECTORY_NAME :: string where
  "NAMEBOARDS_SUBDIRECTORY_NAME = ''nameboards''"

definition NAMEBOARD_NAME_KEY :: string where
  [simp]: "NAMEBOARD_NAME_KEY = ''name''"

definition NAMEBOARD_TIMESTAMP_KEY :: string where
  [simp]: "NAMEBOARD_TIMESTAMP_KEY = ''timestamp''"

definition saved_name :: "entry \<Rightarrow> json" where
  "saved_name e = JObject [(NAMEBOARD_NAME_KEY, JString (name e)), (NAMEBOARD_TIMESTAMP_KEY, JInt (timestamp e))]"

definition save_names ::
    "('txt, 's) json_lib \<Rightarrow> 'txt io_outcomes \<Rightarrow> nameboard \<Rightarrow> 'txt file_system \<Rightarrow>
     bool \<times> 'txt file_system" where
  "save_names lib io b fs =
     write_document lib io (nb_file_path b)
       (JArray (map (\<lambda>p. saved_name (node_at (nodes b) p)) (nb_ranking b))) fs"

text \<open>
  The loop of \<open>load\<close>; the local \<open>new_entries\<close>, \<open>new_ranking\<close> and \<open>new_next_id\<close> are
  the board \<open>fresh\<close> that it fills.
\<close>

fun load_names ::
    "('txt, 's) json_lib \<Rightarrow> size_t \<Rightarrow> json list \<Rightarrow> size_t \<Rightarrow> nameboard \<Rightarrow> nameboard option" where
  "load_names lib msize [] item_count fresh = Some fresh"
| "load_names lib msize (item # items) item_count fresh =
     (if item_count + 1 > msize then Some fresh
      else if \<not> is_object item then None
      else
        Option.bind (Option.bind (json_at item NAMEBOARD_NAME_KEY) (get_string lib)) (\<lambda>n.
        Option.bind (Option.bind (json_at item NAMEBOARD_TIMESTAMP_KEY) (get_int64 lib)) (\<lambda>t.
        load_names lib msize items (item_count + 1) (append_entry n t fresh))))"

definition load_nameboard :: "('txt, 's) json_lib \<Rightarrow> 'txt file_system \<Rightarrow> nameboard \<Rightarrow> bool \<times> nameboard" where
  "load_nameboard lib fs b =
     (case fs (nb_file_path b) of
        None \<Rightarrow> (False, b)
      | Some text \<Rightarrow>
          (case parse lib text of
             Some (JArray items) \<Rightarrow>
               (case load_names lib (nb_max_size b) items 0 (b\<lparr>nodes := [], nb_ranking := [], nb_next_id := 0\<rparr>) of
                  None \<Rightarrow> (False, b)
                | Some b' \<Rightarrow> (True, b'))
           | _ \<Rightarrow> (False, b)))"

definition DEFAULT_MAX_NAMEBOARD_SIZE :: size_t where
  "DEFAULT_MAX_NAMEBOARD_SIZE = 10000"

definition empty_nameboard :: "string \<Rightarrow> size_t \<Rightarrow> nameboard" where
  "empty_nameboard path msize =
     \<lparr>nb_next_id = 0, nodes = [], nb_ranking = [], nb_file_path = path, nb_max_size = msize,
      node_count = 0\<rparr>"

definition new_nameboard :: "('txt, 's) json_lib \<Rightarrow> 'txt file_system \<Rightarrow> string \<Rightarrow> size_t \<Rightarrow> nameboard" where
  "new_nameboard lib fs path msize = snd (load_nameboard lib fs (empty_nameboard path msize))"

section \<open>The board as a chronological list of entries\<close>

definition nb_view :: "nameboard \<Rightarrow> entry list" where
  "nb_view b = map (node_at (nodes b)) (nb_ranking b)"

definition add_in_order :: "nat \<Rightarrow> entry \<Rightarrow> entry list \<Rightarrow> entry list" where
  "add_in_order cap e es =
     (let es' = ms_insert entry_comparator e es in if cap < length es' then tl es' else es')"

definition nameboard_wf :: "nameboard \<Rightarrow> bool" where
  "nameboard_wf b \<longleftrightarrow>
     distinct (map fst (nodes b)) \<and> (\<forall>a \<in> fst ` set (nodes b). a < node_count b)
     \<and> distinct (nb_ranking b) \<and> set (nb_ranking b) = fst ` set (nodes b)
     \<and> ms_sorted entry_comparator (nb_view b)"

lemma nameboard_wfD:
  assumes "nameboard_wf b"
  shows "distinct (map fst (nodes b))" "a \<in> fst ` set (nodes b) \<Longrightarrow> a < node_count b"
    "distinct (nb_ranking b)" "set (nb_ranking b) = fst ` set (nodes b)"
    "ms_sorted entry_comparator (nb_view b)"
  using assms by (auto simp: nameboard_wf_def)

lemma length_nb_view [simp]: "length (nb_view b) = length (nb_ranking b)"
  by (simp add: nb_view_def)

lemma node_at_snoc:
  "node_at (ns @ [(a, e)]) p = (if p \<in> fst ` set ns then node_at ns p else if p = a then e else node_at ns p)"
proof (cases "p \<in> fst ` set ns")
  case True
  then have "map_of ns p \<noteq> None" by (simp add: map_of_eq_None_iff)
  with True show ?thesis by (auto simp: node_at_def map_add_def)
next
  case False
  then have "map_of ns p = None" by (simp add: map_of_eq_None_iff)
  with False show ?thesis by (simp add: node_at_def map_add_def)
qed

lemma node_at_erase:
  "distinct (map fst ns) \<Longrightarrow> p \<noteq> a \<Longrightarrow> node_at (erase_node a ns) p = node_at ns p"
  by (induction ns) (auto simp: node_at_def)

lemma erase_node_keys:
  "distinct (map fst ns) \<Longrightarrow> fst ` set (erase_node a ns) = fst ` set ns - {a}"
  "distinct (map fst ns) \<Longrightarrow> distinct (map fst (erase_node a ns))"
  by (induction ns) (auto simp: image_iff)

lemma set_erase_node: "set (erase_node a ns) \<subseteq> set ns"
  by (induction ns) auto

lemma append_entry_simps [simp]:
  "nb_next_id (append_entry nm t b) = nb_next_id b + 1"
  "nb_max_size (append_entry nm t b) = nb_max_size b"
  "nb_file_path (append_entry nm t b) = nb_file_path b"
  "node_count (append_entry nm t b) = Suc (node_count b)"
  "nodes (append_entry nm t b) = nodes b @ [(node_count b, \<lparr>name = nm, timestamp = t, entry_id = nb_next_id b\<rparr>)]"
  "length (nb_ranking (append_entry nm t b)) = Suc (length (nb_ranking b))"
  "set (nb_ranking (append_entry nm t b)) = insert (node_count b) (set (nb_ranking b))"
  by (simp_all add: append_entry_def Let_def)

lemma append_entry_view:
  fixes nm t
  assumes "nameboard_wf b"
  defines "e \<equiv> \<lparr>name = nm, timestamp = t, entry_id = nb_next_id b\<rparr>"
  shows "nb_view (append_entry nm t b) = ms_insert entry_comparator e (nb_view b)"
    and "nameboard_wf (append_entry nm t b)"
    and "index_of (node_count b) (nb_ranking (append_entry nm t b)) = upper_bound entry_comparator e (nb_view b)"
proof -
  note wf = nameboard_wfD [OF assms(1)]
  let ?mem = "node_at (nodes b @ [(node_count b, e)])"
  have notin: "node_count b \<notin> fst ` set (nodes b)" using wf(2) by blast
  have new: "?mem (node_count b) = e" using notin by (simp add: node_at_snoc)
  have old: "map ?mem (nb_ranking b) = nb_view b"
    unfolding nb_view_def by (rule map_cong) (simp_all add: node_at_snoc wf(4))
  have rk: "nb_ranking (append_entry nm t b) = ms_insert (entry_ptr_comparator ?mem) (node_count b) (nb_ranking b)"
    by (simp add: append_entry_def Let_def e_def)
  show v: "nb_view (append_entry nm t b) = ms_insert entry_comparator e (nb_view b)"
    using map_ms_insert [of "nb_ranking b" "entry_ptr_comparator ?mem" "node_count b" entry_comparator ?mem]
    by (simp add: nb_view_def [of "append_entry nm t b"] rk new old entry_ptr_comparator_at flip: e_def)
  show "index_of (node_count b) (nb_ranking (append_entry nm t b)) = upper_bound entry_comparator e (nb_view b)"
    using index_of_ms_insert [of "node_count b" "nb_ranking b" "entry_ptr_comparator ?mem"] notin wf(4)
      upper_bound_map [of "nb_ranking b" "entry_ptr_comparator ?mem" "node_count b" entry_comparator ?mem]
    by (simp add: rk new old entry_ptr_comparator_at)
  have "distinct (nb_ranking (append_entry nm t b))" using notin wf(3,4) by (simp add: rk)
  then show "nameboard_wf (append_entry nm t b)"
    using notin wf entry_order.sorted_insert [OF wf(5), of e] v
    by (auto simp: nameboard_wf_def less_Suc_eq)
qed

lemma set_nb_view:
  assumes "nameboard_wf b"
  shows "set (nb_view b) = snd ` set (nodes b)"
proof -
  have "node_at (nodes b) (fst n) = snd n" if "n \<in> set (nodes b)" for n
    using map_of_is_SomeI [OF nameboard_wfD(1) [OF assms], of "fst n" "snd n"] that
    by (simp add: node_at_def)
  then have "node_at (nodes b) ` fst ` set (nodes b) = snd ` set (nodes b)"
    by (auto simp: image_image intro: image_cong)
  then show ?thesis by (simp add: nb_view_def nameboard_wfD(4) [OF assms])
qed

lemma contains_iff: "nameboard_wf b \<Longrightarrow> contains nm b \<longleftrightarrow> nm \<in> name ` set (nb_view b)"
  by (auto simp: contains_def list_ex_iff set_nb_view image_iff) force

definition drop_oldest :: "nameboard \<Rightarrow> nameboard" where
  "drop_oldest b = b\<lparr>nb_ranking := tl (nb_ranking b), nodes := erase_node (hd (nb_ranking b)) (nodes b)\<rparr>"

lemma drop_oldest_view:
  assumes "nameboard_wf b" "nb_ranking b \<noteq> []"
  shows "nb_view (drop_oldest b) = tl (nb_view b)" and "nameboard_wf (drop_oldest b)"
proof -
  note wf = nameboard_wfD [OF assms(1)]
  obtain p ps where rk: "nb_ranking b = p # ps" using assms(2) by (cases "nb_ranking b") auto
  have p: "p \<notin> set ps" using wf(3) rk by simp
  show v: "nb_view (drop_oldest b) = tl (nb_view b)"
    using p by (auto simp: nb_view_def drop_oldest_def rk intro!: map_cong node_at_erase [OF wf(1)])
  show "nameboard_wf (drop_oldest b)"
    unfolding nameboard_wf_def v
    using wf p erase_node_keys [OF wf(1), of p] ms_sorted_tl [OF wf(5)] set_erase_node [of p "nodes b"]
    by (auto simp: drop_oldest_def rk)
qed

definition entry_of :: "string \<Rightarrow> time_s \<Rightarrow> nameboard \<Rightarrow> entry" where
  "entry_of nm t b = \<lparr>name = nm, timestamp = t, entry_id = nb_next_id b\<rparr>"

lemma add_name_eq:
  "add_name now nm b =
     (let b1 = append_entry nm now b in
      if contains nm b then (None, b)
      else if unat (nb_max_size b) < length (nb_ranking b1)
      then (if hd (nb_ranking b1) = node_count b then None else Some (index_of (node_count b) (nb_ranking b1)),
            drop_oldest b1)
      else (Some (index_of (node_count b) (nb_ranking b1)), b1))"
  by (simp add: add_name_def drop_oldest_def Let_def)

lemma add_name_view:
  assumes "nameboard_wf b"
  shows "nb_view (snd (add_name now nm b)) =
      (if nm \<in> name ` set (nb_view b) then nb_view b
       else add_in_order (unat (nb_max_size b)) (entry_of nm now b) (nb_view b))"
    and "nameboard_wf (snd (add_name now nm b))"
    and "nb_max_size (snd (add_name now nm b)) = nb_max_size b"
proof -
  note app = append_entry_view [OF assms, of nm now]
  have ne: "nb_ranking (append_entry nm now b) \<noteq> []" using append_entry_simps(6) [of nm now b] by force
  note dr = drop_oldest_view [OF app(2) ne]
  from assms contains_iff [OF assms, of nm] app dr
  show "nb_view (snd (add_name now nm b)) =
      (if nm \<in> name ` set (nb_view b) then nb_view b
       else add_in_order (unat (nb_max_size b)) (entry_of nm now b) (nb_view b))"
    by (simp add: add_name_eq Let_def add_in_order_def entry_of_def)
  show "nameboard_wf (snd (add_name now nm b))" using assms app(2) dr(2) by (simp add: add_name_eq Let_def)
  show "nb_max_size (snd (add_name now nm b)) = nb_max_size b"
    by (simp add: add_name_eq Let_def drop_oldest_def)
qed

definition nameboard_inv :: "nameboard \<Rightarrow> bool" where
  "nameboard_inv b \<longleftrightarrow> nameboard_wf b \<and> length (nb_ranking b) \<le> unat (nb_max_size b)
     \<and> distinct (map name (nb_view b))"

lemma empty_nameboard_inv [simp]: "nameboard_inv (empty_nameboard path msize)"
  by (simp add: nameboard_inv_def nameboard_wf_def nb_view_def empty_nameboard_def ms_sorted_def)

lemma empty_nameboard_simps [simp]:
  "nb_view (empty_nameboard path msize) = []" "nb_max_size (empty_nameboard path msize) = msize"
  "nb_next_id (empty_nameboard path msize) = 0" "nb_file_path (empty_nameboard path msize) = path"
  by (simp_all add: nb_view_def empty_nameboard_def)

lemma distinct_map_ms_insert:
  "f x \<notin> f ` set xs \<Longrightarrow> distinct (map f xs) \<Longrightarrow> distinct (map f (ms_insert lt x xs))"
  by (induction xs) auto

lemma add_name_inv:
  assumes "nameboard_inv b"
  shows "nameboard_inv (snd (add_name now nm b))"
proof -
  have wf: "nameboard_wf b" and le: "length (nb_view b) \<le> unat (nb_max_size b)"
    and d: "distinct (map name (nb_view b))"
    using assms by (simp_all add: nameboard_inv_def)
  note v = add_name_view [OF wf, of now nm]
  have "distinct (map name (nb_view (snd (add_name now nm b))))"
    using v(1) d distinct_map_ms_insert [of name "entry_of nm now b" "nb_view b" entry_comparator]
    by (auto simp: add_in_order_def Let_def map_tl distinct_tl entry_of_def)
  moreover have "length (nb_view (snd (add_name now nm b))) \<le> unat (nb_max_size b)"
    using v(1) le by (auto simp: add_in_order_def Let_def)
  ultimately show ?thesis using v(2,3) by (simp add: nameboard_inv_def)
qed

section \<open>Properties\<close>

text \<open>
  C26: \<open>add_name\<close> refines its specification on chronological lists and keeps the
  invariant (list nodes and ranked pointers agree, ranking sorted by time and id, names
  unique, capacity respected): a known name changes nothing, a new one is inserted at its
  place in time, and when the capacity is exceeded the oldest entry leaves.
\<close>

theorem add_name_refines:
  assumes "nameboard_inv b"
  shows "nameboard_inv (snd (add_name now nm b)) \<and>
    nb_view (snd (add_name now nm b)) =
      (if nm \<in> name ` set (nb_view b) then nb_view b
       else add_in_order (unat (nb_max_size b)) (entry_of nm now b) (nb_view b))"
  using add_name_inv [OF assms] add_name_view(1) assms by (simp add: nameboard_inv_def)

lemma add_name_refines_witness:
  "map name (nb_view (snd (add_name 5 ''bob'' (empty_nameboard ''n'' 2)))) = [''bob'']"
  using add_name_refines [of "empty_nameboard ''n'' 2" 5 "''bob''"]
  by (simp add: add_in_order_def entry_of_def)

text \<open>
  With a clock that does not run backwards names are appended at the end: if no entry
  is later than the new one (by timestamp, then id), the new name becomes the last of the
  ranking, and on a full board exactly the first one is dropped for it.
\<close>

theorem add_name_appends:
  assumes "nameboard_inv b" and "nm \<notin> name ` set (nb_view b)" and "nb_max_size b \<noteq> 0"
    and "list_all (\<lambda>e. timestamp e < now \<or> timestamp e = now \<and> entry_id e \<le> nb_next_id b) (nb_view b)"
  shows "nb_view (snd (add_name now nm b)) =
    (if length (nb_view b) = unat (nb_max_size b) then tl (nb_view b) else nb_view b) @ [entry_of nm now b]"
proof -
  have wf: "nameboard_wf b" and le: "length (nb_view b) \<le> unat (nb_max_size b)"
    using assms(1) by (simp_all add: nameboard_inv_def)
  let ?e = "entry_of nm now b"
  have "\<forall>e \<in> set (nb_view b). \<not> entry_comparator ?e e"
    using assms(4) by (auto simp: list_all_iff entry_comparator_def entry_of_def)
  then have ins: "ms_insert entry_comparator ?e (nb_view b) = nb_view b @ [?e]"
    by (simp add: ms_insert_def iffD2 [OF upper_bound_all])
  have "unat (nb_max_size b) \<noteq> 0" using assms(3) by (simp add: unat_eq_0)
  then show ?thesis
    using add_name_view(1) [OF wf, of now nm] assms(2) le ins
    by (cases "nb_view b") (auto simp: add_in_order_def Let_def)
qed

lemma add_name_appends_witness:
  "map name (nb_view (snd (add_name 6 ''bob'' (snd (add_name 5 ''ann'' (empty_nameboard ''n'' 1)))))) = [''bob'']"
proof -
  let ?b = "snd (add_name 5 ''ann'' (empty_nameboard ''n'' 1))"
  have inv: "nameboard_inv ?b" by (simp add: add_name_inv)
  have v: "nb_view ?b = [\<lparr>name = ''ann'', timestamp = 5, entry_id = 0\<rparr>]"
    by (simp add: add_name_def append_entry_def contains_def empty_nameboard_def nb_view_def node_at_def Let_def)
  have m: "nb_max_size ?b = 1"
    by (simp add: add_name_def append_entry_def contains_def empty_nameboard_def Let_def)
  show ?thesis
    using add_name_appends [OF inv, of "''bob''" 6] by (simp add: v m entry_of_def)
qed

text \<open>
  On a full board the returned position is one too high. \<open>index\<close> is computed before
  the oldest entry is erased from the front of the ranking, so the new entry stands one
  place before the reported one; in the usual case, a new last entry, the reported position
  is the size of the board, where no entry stands.
\<close>

theorem add_name_position_off_by_one:
  assumes "nameboard_inv b" and "length (nb_view b) = unat (nb_max_size b)"
    and "add_name now nm b = (Some i, b')"
  shows "0 < i \<and> i \<le> length (nb_view b') \<and> nb_view b' ! (i - 1) = entry_of nm now b"
proof -
  have wf: "nameboard_wf b" using assms(1) by (simp add: nameboard_inv_def)
  let ?b1 = "append_entry nm now b" and ?e = "entry_of nm now b"
  note app = append_entry_view [OF wf, of nm now, folded entry_of_def]
  have full: "unat (nb_max_size b) < length (nb_ranking ?b1)" using assms(2) by simp
  have hd: "hd (nb_ranking ?b1) \<noteq> node_count b" and i: "i = upper_bound entry_comparator ?e (nb_view b)"
    and b': "b' = drop_oldest ?b1"
    using assms(3) full app(3) by (auto simp: add_name_eq Let_def split: if_splits)
  have ne: "nb_ranking ?b1 \<noteq> []" using append_entry_simps(6) [of nm now b] by force
  have "i \<noteq> 0"
  proof
    assume "i = 0"
    with i app(3) have "index_of (node_count b) (nb_ranking ?b1) = 0" by simp
    moreover have "node_count b \<in> set (nb_ranking ?b1)" by simp
    ultimately have "nb_ranking ?b1 ! 0 = node_count b" by (metis nth_index_of)
    with hd ne show False by (simp add: hd_conv_nth)
  qed
  moreover have "i \<le> length (nb_view b)" using i upper_bound_le by metis
  moreover have "nb_view b' = tl (ms_insert entry_comparator ?e (nb_view b))"
    using drop_oldest_view(1) [OF app(2) ne] app(1) b' by simp
  ultimately show ?thesis
    using nth_ms_insert_upper_bound [of entry_comparator ?e "nb_view b"] i by (simp add: nth_tl)
qed

lemma add_name_position_off_by_one_witness:
  "fst (add_name 6 ''bob'' (snd (add_name 5 ''ann'' (empty_nameboard ''n'' 1)))) = Some 1 \<and>
   name (nb_view (snd (add_name 6 ''bob'' (snd (add_name 5 ''ann'' (empty_nameboard ''n'' 1))))) ! 0) = ''bob''"
proof -
  let ?b = "snd (add_name 5 ''ann'' (empty_nameboard ''n'' 1))"
  have inv: "nameboard_inv ?b" by (simp add: add_name_inv)
  have l: "length (nb_view ?b) = unat (nb_max_size ?b)" and f: "fst (add_name 6 ''bob'' ?b) = Some 1"
    by (simp_all add: add_name_def append_entry_def contains_def empty_nameboard_def nb_view_def
        node_at_def Let_def entry_ptr_comparator_def)
  from add_name_position_off_by_one [OF inv l, of 6 "''bob''" 1 "snd (add_name 6 ''bob'' ?b)"] f
  show ?thesis by (simp add: prod_eq_iff entry_of_def)
qed

text \<open>
  The queries of the nameboard read the ranking safely and return the stretch they
  name, from the front or from the back; no query dereferences the end iterator.
\<close>

theorem nameboard_queries:
  "nb_get_all b = Inr (nb_view b) \<and>
   nb_get_from_first n b = Inr (take (unat n) (nb_view b)) \<and>
   nb_get_from_last n b = Inr (take (unat n) (rev (nb_view b))) \<and>
   nb_get_in_range_from_top start end b =
     Inr (take (unat end - unat start) (drop (unat start) (nb_view b))) \<and>
   nb_get_in_range_from_bottom start end b =
     Inr (take (unat end - unat start) (drop (unat start) (rev (nb_view b))))"
  unfolding nb_get_all_def nb_get_from_first_def nb_get_from_last_def
    nb_get_in_range_from_top_def nb_get_in_range_from_bottom_def
  using copy_prefix [of "node_at (nodes b)" "unat n" "nb_ranking b"]
    copy_prefix [of "node_at (nodes b)" "unat n" "rev (nb_ranking b)"]
    copy_stretch [of "node_at (nodes b)" "unat end" "nb_ranking b" "unat start"]
    copy_stretch [of "node_at (nodes b)" "unat end" "rev (nb_ranking b)" "unat start"]
  by (auto simp: nb_view_def rev_map word_less_nat_alt)

section \<open>Saving and loading\<close>

lemma append_saved:
  assumes "nameboard_wf c" "nb_view c = relabel pre" "nb_next_id c = of_nat (length pre)"
    and "ms_sorted entry_comparator (pre @ [e])" "length pre < 2 ^ 64"
  shows "nb_view (append_entry (name e) (timestamp e) c) = relabel (pre @ [e])"
    and "nameboard_wf (append_entry (name e) (timestamp e) c)"
proof -
  have e: "\<lparr>name = name e, timestamp = timestamp e, entry_id = nb_next_id c\<rparr> = e\<lparr>entry_id := of_nat (length pre)\<rparr>"
    using assms(3) by (cases e) simp
  have "pre = [] \<or> \<not> entry_comparator (e\<lparr>entry_id := of_nat (length pre)\<rparr>) (last (relabel pre))"
    using relabelled_entry_not_earlier assms(4,5) by blast
  then show "nb_view (append_entry (name e) (timestamp e) c) = relabel (pre @ [e])"
    using append_entry_view(1) [OF assms(1), of "name e" "timestamp e"] e
      entry_order.insert_snoc_iff [OF nameboard_wfD(5) [OF assms(1)]] assms(2)
    by (auto simp: relabel_snoc)
  show "nameboard_wf (append_entry (name e) (timestamp e) c)"
    by (rule append_entry_view(2) [OF assms(1)])
qed

lemma load_names_saved:
  assumes "json_lib_laws lib" "length (pre @ es) \<le> unat msize"
    "list_all (\<lambda>e. in_int64 (timestamp e)) es" "ms_sorted entry_comparator (pre @ es)"
    "nameboard_wf c" "nb_view c = relabel pre" "nb_next_id c = of_nat (length pre)"
  shows "\<exists>c'. load_names lib msize (map saved_name es) (of_nat (length pre)) c = Some c'
         \<and> nameboard_wf c' \<and> nb_view c' = relabel (pre @ es) \<and> nb_max_size c' = nb_max_size c"
  using assms(2-)
proof (induction es arbitrary: pre c)
  case Nil
  then show ?case by simp
next
  case (Cons e es)
  let ?c = "append_entry (name e) (timestamp e) c"
  have len: "length pre < unat msize" using Cons.prems(1) by simp
  with unat_u64_bound [of msize] have small: "length pre < 2 ^ 64" by simp
  have "ms_sorted entry_comparator (pre @ [e])"
    using Cons.prems(3) by (simp add: ms_sorted_def sorted_wrt_append)
  note app = append_saved [OF Cons.prems(4-6) this small]
  have "load_names lib msize (map saved_name (e # es)) (of_nat (length pre)) c =
      load_names lib msize (map saved_name es) (of_nat (length (pre @ [e]))) ?c"
    using assms(1) Cons.prems(2) item_count_step(3) [OF len]
    by (simp add: json_lib_laws_def saved_name_def add.commute)
  moreover have "\<exists>c'. load_names lib msize (map saved_name es) (of_nat (length (pre @ [e]))) ?c = Some c'
      \<and> nameboard_wf c' \<and> nb_view c' = relabel ((pre @ [e]) @ es) \<and> nb_max_size c' = nb_max_size ?c"
    using Cons.prems app by (intro Cons.IH) simp_all
  ultimately show ?case by simp
qed

text \<open>
  Saving and reloading a nameboard gives it back: if \<open>save\<close> reports success, then a
  nameboard constructed on the resulting file with the same capacity satisfies the
  invariant and lists the same names with the same timestamps in the same order.
\<close>

theorem nameboard_save_load_roundtrip:
  assumes "json_lib_laws lib" and "nameboard_inv b"
    and "list_all (\<lambda>e. in_int64 (timestamp e)) (nb_view b)"
    and "save_names lib io b fs = (True, fs')"
  shows "nameboard_inv (new_nameboard lib fs' (nb_file_path b) (nb_max_size b)) \<and>
    map (\<lambda>e. (name e, timestamp e)) (nb_view (new_nameboard lib fs' (nb_file_path b) (nb_max_size b))) =
    map (\<lambda>e. (name e, timestamp e)) (nb_view b)"
proof -
  have inv: "nameboard_wf b" "length (nb_view b) \<le> unat (nb_max_size b)" "distinct (map name (nb_view b))"
    using assms(2) by (simp_all add: nameboard_inv_def)
  have doc: "map (\<lambda>p. saved_name (node_at (nodes b) p)) (nb_ranking b) = map saved_name (nb_view b)"
    by (simp add: nb_view_def)
  from write_document_outcome(1) [OF assms(4) [unfolded save_names_def doc]] assms(1)
  obtain t where t: "fs' (nb_file_path b) = Some t" "parse lib t = Some (JArray (map saved_name (nb_view b)))"
    by (auto simp: json_lib_laws_def)
  let ?e = "empty_nameboard (nb_file_path b) (nb_max_size b)"
  have e: "?e\<lparr>nodes := [], nb_ranking := [], nb_next_id := 0\<rparr> = ?e" by (simp add: empty_nameboard_def)
  have wf: "nameboard_wf ?e" using empty_nameboard_inv by (simp add: nameboard_inv_def)
  obtain c' where c': "load_names lib (nb_max_size b) (map saved_name (nb_view b)) 0 ?e = Some c'"
    "nameboard_wf c'" "nb_view c' = relabel (nb_view b)" "nb_max_size c' = nb_max_size b"
    using load_names_saved [of lib "[]" "nb_view b" "nb_max_size b" ?e] assms(1,3) inv wf
      nameboard_wfD(5) [OF inv(1)] by auto
  then have "new_nameboard lib fs' (nb_file_path b) (nb_max_size b) = c'"
    using t e by (simp add: new_nameboard_def load_nameboard_def)
  moreover have "length (nb_ranking c') = length (nb_view b)" using arg_cong [OF c'(3), of length] by simp
  moreover have "map name (nb_view c') = map name (nb_view b)" unfolding c'(3) by (rule map_relabel) simp
  moreover have "map (\<lambda>e. (name e, timestamp e)) (nb_view c') = map (\<lambda>e. (name e, timestamp e)) (nb_view b)"
    unfolding c'(3) by (rule map_relabel) simp
  ultimately show ?thesis using c' inv by (simp add: nameboard_inv_def)
qed

lemma nameboard_save_load_roundtrip_witness:
  "map name (nb_view (new_nameboard plain_json_lib
     (snd (save_names plain_json_lib fair_weather (snd (add_name 5 ''ann'' (empty_nameboard ''n'' 3))) Map.empty))
     ''n'' 3)) = [''ann'']"
proof -
  let ?b = "snd (add_name 5 ''ann'' (empty_nameboard ''n'' 3))"
  let ?fs = "snd (save_names plain_json_lib fair_weather ?b Map.empty)"
  have inv: "nameboard_inv ?b" by (simp add: add_name_inv)
  have v: "nb_view ?b = [\<lparr>name = ''ann'', timestamp = 5, entry_id = 0\<rparr>]" "nb_file_path ?b = ''n''" "nb_max_size ?b = 3"
    by (simp_all add: add_name_def append_entry_def contains_def empty_nameboard_def nb_view_def node_at_def Let_def)
  have s: "save_names plain_json_lib fair_weather ?b Map.empty = (True, ?fs)"
    by (simp add: save_names_def write_document_def fair_weather_def plain_json_lib_def Let_def)
  from nameboard_save_load_roundtrip [OF plain_json_lib_laws inv _ s]
  have "map (\<lambda>e. (name e, timestamp e)) (nb_view (new_nameboard plain_json_lib ?fs ''n'' 3)) = [(''ann'', 5)]"
    by (simp add: v in_int64_def)
  from arg_cong [OF this, of "map fst"] show ?thesis by (simp add: o_def)
qed

text \<open>
  A nameboard file can break uniqueness. \<open>load\<close> never compares names, so a file that
  lists a name twice loads successfully into a board that holds the name twice (the
  leaderboard's \<open>load\<close> rejects such a file).
\<close>

theorem nameboard_load_accepts_duplicates:
  assumes "json_lib_laws lib" and "parse lib t = Some (JArray [saved_name e, saved_name e])"
    and "in_int64 (timestamp e)" and "2 \<le> msize"
  shows "map name (nb_view (new_nameboard lib [path \<mapsto> t] path msize)) = [name e, name e]"
proof -
  let ?e = "empty_nameboard path msize"
  have e: "?e\<lparr>nodes := [], nb_ranking := [], nb_next_id := 0\<rparr> = ?e" by (simp add: empty_nameboard_def)
  have le: "\<not> msize < 1" "\<not> msize < 2" using assms(4) order_trans [of 1 2 msize] by (auto simp: not_less)
  have "load_names lib msize [saved_name e, saved_name e] 0 ?e =
      Some (append_entry (name e) (timestamp e) (append_entry (name e) (timestamp e) ?e))"
    using assms(1,3) le by (simp add: json_lib_laws_def saved_name_def)
  then show ?thesis
    using assms(2) e
    by (simp add: new_nameboard_def load_nameboard_def append_entry_def empty_nameboard_def nb_view_def
        node_at_def Let_def entry_ptr_comparator_def)
qed

lemma nameboard_load_accepts_duplicates_witness:
  "map name (nb_view (new_nameboard plain_json_lib
     [''n'' \<mapsto> JArray [saved_name \<lparr>name = ''x'', timestamp = 1, entry_id = 0\<rparr>,
                        saved_name \<lparr>name = ''x'', timestamp = 1, entry_id = 0\<rparr>]] ''n'' 9)) = [''x'', ''x'']"
  using nameboard_load_accepts_duplicates
    [OF plain_json_lib_laws, of _ "\<lparr>name = ''x'', timestamp = 1, entry_id = 0\<rparr>" 9 "''n''"]
  by (simp add: plain_json_lib_def in_int64_def)

section \<open>Loading any file\<close>

text \<open>
  What holds of a nameboard whatever its file was: the invariant but for the uniqueness of names,
  which \<open>load\<close> does not check.
\<close>

definition nameboard_sound :: "nameboard \<Rightarrow> bool" where
  "nameboard_sound b \<longleftrightarrow> nameboard_wf b \<and> length (nb_ranking b) \<le> unat (nb_max_size b)"

lemma nameboard_inv_iff: "nameboard_inv b \<longleftrightarrow> nameboard_sound b \<and> distinct (map name (nb_view b))"
  by (simp add: nameboard_inv_def nameboard_sound_def)

lemma add_name_sound:
  assumes "nameboard_sound b"
  shows "nameboard_sound (snd (add_name now nm b))"
proof -
  have wf: "nameboard_wf b" and le: "length (nb_view b) \<le> unat (nb_max_size b)"
    using assms by (simp_all add: nameboard_sound_def)
  note v = add_name_view [OF wf, of now nm]
  have "length (nb_view (snd (add_name now nm b))) \<le> unat (nb_max_size b)"
    using v(1) le by (auto simp: add_in_order_def Let_def)
  with v(2,3) show ?thesis by (simp add: nameboard_sound_def)
qed

lemma add_name_frame [simp]:
  "nb_file_path (snd (add_name now nm b)) = nb_file_path b"
  "nb_max_size (snd (add_name now nm b)) = nb_max_size b"
  by (simp_all add: add_name_eq Let_def drop_oldest_def)

lemma load_names_ConsE:
  assumes "load_names lib msize (item # items) k c = Some c'"
  obtains (break) "msize < k + 1" "c' = c"
  | (accept) n t where "\<not> msize < k + 1" "Option.bind (json_at item NAMEBOARD_NAME_KEY) (get_string lib) = Some n"
      "load_names lib msize items (k + 1) (append_entry n t c) = Some c'"
  using assms by (auto simp: bind_eq_Some_conv split: if_splits)

lemma load_names_frame:
  "load_names lib msize items k c = Some c' \<Longrightarrow> nb_file_path c' = nb_file_path c \<and> nb_max_size c' = nb_max_size c"
proof (induction items arbitrary: k c)
  case (Cons item items)
  from Cons.prems show ?case by (cases rule: load_names_ConsE) (auto dest: Cons.IH)
qed simp

lemma load_nameboard_frame [simp]:
  "nb_file_path (snd (load_nameboard lib fs b)) = nb_file_path b"
  "nb_max_size (snd (load_nameboard lib fs b)) = nb_max_size b"
  by (auto simp: load_nameboard_def dest!: load_names_frame split: option.splits json.splits)

lemma load_names_sound:
  assumes "load_names lib msize items k c = Some c'"
    and "nameboard_wf c" "unat k = length (nb_ranking c)" "unat k \<le> unat msize" "msize \<noteq> - 1"
  shows "nameboard_wf c' \<and> length (nb_ranking c') \<le> unat msize"
  using assms
proof (induction items arbitrary: k c)
  case (Cons item items)
  from Cons.prems(1) show ?case
  proof (cases rule: load_names_ConsE)
    case (accept n t)
    from item_count_next [OF accept(1) Cons.prems(4,5)] append_entry_view(2) [OF Cons.prems(2), of n t]
      Cons.prems(3,5)
    show ?thesis by (intro Cons.IH [OF accept(3)]) simp_all
  qed (use Cons.prems in simp)
qed simp

text \<open>The names of the items of a document, \<open>None\<close> where \<open>at\<close> or \<open>get\<close> would throw.\<close>

definition item_names :: "('txt, 's) json_lib \<Rightarrow> json list \<Rightarrow> string option list" where
  "item_names lib = map (\<lambda>item. Option.bind (json_at item NAMEBOARD_NAME_KEY) (get_string lib))"

lemma load_names_distinct:
  assumes "load_names lib msize items k c = Some c'" and "nameboard_wf c"
    and "distinct (map (\<lambda>e. Some (name e)) (nb_view c) @ item_names lib items)"
  shows "distinct (map name (nb_view c'))"
  using assms
proof (induction items arbitrary: k c)
  case Nil
  then show ?case by (auto simp: distinct_map inj_on_def)
next
  case (Cons item items)
  from Cons.prems(1) show ?case
  proof (cases rule: load_names_ConsE)
    case break
    with Cons.prems(3) show ?thesis by (auto simp: distinct_map inj_on_def)
  next
    case (accept n t)
    let ?e = "\<lparr>name = n, timestamp = t, entry_id = nb_next_id c\<rparr>"
    note v = append_entry_view(1,2) [OF Cons.prems(2), of n t]
    have "distinct (map (\<lambda>e. Some (name e)) (ms_insert entry_comparator ?e (nb_view c)))"
      using Cons.prems(3) accept(2)
      by (intro distinct_map_ms_insert) (auto simp: item_names_def)
    with Cons.prems(3) accept(2) v show ?thesis
      by (intro Cons.IH [OF accept(3)]) (auto simp: item_names_def image_iff)
  qed
qed

text \<open>A file, or no file, that does not list a name twice.\<close>

definition names_once :: "('txt, 's) json_lib \<Rightarrow> 'txt option \<Rightarrow> bool" where
  "names_once lib content \<longleftrightarrow>
     (\<forall>t items. content = Some t \<longrightarrow> parse lib t = Some (JArray items) \<longrightarrow> distinct (item_names lib items))"

lemma load_nameboard_keeps:
  assumes "nb_max_size b \<noteq> - 1"
  shows "nameboard_sound b \<Longrightarrow> nameboard_sound (snd (load_nameboard lib fs b))"
    and "nameboard_inv b \<Longrightarrow> names_once lib (fs (nb_file_path b)) \<Longrightarrow> nameboard_inv (snd (load_nameboard lib fs b))"
proof -
  let ?e = "b\<lparr>nodes := [], nb_ranking := [], nb_next_id := 0\<rparr>"
  have e: "nameboard_wf ?e" "nb_view ?e = []" by (simp_all add: nameboard_wf_def nb_view_def ms_sorted_def)
  consider (kept) "snd (load_nameboard lib fs b) = b"
    | (loaded) t items b' where "fs (nb_file_path b) = Some t" "parse lib t = Some (JArray items)"
        "load_names lib (nb_max_size b) items 0 ?e = Some b'" "snd (load_nameboard lib fs b) = b'"
    unfolding load_nameboard_def by (fastforce split: option.splits json.splits)
  note cases = this
  show sound: "nameboard_sound (snd (load_nameboard lib fs b))" if "nameboard_sound b"
    using cases
  proof cases
    case loaded
    with load_names_sound [OF loaded(3) e(1)] assms load_names_frame [OF loaded(3)] show ?thesis
      by (simp add: nameboard_sound_def)
  qed (use that in simp)
  show "nameboard_inv (snd (load_nameboard lib fs b))" if "nameboard_inv b" "names_once lib (fs (nb_file_path b))"
    using cases
  proof cases
    case loaded
    with load_names_distinct [OF loaded(3) e(1)] e(2) that sound show ?thesis
      by (simp add: nameboard_inv_iff names_once_def)
  qed (use that in simp)
qed

end
