(* ===== verification/Score_Stream.thy ===== *)
theory Score_Stream
  imports Json_Store
begin

text \<open>
  \<open>src/data_structures/global_boards/score_stream.hpp\<close>: the bounded history of scores,
  newest first. \<open>stream\<close> is the deque \<open>entries\<close>, front first.
\<close>

section \<open>State and operations\<close>

record 's score_stream =
  ss_file_path :: string
  ss_max_size :: size_t
  ss_next_id :: u64
  stream :: "'s score_stream_entry list"

text \<open>\<open>while (entries.size() > max_size) entries.pop_back();\<close>\<close>

function trim_back :: "nat \<Rightarrow> 'a list \<Rightarrow> 'a list" where
  "trim_back cap es = (if cap < length es then trim_back cap (butlast es) else es)"
  by pat_completeness auto
termination
  by (relation "measure (\<lambda>(cap, es). length es)") auto

declare trim_back.simps [simp del]

definition ss_submit_score :: "time_s \<Rightarrow> string \<Rightarrow> 's \<Rightarrow> 's score_stream \<Rightarrow> 's score_stream" where
  "ss_submit_score now nm s b =
     (let e = \<lparr>name = nm, timestamp = now, entry_id = ss_next_id b, stream_score = s\<rparr>
      in b\<lparr>stream := trim_back (unat (ss_max_size b)) (e # stream b)\<rparr>)"

definition ss_get_all :: "'s score_stream \<Rightarrow> 's score_stream_entry list" where
  "ss_get_all b = stream b"

definition ss_get_from_first :: "size_t \<Rightarrow> 's score_stream \<Rightarrow> 's score_stream_entry list" where
  "ss_get_from_first amount b =
     (let all = ss_get_all b in if unat amount < length all then take (unat amount) all else all)"

text \<open>
  A vector built from two iterators of \<open>all\<close>: undefined unless
  \<open>from <= to <= all.size()\<close>.
\<close>

definition sub_vector :: "'a list \<Rightarrow> nat \<Rightarrow> nat \<Rightarrow> 'a list outcome" where
  "sub_vector xs from to =
     (if from \<le> to \<and> to \<le> length xs then Inr (take (to - from) (drop from xs))
      else Inl (Undefined_behaviour ''iterator range outside the vector''))"

definition ss_get_in_range_from_top ::
    "size_t \<Rightarrow> size_t \<Rightarrow> 's score_stream \<Rightarrow> 's score_stream_entry list outcome" where
  "ss_get_in_range_from_top start end b =
     (let all = ss_get_all b in
      if length all \<le> unat start \<or> end \<le> start then Inr []
      else sub_vector all (unat start) (min (unat end) (length all)))"

definition ss_get_in_range_from_bottom ::
    "size_t \<Rightarrow> size_t \<Rightarrow> 's score_stream \<Rightarrow> 's score_stream_entry list outcome" where
  "ss_get_in_range_from_bottom start end b =
     (let all = ss_get_all b in
      if length all \<le> unat start \<or> end \<le> start then Inr []
      else let end' = min (unat end) (length all);
               bottom_start = length all - end';
               bottom_end = length all - unat start
           in sub_vector all bottom_start bottom_end)"

definition stream_size :: "'s score_stream \<Rightarrow> nat" where
  "stream_size b = length (stream b)"

section \<open>Persistence\<close>

definition SCORE_STREAM_SUBDIRECTORY_NAME :: string where
  "SCORE_STREAM_SUBDIRECTORY_NAME = ''score-streams''"

definition SCORE_STREAM_NAME_KEY :: string where
  [simp]: "SCORE_STREAM_NAME_KEY = ''name''"

definition SCORE_STREAM_SCORE_KEY :: string where
  [simp]: "SCORE_STREAM_SCORE_KEY = ''score''"

definition SCORE_STREAM_TIMESTAMP_KEY :: string where
  [simp]: "SCORE_STREAM_TIMESTAMP_KEY = ''timestamp''"

definition saved_score :: "('txt, 's) json_lib \<Rightarrow> 's score_stream_entry \<Rightarrow> json" where
  "saved_score lib e = JObject
     [(SCORE_STREAM_NAME_KEY, JString (name e)), (SCORE_STREAM_SCORE_KEY, put_score lib (stream_score e)),
      (SCORE_STREAM_TIMESTAMP_KEY, JInt (timestamp e))]"

definition save_stream ::
    "('txt, 's) json_lib \<Rightarrow> 'txt io_outcomes \<Rightarrow> 's score_stream \<Rightarrow> 'txt file_system \<Rightarrow>
     bool \<times> 'txt file_system" where
  "save_stream lib io b fs =
     write_document lib io (ss_file_path b) (JArray (map (saved_score lib) (rev (ss_get_all b)))) fs"

fun load_scores ::
    "('txt, 's) json_lib \<Rightarrow> size_t \<Rightarrow> json list \<Rightarrow> size_t \<Rightarrow> 's score_stream_entry list \<Rightarrow> u64 \<Rightarrow>
     ('s score_stream_entry list \<times> u64) option" where
  "load_scores lib msize [] item_count new_entries new_next_id = Some (new_entries, new_next_id)"
| "load_scores lib msize (item # items) item_count new_entries new_next_id =
     (if item_count + 1 > msize then Some (new_entries, new_next_id)
      else if \<not> is_object item then None
      else
        Option.bind (Option.bind (json_at item SCORE_STREAM_NAME_KEY) (get_string lib)) (\<lambda>n.
        Option.bind (Option.bind (json_at item SCORE_STREAM_SCORE_KEY) (get_score lib)) (\<lambda>s.
        Option.bind (Option.bind (json_at item SCORE_STREAM_TIMESTAMP_KEY) (get_int64 lib)) (\<lambda>t.
        load_scores lib msize items (item_count + 1)
          (\<lparr>name = n, timestamp = t, entry_id = new_next_id, stream_score = s\<rparr> # new_entries)
          (new_next_id + 1)))))"

definition load_stream :: "('txt, 's) json_lib \<Rightarrow> 'txt file_system \<Rightarrow> 's score_stream \<Rightarrow> bool \<times> 's score_stream" where
  "load_stream lib fs b =
     (case fs (ss_file_path b) of
        None \<Rightarrow> (False, b)
      | Some text \<Rightarrow>
          (case parse lib text of
             Some (JArray items) \<Rightarrow>
               (case load_scores lib (ss_max_size b) items 0 [] 0 of
                  None \<Rightarrow> (False, b)
                | Some (es, i) \<Rightarrow> (True, b\<lparr>stream := es, ss_next_id := i\<rparr>))
           | _ \<Rightarrow> (False, b)))"

definition empty_stream :: "string \<Rightarrow> size_t \<Rightarrow> 's score_stream" where
  "empty_stream path msize = \<lparr>ss_file_path = path, ss_max_size = msize, ss_next_id = 0, stream = []\<rparr>"

definition new_score_stream ::
    "('txt, 's) json_lib \<Rightarrow> 'txt file_system \<Rightarrow> string \<Rightarrow> size_t \<Rightarrow> 's score_stream" where
  "new_score_stream lib fs path msize = snd (load_stream lib fs (empty_stream path msize))"

definition DEFAULT_MAX_SCORE_STREAM_SIZE :: size_t where
  "DEFAULT_MAX_SCORE_STREAM_SIZE = 300"

section \<open>Lemmas\<close>

lemma trim_back_take: "trim_back cap es = take cap es"
proof (induction cap es rule: trim_back.induct)
  case (1 cap es)
  then show ?case
    by (subst trim_back.simps) (auto simp: butlast_conv_take min_def)
qed

text \<open>A history of submissions, oldest first.\<close>

fun ss_submit_all :: "(time_s \<times> string \<times> 's) list \<Rightarrow> 's score_stream \<Rightarrow> 's score_stream" where
  "ss_submit_all [] b = b"
| "ss_submit_all ((now, nm, s) # es) b = ss_submit_all es (ss_submit_score now nm s b)"

lemma ss_submit_simps [simp]:
  "ss_next_id (ss_submit_score now nm s b) = ss_next_id b"
  "ss_max_size (ss_submit_score now nm s b) = ss_max_size b"
  "stream (ss_submit_score now nm s b) =
     take (unat (ss_max_size b)) (\<lparr>name = nm, timestamp = now, entry_id = ss_next_id b, stream_score = s\<rparr> # stream b)"
  by (simp_all add: ss_submit_score_def Let_def trim_back_take)

lemma take_rev_step: "take k (rev xs @ take k (y # ys)) = take k (rev xs @ y # ys)"
  by (cases "k \<le> length xs") (simp_all add: take_Cons' min_def)

text \<open>The ids are given by file order: the oldest score gets 0.\<close>

lemma load_scores_saved:
  assumes "json_lib_laws lib" "list_all (\<lambda>e. in_int64 (timestamp e)) es"
    "length pre = n" "n \<le> unat msize" and msize: "msize \<noteq> - 1"
  shows "\<exists>es' i. load_scores lib msize (map (saved_score lib) es) (of_nat n) pre i0 = Some (es', i) \<and>
    map (\<lambda>e. (name e, stream_score e, timestamp e)) es' =
    map (\<lambda>e. (name e, stream_score e, timestamp e)) (rev (take (unat msize - n) es) @ pre)"
  using assms(2-4)
proof (induction es arbitrary: pre n i0)
  case Nil
  then show ?case by simp
next
  case (Cons e es)
  show ?case
  proof (cases "n < unat msize")
    case True
    let ?e = "\<lparr>name = name e, timestamp = timestamp e, entry_id = i0, stream_score = stream_score e\<rparr>"
    from Cons.prems True have
      "\<exists>es' i. load_scores lib msize (map (saved_score lib) es) (of_nat (Suc n)) (?e # pre) (i0 + 1) = Some (es', i) \<and>
        map (\<lambda>e. (name e, stream_score e, timestamp e)) es' =
        map (\<lambda>e. (name e, stream_score e, timestamp e)) (rev (take (unat msize - Suc n) es) @ ?e # pre)"
      by (intro Cons.IH) simp_all
    moreover have "load_scores lib msize (map (saved_score lib) (e # es)) (of_nat n) pre i0 =
        load_scores lib msize (map (saved_score lib) es) (of_nat (Suc n)) (?e # pre) (i0 + 1)"
      using assms(1) Cons.prems(1) item_count_step(3) [OF True]
      by (simp add: json_lib_laws_def saved_score_def add.commute)
    ultimately show ?thesis using True by (simp add: take_Cons' Suc_diff_Suc)
  next
    case False
    with Cons.prems have n: "n = unat msize" by simp
    with item_count_break [OF msize] show ?thesis by simp
  qed
qed

abbreviation stream_record :: "'s score_stream_entry \<Rightarrow> string \<times> 's \<times> time_s" where
  "stream_record e \<equiv> (name e, stream_score e, timestamp e)"

lemma saved_stream_loads:
  assumes "json_lib_laws lib" "list_all (\<lambda>e. in_int64 (timestamp e)) (stream b)"
    "save_stream lib io b fs = (True, fs')" "msize \<noteq> - 1"
  shows "map stream_record (stream (new_score_stream lib fs' (ss_file_path b) msize)) =
         map stream_record (drop (length (stream b) - unat msize) (stream b))"
proof -
  from write_document_outcome(1) [OF assms(3) [unfolded save_stream_def]] assms(1)
  obtain t where t: "fs' (ss_file_path b) = Some t"
    "parse lib t = Some (JArray (map (saved_score lib) (rev (stream b))))"
    by (auto simp: json_lib_laws_def ss_get_all_def)
  have "list_all (\<lambda>e. in_int64 (timestamp e)) (rev (stream b))" using assms(2) by (simp add: list_all_iff)
  from load_scores_saved [OF assms(1) this, of "[]" 0 msize 0] assms(4)
  obtain es i where "load_scores lib msize (map (saved_score lib) (rev (stream b))) 0 [] 0 = Some (es, i)"
    "map stream_record es = map stream_record (rev (take (unat msize) (rev (stream b))))"
    by auto
  with t show ?thesis
    by (simp add: new_score_stream_def load_stream_def empty_stream_def take_rev)
qed

lemma stream_contents:
  "map stream_record (stream (ss_submit_all hs (empty_stream path msize))) =
   take (unat msize) (rev (map (\<lambda>(now, nm, s). (nm, s, now)) hs))"
proof -
  have "length (stream b) \<le> unat (ss_max_size b) \<Longrightarrow>
    map stream_record (stream (ss_submit_all hs b)) =
    take (unat (ss_max_size b)) (rev (map (\<lambda>(now, nm, s). (nm, s, now)) hs) @ map stream_record (stream b))"
    for b :: "'a score_stream"
  proof (induction hs arbitrary: b)
    case (Cons h hs)
    obtain now nm s where h: "h = (now, nm, s)" by (cases h)
    have "map stream_record (stream (ss_submit_all (h # hs) b)) =
        take (unat (ss_max_size b)) (rev (map (\<lambda>(now, nm, s). (nm, s, now)) hs) @
          (nm, s, now) # map stream_record (stream b))"
      using Cons.IH [of "ss_submit_score now nm s b"] by (simp add: h flip: take_map)
    then show ?case by (simp add: h del: take_append)
  qed simp
  from this [of "empty_stream path msize"] show ?thesis by (simp add: empty_stream_def)
qed

section \<open>Properties\<close>

text \<open>
  C27: A score stream holds exactly the latest submissions, newest first: after any history
  of submissions to an empty stream its contents are the last \<open>max_size\<close> of them in
  reverse order of submission, each with its name, score and clock reading.
\<close>

theorem stream_holds_latest:
  "map stream_record (stream (ss_submit_all hs (empty_stream path msize))) =
   take (unat msize) (rev (map (\<lambda>(now, nm, s). (nm, s, now)) hs))"
  by (rule stream_contents)

text \<open>
  The ids of a score stream do not identify its entries: \<open>submit_score\<close> stores
  \<open>next_id\<close> without incrementing it, so on a fresh stream every submitted entry gets
  the id 0.
\<close>

theorem stream_ids_collide:
  "map entry_id (stream (ss_submit_all hs (empty_stream path msize))) =
   replicate (min (length hs) (unat msize)) 0"
proof -
  have ids: "ss_next_id b = 0 \<Longrightarrow> set (map entry_id (stream b)) \<subseteq> {0} \<Longrightarrow>
      set (map entry_id (stream (ss_submit_all hs b))) \<subseteq> {0}" for b :: "'a score_stream"
  proof (induction hs arbitrary: b)
    case (Cons h hs)
    obtain now nm s where h: "h = (now, nm, s)" by (cases h)
    have "set (map entry_id (stream (ss_submit_score now nm s b))) \<subseteq> {0}"
      using Cons.prems set_take_subset [of "unat (ss_max_size b)"] by fastforce
    with Cons.IH [of "ss_submit_score now nm s b"] Cons.prems show ?case by (simp add: h)
  qed simp
  have "length (stream (ss_submit_all hs (empty_stream path msize))) = min (length hs) (unat msize)"
    using arg_cong [OF stream_contents [of hs path msize], of length] by simp
  moreover have "set (map entry_id (stream (ss_submit_all hs (empty_stream path msize)))) \<subseteq> {0}"
    by (rule ids) (simp_all add: empty_stream_def)
  ultimately show ?thesis by (metis length_map replicate_eqI singletonD subsetD)
qed

text \<open>
  The queries of the stream stay inside the vector they read and return the stretch
  they name: \<open>get_from_first\<close> the newest entries, the range from the top by index from
  the newest, the range from the bottom the entries whose index from the oldest lies in the
  half-open range, still listed newest first.
\<close>

theorem stream_queries:
  "ss_get_from_first n b = take (unat n) (stream b) \<and>
   ss_get_in_range_from_top start end b =
     Inr (take (unat end - unat start) (drop (unat start) (stream b))) \<and>
   ss_get_in_range_from_bottom start end b =
     Inr (rev (take (unat end - unat start) (drop (unat start) (rev (stream b)))))"
proof -
  let ?n = "length (stream b)"
  have "ss_get_in_range_from_top start end b =
      Inr (take (unat end - unat start) (drop (unat start) (stream b)))"
    by (auto simp: ss_get_in_range_from_top_def sub_vector_def ss_get_all_def Let_def word_le_nat_alt min_def)
  moreover have "ss_get_in_range_from_bottom start end b =
      Inr (rev (take (unat end - unat start) (drop (unat start) (rev (stream b)))))"
  proof (cases "?n \<le> unat start \<or> end \<le> start")
    case True
    then show ?thesis by (auto simp: ss_get_in_range_from_bottom_def ss_get_all_def word_le_nat_alt)
  next
    case False
    then have "take (unat end - unat start) (drop (unat start) (rev (stream b))) =
        rev (drop (?n - min (unat end) ?n) (take (?n - unat start) (stream b)))"
      by (cases "unat start = 0") (auto simp: drop_rev take_rev word_le_nat_alt min_def)
    moreover have "?n - min (unat end) ?n \<le> ?n - unat start"
      using False by (auto simp: word_le_nat_alt)
    ultimately show ?thesis using False
      by (simp add: ss_get_in_range_from_bottom_def sub_vector_def ss_get_all_def Let_def
          word_le_nat_alt drop_take)
  qed
  ultimately show ?thesis by (simp add: ss_get_from_first_def ss_get_all_def Let_def)
qed

text \<open>
  Saving and reloading a score stream gives it back: if \<open>save\<close> reports success, a
  stream constructed on the resulting file with the same capacity holds the same names,
  scores and timestamps in the same order.
\<close>

theorem stream_save_load_roundtrip:
  assumes "json_lib_laws lib" and "list_all (\<lambda>e. in_int64 (timestamp e)) (stream b)"
    and "length (stream b) \<le> unat (ss_max_size b)" and "ss_max_size b \<noteq> - 1"
    and "save_stream lib io b fs = (True, fs')"
  shows "map stream_record (stream (new_score_stream lib fs' (ss_file_path b) (ss_max_size b))) =
         map stream_record (stream b)"
  using saved_stream_loads [OF assms(1,2,5,4)] assms(3) by simp

definition three_scores :: "int score_stream" where
  "three_scores = ss_submit_all [(1, ''a'', 10), (2, ''b'', 20), (3, ''c'', 30)] (empty_stream ''s'' 5)"

lemma three_scores_simps:
  "stream three_scores =
     [\<lparr>name = ''c'', timestamp = 3, entry_id = 0, stream_score = 30\<rparr>,
      \<lparr>name = ''b'', timestamp = 2, entry_id = 0, stream_score = 20\<rparr>,
      \<lparr>name = ''a'', timestamp = 1, entry_id = 0, stream_score = 10\<rparr>]"
  "ss_max_size three_scores = 5" "ss_file_path three_scores = ''s''"
  by (simp_all add: three_scores_def empty_stream_def ss_submit_score_def trim_back_take)

lemma three_scores_saved:
  "save_stream plain_json_lib fair_weather three_scores Map.empty =
     (True, snd (save_stream plain_json_lib fair_weather three_scores Map.empty))"
  by (simp add: save_stream_def write_document_def fair_weather_def plain_json_lib_def Let_def)

lemma stream_save_load_roundtrip_witness:
  "map stream_record (stream (new_score_stream plain_json_lib
     (snd (save_stream plain_json_lib fair_weather three_scores Map.empty)) ''s'' 5)) =
   [(''c'', 30, 3), (''b'', 20, 2), (''a'', 10, 1)]"
  using stream_save_load_roundtrip [OF plain_json_lib_laws _ _ _ three_scores_saved]
  by (simp add: three_scores_simps in_int64_def)

text \<open>
  Loading a longer file keeps the wrong end. A stream constructed with a capacity
  smaller than the saved history reads the file from its oldest item and stops at the
  capacity: it holds the oldest scores, while the running stream evicts exactly those.
\<close>

theorem stream_load_keeps_oldest:
  assumes "json_lib_laws lib" and "list_all (\<lambda>e. in_int64 (timestamp e)) (stream b)"
    and "save_stream lib io b fs = (True, fs')" and "unat msize < length (stream b)" and "msize \<noteq> - 1"
  shows "map stream_record (stream (new_score_stream lib fs' (ss_file_path b) msize)) =
         map stream_record (drop (length (stream b) - unat msize) (stream b))"
  using saved_stream_loads [OF assms(1-3,5)] by simp

lemma stream_load_keeps_oldest_witness:
  "map stream_record (stream (new_score_stream plain_json_lib
     (snd (save_stream plain_json_lib fair_weather three_scores Map.empty)) ''s'' 1)) = [(''a'', 10, 1)]"
  using stream_load_keeps_oldest [OF plain_json_lib_laws _ three_scores_saved, of 1]
  by (simp add: three_scores_simps in_int64_def)


section \<open>Loading any file\<close>

lemma ss_submit_path [simp]: "ss_file_path (ss_submit_score now nm s b) = ss_file_path b"
  by (simp add: ss_submit_score_def Let_def)

lemma load_stream_frame [simp]:
  "ss_file_path (snd (load_stream lib fs b)) = ss_file_path b"
  "ss_max_size (snd (load_stream lib fs b)) = ss_max_size b"
  by (auto simp: load_stream_def split: option.splits json.splits)

lemma load_scores_length:
  assumes "load_scores lib msize items k es i = Some (es', i')"
    and "unat k = length es" "unat k \<le> unat msize" "msize \<noteq> - 1"
  shows "length es' \<le> unat msize"
  using assms
proof (induction items arbitrary: k es i)
  case (Cons item items)
  show ?case
  proof (cases "msize < k + 1")
    case False
    with Cons.prems(1) obtain e where
      e: "load_scores lib msize items (k + 1) (e # es) (i + 1) = Some (es', i')"
      by (auto simp: bind_eq_Some_conv split: if_splits)
    from item_count_next [OF False Cons.prems(3,4)] Cons.prems(2,4) show ?thesis
      by (intro Cons.IH [OF e]) simp_all
  qed (use Cons.prems in simp)
qed simp

lemma load_stream_bounded:
  assumes "length (stream b) \<le> unat (ss_max_size b)" "ss_max_size b \<noteq> - 1"
  shows "length (stream (snd (load_stream lib fs b))) \<le> unat (ss_max_size b)"
  using assms load_scores_length [of lib "ss_max_size b" _ 0 "[]" 0]
  by (auto simp: load_stream_def split: option.splits json.splits)

end
