(* ===== verification/Board_History.thy ===== *)
theory Board_History
  imports Saved_Board Leaderboard Nameboard Score_Stream
begin

text \<open>
  The life of the three boards and their files: a leaderboard, nameboard or score stream as its
  constructor leaves it, and then any sequence of the calls an application makes, submissions,
  saves and loads, with whatever the operating system answers, and with other programs changing
  the file in between where the property allows it. Each board interprets the locales of
  \<open>Saved_Board\<close>.
\<close>

section \<open>The three board classes\<close>

text \<open>The documents that the \<open>save\<close> members build.\<close>

definition board_document :: "('txt, 's) json_lib \<Rightarrow> 's leaderboard \<Rightarrow> json" where
  "board_document lib b = JArray (map (\<lambda>p. saved_item lib (deref (entries b) p)) (ranking b))"

definition names_document :: "nameboard \<Rightarrow> json" where
  "names_document b = JArray (map (\<lambda>p. saved_name (node_at (nodes b) p)) (nb_ranking b))"

definition stream_document :: "('txt, 's) json_lib \<Rightarrow> 's score_stream \<Rightarrow> json" where
  "stream_document lib b = JArray (map (saved_score lib) (rev (ss_get_all b)))"

text \<open>
  The argument of a call to the leaderboard: the clock reading, what the uninitialised members of
  the candidate hold, the player and the score.
\<close>

definition leaderboard_class ::
    "('txt, 's::linorder) json_lib \<Rightarrow>
     ('txt, 's leaderboard, time_s \<times> (time_s \<times> u64) \<times> string \<times> 's) board_class" where
  "leaderboard_class lib =
     \<lparr>call = (\<lambda>(now, junk, player, s) b. map_sum id snd (submit_score now junk player s b)),
      save_to = save lib, document = board_document lib, load_from = load lib\<rparr>"

definition nameboard_class :: "('txt, 's) json_lib \<Rightarrow> ('txt, nameboard, time_s \<times> string) board_class" where
  "nameboard_class lib =
     \<lparr>call = (\<lambda>(now, nm) b. Inr (snd (add_name now nm b))),
      save_to = save_names lib, document = names_document, load_from = load_nameboard lib\<rparr>"

definition stream_class ::
    "('txt, 's) json_lib \<Rightarrow> ('txt, 's score_stream, time_s \<times> string \<times> 's) board_class" where
  "stream_class lib =
     \<lparr>call = (\<lambda>(now, nm, s) b. Inr (ss_submit_score now nm s b)),
      save_to = save_stream lib, document = stream_document lib, load_from = load_stream lib\<rparr>"

lemmas board_class_defs = leaderboard_class_def nameboard_class_def stream_class_def

section \<open>Leaderboards\<close>

lemma new_leaderboard_load:
  "new_leaderboard lib fs path msize hf = snd (load_from (leaderboard_class lib) fs (empty_board msize hf path))"
  by (simp add: new_leaderboard_def empty_board_def leaderboard_class_def)

lemma load_inv:
  assumes "board_inv b" "max_board_size b \<noteq> - 1"
  shows "board_inv (snd (load lib fs b))"
proof -
  obtain ok b' where l: "load lib fs b = (ok, b')" by fastforce
  from load_outcome [OF l assms(2)] assms(1) l show ?thesis by (cases ok) simp_all
qed

text \<open>A board of a given usable capacity that satisfies its invariant.\<close>

definition board_ok :: "size_t \<Rightarrow> ('s::linorder) leaderboard \<Rightarrow> bool" where
  "board_ok msize b \<longleftrightarrow> board_inv b \<and> max_board_size b = msize \<and> msize \<noteq> 0 \<and> msize \<noteq> - 1"

interpretation lbf: board_file "leaderboard_class lib" lib file_path
  for lib :: "('txt, 's::linorder) json_lib"
  by unfold_locales
    (auto simp: leaderboard_class_def save_def board_document_def map_sum_def submit_score_frame
      split: sum.splits)

interpretation lb: board_life "leaderboard_class lib" lib file_path "board_ok msize" "\<lambda>_. True"
  for lib :: "('txt, 's::linorder) json_lib" and msize
proof unfold_locales
  fix b :: "'s leaderboard" and c :: "time_s \<times> (time_s \<times> u64) \<times> string \<times> 's"
  assume ok: "board_ok msize b"
  obtain now junk player s where c: "c = (now, junk, player, s)" by (cases c)
  from ok have "board_inv b" "max_board_size b \<noteq> 0" by (auto simp: board_ok_def)
  then obtain r b' where "submit_score now junk player s b = Inr (r, b')" "board_inv b'"
      "max_board_size b' = max_board_size b"
    by (rule submit_score_inv)
  then show "\<exists>b'. call (leaderboard_class lib) c b = Inr b' \<and> board_ok msize b'"
    using ok by (simp add: leaderboard_class_def c board_ok_def)
qed (auto simp: leaderboard_class_def board_ok_def load_inv)

section \<open>Nameboards and score streams\<close>

lemma new_nameboard_load:
  "new_nameboard lib fs path msize = snd (load_from (nameboard_class lib) fs (empty_nameboard path msize))"
  by (simp add: new_nameboard_def nameboard_class_def)

lemma new_score_stream_load:
  "new_score_stream lib fs path msize = snd (load_from (stream_class lib) fs (empty_stream path msize))"
  by (simp add: new_score_stream_def stream_class_def)

interpretation nbf: board_file "nameboard_class lib" lib nb_file_path
  for lib :: "('txt, 's) json_lib"
  by unfold_locales (auto simp: nameboard_class_def save_names_def names_document_def)

interpretation nb: board_life "nameboard_class lib" lib nb_file_path
    "\<lambda>b. nameboard_sound b \<and> nb_max_size b = msize \<and> msize \<noteq> - 1" "\<lambda>_. True"
  for lib :: "('txt, 's) json_lib" and msize
  by unfold_locales (auto simp: nameboard_class_def add_name_sound load_nameboard_keeps(1))

interpretation ssf: board_file "stream_class lib" lib ss_file_path
  for lib :: "('txt, 's) json_lib"
  by unfold_locales (auto simp: stream_class_def save_stream_def stream_document_def)

interpretation ss: board_life "stream_class lib" lib ss_file_path
    "\<lambda>b. length (stream b) \<le> unat (ss_max_size b) \<and> ss_max_size b = msize \<and> msize \<noteq> - 1" "\<lambda>_. True"
  for lib :: "('txt, 's) json_lib" and msize
  by unfold_locales (auto simp: stream_class_def load_stream_bounded)

text \<open>
  A nameboard whose file is never given a name twice by anyone else keeps its names unique: the
  documents it saves itself list each name once.
\<close>

lemma names_document_once:
  assumes "json_lib_laws lib" "nameboard_inv b" "dump lib (names_document b) = Some t"
  shows "names_once lib (Some t)"
proof -
  have "item_names lib (map (\<lambda>p. saved_name (node_at (nodes b) p)) (nb_ranking b)) =
      map Some (map name (nb_view b))"
    using assms(1) by (simp add: item_names_def nb_view_def saved_name_def json_lib_laws_def)
  moreover have "distinct (map Some (map name (nb_view b)))"
    using assms(2) by (simp only: nameboard_inv_def distinct_map) (simp add: inj_on_def)
  moreover have "parse lib t = Some (names_document b)" using assms(1,3) by (simp add: json_lib_laws_def)
  ultimately show ?thesis by (simp add: names_once_def names_document_def)
qed

lemma nameboard_unique_life:
  assumes "json_lib_laws lib"
  shows "board_life (nameboard_class lib) lib nb_file_path
    (\<lambda>b. nameboard_inv b \<and> nb_max_size b = msize \<and> msize \<noteq> - 1) (names_once lib)"
  by unfold_locales
    (auto simp: nameboard_class_def add_name_inv load_nameboard_keeps(2) intro: names_document_once [OF assms])

section \<open>Properties\<close>

lemma leaderboard_life:
  assumes "msize \<noteq> 0" "msize \<noteq> - 1"
  shows "\<exists>w. board_steps (leaderboard_class lib) cs (opened (new_leaderboard lib fs path msize hf) fs) = Inr w \<and>
    board_ok msize (board w) \<and> file_path (board w) = path"
  unfolding new_leaderboard_load
  by (rule lb.life) (use assms in \<open>simp_all add: board_ok_def list_all_iff all_foreign_ok\<close>)

lemma nameboard_life:
  assumes "msize \<noteq> - 1"
  shows "\<exists>w. board_steps (nameboard_class lib) cs (opened (new_nameboard lib fs path msize) fs) = Inr w \<and>
    (nameboard_sound (board w) \<and> nb_max_size (board w) = msize \<and> msize \<noteq> - 1) \<and> nb_file_path (board w) = path"
  unfolding new_nameboard_load
  by (rule nb.life)
    (use assms empty_nameboard_inv [of path msize] in
      \<open>simp_all add: nameboard_inv_iff list_all_iff all_foreign_ok\<close>)

lemma stream_life:
  assumes "msize \<noteq> - 1"
  shows "\<exists>w. board_steps (stream_class lib) cs (opened (new_score_stream lib fs path msize) fs) = Inr w \<and>
    (length (stream (board w)) \<le> unat (ss_max_size (board w)) \<and> ss_max_size (board w) = msize \<and> msize \<noteq> - 1) \<and>
    ss_file_path (board w) = path"
  unfolding new_score_stream_load
  by (rule ss.life) (use assms in \<open>simp_all add: empty_stream_def list_all_iff all_foreign_ok\<close>)

text \<open>
  C16: The three boards are well formed all their lives, if constructed with a capacity other than
  \<open>SIZE_MAX\<close> and, for a leaderboard, other than 0 (\<open>zero_capacity_undefined\<close> shows what happens
  there). From its constructor, on whatever file there is, after any sequence of submissions,
  saves, loads and foreign changes to its file, no call on a board has run into undefined
  behaviour, and its capacity and path are those it was constructed with. A leaderboard ranks each of its
  players once, sorted by its comparator, with owned entries and ranked pointers in agreement,
  within its capacity, and a query for the top scores returns the first entries of that ranking.
  A nameboard's list nodes and ranked pointers agree, it is sorted by time and within its
  capacity, and \<open>get_all\<close> returns it in that order. A score stream is within its capacity.
\<close>

theorem boards_always_well_formed:
  assumes "msize \<noteq> - 1"
  shows "(msize \<noteq> 0 \<longrightarrow> (\<exists>w. board_steps (leaderboard_class lib) cs (opened (new_leaderboard lib fs path msize hf) fs) = Inr w \<and>
      board_inv (board w) \<and> max_board_size (board w) = msize \<and> file_path (board w) = path \<and>
      get_top_scores n (board w) = Inr (take (unat n) (view (board w))))) \<and>
    (\<exists>w. board_steps (nameboard_class lib) ncs (opened (new_nameboard lib fs path msize) fs) = Inr w \<and>
      nameboard_sound (board w) \<and> nb_max_size (board w) = msize \<and> nb_file_path (board w) = path \<and>
      nb_get_all (board w) = Inr (nb_view (board w))) \<and>
    (\<exists>w. board_steps (stream_class lib) scs (opened (new_score_stream lib fs path msize) fs) = Inr w \<and>
      length (stream (board w)) \<le> unat msize \<and> ss_max_size (board w) = msize \<and> ss_file_path (board w) = path)"
proof (intro conjI impI)
  show "\<exists>w. board_steps (leaderboard_class lib) cs (opened (new_leaderboard lib fs path msize hf) fs) = Inr w \<and>
      board_inv (board w) \<and> max_board_size (board w) = msize \<and> file_path (board w) = path \<and>
      get_top_scores n (board w) = Inr (take (unat n) (view (board w)))" if "msize \<noteq> 0"
    using leaderboard_life [OF that assms, of lib cs fs path hf] leaderboard_queries by (fastforce simp: board_ok_def)
  show "\<exists>w. board_steps (nameboard_class lib) ncs (opened (new_nameboard lib fs path msize) fs) = Inr w \<and>
      nameboard_sound (board w) \<and> nb_max_size (board w) = msize \<and> nb_file_path (board w) = path \<and>
      nb_get_all (board w) = Inr (nb_view (board w))"
    using nameboard_life [OF assms, of lib ncs fs path] nameboard_queries by blast
  show "\<exists>w. board_steps (stream_class lib) scs (opened (new_score_stream lib fs path msize) fs) = Inr w \<and>
      length (stream (board w)) \<le> unat msize \<and> ss_max_size (board w) = msize \<and> ss_file_path (board w) = path"
    using stream_life [OF assms, of lib scs fs path] by auto
qed

lemma boards_always_well_formed_witness:
  "\<exists>w. board_steps (leaderboard_class plain_json_lib)
       [Change (3, (0, 0), ''ann'', 5 :: int), Save fair_weather, Load]
       (opened (new_leaderboard plain_json_lib Map.empty ''f'' 2 True) Map.empty) = Inr w \<and> board_inv (board w)"
  using boards_always_well_formed [of 2 plain_json_lib
      "[Change (3, (0, 0), ''ann'', 5 :: int), Save fair_weather, Load]" Map.empty "''f''" True 0 "[]" "[]"]
  by auto

text \<open>
  C17: The files of the boards are never torn: as long as no other program writes to a board's
  file, after any sequence of submissions, saves (whatever the operating system lets fail in
  them) and loads the file holds what it held at the start if no save has succeeded, and
  otherwise the complete document of the board at the last successful save. This holds for
  leaderboards, nameboards and score streams.
\<close>

theorem board_files_are_last_saves:
  "(board_steps (leaderboard_class lib) cs (opened (new_leaderboard lib fs path msize hf) fs) = Inr w \<and>
      list_all (\<lambda>c. \<not> foreign c) cs \<longrightarrow> file_is_last_save lib fs path w) \<and>
   (board_steps (nameboard_class lib) ncs (opened (new_nameboard lib fs path msize) fs) = Inr nw \<and>
      list_all (\<lambda>c. \<not> foreign c) ncs \<longrightarrow> file_is_last_save lib fs path nw) \<and>
   (board_steps (stream_class lib) scs (opened (new_score_stream lib fs path msize) fs) = Inr sw \<and>
      list_all (\<lambda>c. \<not> foreign c) scs \<longrightarrow> file_is_last_save lib fs path sw)"
  using lbf.opened_last_save [of lib cs "new_leaderboard lib fs path msize hf" fs w]
    nbf.opened_last_save [of lib ncs "new_nameboard lib fs path msize" fs nw]
    ssf.opened_last_save [of lib scs "new_score_stream lib fs path msize" fs sw]
  by (simp add: new_leaderboard_load new_nameboard_load new_score_stream_load
      lbf.load_path nbf.load_path ssf.load_path empty_stream_def)

lemma board_files_are_last_saves_witness:
  "\<exists>w nw sw. board_steps (leaderboard_class plain_json_lib) [Change (3, (0, 0), ''ann'', 5 :: int), Save fair_weather]
       (opened (new_leaderboard plain_json_lib Map.empty ''f'' 2 True) Map.empty) = Inr w \<and>
     disk w ''f'' = Some (JArray [JObject [(''name'', JString ''ann''), (''score'', JInt 5), (''timestamp'', JInt 3)]]) \<and>
     board_steps (nameboard_class plain_json_lib) [Change (3, ''ann''), Save fair_weather]
       (opened (new_nameboard plain_json_lib Map.empty ''f'' 2) Map.empty) = Inr nw \<and>
     disk nw ''f'' = Some (JArray [JObject [(''name'', JString ''ann''), (''timestamp'', JInt 3)]]) \<and>
     board_steps (stream_class plain_json_lib) [Change (3, ''ann'', 5 :: int), Save (fair_weather\<lparr>rename_ok := False\<rparr>)]
       (opened (new_score_stream plain_json_lib Map.empty ''f'' 2) Map.empty) = Inr sw \<and>
     disk sw ''f'' = None"
proof -
  let ?lib = plain_json_lib
  let ?cs = "[Change (3, (0, 0), ''ann'', 5 :: int), Save fair_weather]"
    and ?ncs = "[Change (3, ''ann''), Save fair_weather]"
    and ?scs = "[Change (3, ''ann'', 5 :: int), Save (fair_weather\<lparr>rename_ok := False\<rparr>)]"
  have "\<exists>w. board_steps (leaderboard_class ?lib) ?cs (opened (new_leaderboard ?lib Map.empty ''f'' 2 True) Map.empty) = Inr w
      \<and> last_saved w = Some (JArray [JObject [(''name'', JString ''ann''), (''score'', JInt 5), (''timestamp'', JInt 3)]])"
    by (simp add: opened_def new_leaderboard_def load_def leaderboard_class_def submit_score_def add_player_def
        Let_def save_def write_document_def fair_weather_def plain_json_lib_def board_document_def saved_item_def
        deref_def)
  then obtain w where w: "board_steps (leaderboard_class ?lib) ?cs
      (opened (new_leaderboard ?lib Map.empty ''f'' 2 True) Map.empty) = Inr w"
    "last_saved w = Some (JArray [JObject [(''name'', JString ''ann''), (''score'', JInt 5), (''timestamp'', JInt 3)]])"
    by blast
  have "\<exists>nw. board_steps (nameboard_class ?lib) ?ncs (opened (new_nameboard ?lib Map.empty ''f'' 2) Map.empty) = Inr nw
      \<and> last_saved nw = Some (JArray [JObject [(''name'', JString ''ann''), (''timestamp'', JInt 3)]])"
    by (simp add: opened_def new_nameboard_def load_nameboard_def nameboard_class_def empty_nameboard_def add_name_def
        append_entry_def contains_def node_at_def Let_def save_names_def write_document_def fair_weather_def
        plain_json_lib_def names_document_def saved_name_def)
  then obtain nw where nw: "board_steps (nameboard_class ?lib) ?ncs
      (opened (new_nameboard ?lib Map.empty ''f'' 2) Map.empty) = Inr nw"
    "last_saved nw = Some (JArray [JObject [(''name'', JString ''ann''), (''timestamp'', JInt 3)]])"
    by blast
  have "\<exists>sw. board_steps (stream_class ?lib) ?scs (opened (new_score_stream ?lib Map.empty ''f'' 2) Map.empty) = Inr sw
      \<and> last_saved sw = None"
    by (simp add: opened_def new_score_stream_def load_stream_def stream_class_def empty_stream_def
        Let_def save_stream_def write_document_def fair_weather_def plain_json_lib_def)
  then obtain sw where sw: "board_steps (stream_class ?lib) ?scs
      (opened (new_score_stream ?lib Map.empty ''f'' 2) Map.empty) = Inr sw" "last_saved sw = None"
    by blast
  from board_files_are_last_saves [of ?lib ?cs Map.empty "''f''" 2 True w ?ncs nw ?scs sw] w nw sw show ?thesis
    by (auto simp: file_is_last_save_def plain_json_lib_def)
qed

text \<open>
  The names of a nameboard stay unique through saves and loads: if the file lists no name twice at
  the start and no other program writes one that does, then after any sequence of calls the board
  satisfies its whole invariant, whatever fails in between. A foreign file is the only way to a
  duplicate.
\<close>

lemma nameboard_names_stay_unique:
  assumes "json_lib_laws lib" "msize \<noteq> - 1" "names_once lib (fs path)"
    and "list_all (foreign_ok (names_once lib) path) cs"
  shows "\<exists>w. board_steps (nameboard_class lib) cs (opened (new_nameboard lib fs path msize) fs) = Inr w \<and>
    nameboard_inv (board w)"
  using board_life.life [OF nameboard_unique_life [OF assms(1), of msize], of "empty_nameboard path msize" path fs cs]
    assms(2-) by (auto simp: new_nameboard_load)

end
