(* ===== verification/Thread_Safe_Map.thy ===== *)
theory Thread_Safe_Map
  imports Prelude "HOL-Library.AList"
begin

text \<open>
  \<open>data_structures/thread_safe/thread_safe_unordered_map.hpp\<close> and \<open>locked_value.hpp\<close>. The
  hash table is an association list without duplicate keys, in whatever order the table
  iterates. Members take \<open>mutex_map\<close> for their whole body, so each is a function on the
  table; the overloads that copy and that move are one definition. The members that return a
  \<open>locked_value\<close> keep the mutex: they are steps of the system at the end of the theory,
  where a \<open>locked_value\<close> is the mutex's owner and the key of the element it points to.
\<close>

section \<open>Members\<close>

type_synonym ('k, 'v) table = "('k \<times> 'v) list"

definition map_insert :: "'k \<Rightarrow> 'v \<Rightarrow> ('k, 'v) table \<Rightarrow> ('k, 'v) table" where
  "map_insert key v m = AList.update key v m"

definition emplace :: "'k \<Rightarrow> 'v \<Rightarrow> ('k, 'v) table \<Rightarrow> bool \<times> ('k, 'v) table" where
  "emplace key v m = (case map_of m key of None \<Rightarrow> (True, AList.update key v m) | Some _ \<Rightarrow> (False, m))"

definition get :: "'k \<Rightarrow> ('k, 'v) table \<Rightarrow> 'v outcome" where
  "get key m = (case map_of m key of
       None \<Rightarrow> Inl (Runtime_error ''Key not found - thread_safe_map'')
     | Some v \<Rightarrow> Inr v)"

text \<open>\<open>try_get(key, value)\<close>: the result and the caller's variable after the call.\<close>

definition try_get :: "'k \<Rightarrow> 'v \<Rightarrow> ('k, 'v) table \<Rightarrow> bool \<times> 'v" where
  "try_get key v m = (case map_of m key of None \<Rightarrow> (False, v) | Some v' \<Rightarrow> (True, v'))"

definition erase :: "'k \<Rightarrow> ('k, 'v) table \<Rightarrow> bool \<times> ('k, 'v) table" where
  "erase key m = (map_of m key \<noteq> None, AList.delete key m)"

definition contains :: "'k \<Rightarrow> ('k, 'v) table \<Rightarrow> bool" where
  "contains key m \<longleftrightarrow> map_of m key \<noteq> None"

definition map_size :: "('k, 'v) table \<Rightarrow> nat" where
  "map_size m = length m"

definition map_empty :: "('k, 'v) table \<Rightarrow> bool" where
  "map_empty m \<longleftrightarrow> m = []"

definition map_clear :: "('k, 'v) table \<Rightarrow> ('k, 'v) table" where
  "map_clear m = []"

definition snapshot :: "('k, 'v) table \<Rightarrow> ('k, 'v) table" where
  "snapshot m = m"

definition map_extract :: "'k \<Rightarrow> ('k, 'v) table \<Rightarrow> 'v outcome \<times> ('k, 'v) table" where
  "map_extract key m = (case map_of m key of
       None \<Rightarrow> (Inl (Runtime_error ''Key not found''), m)
     | Some v \<Rightarrow> (Inr v, AList.delete key m))"

text \<open>\<open>for_each\<close>: the callback may change the value it is given.\<close>

fun for_each :: "('k \<Rightarrow> 'v \<Rightarrow> 'v) \<Rightarrow> ('k, 'v) table \<Rightarrow> ('k, 'v) table" where
  "for_each f [] = []"
| "for_each f ((key, v) # rest) = (key, f key v) # for_each f rest"

definition try_emplace :: "'k \<Rightarrow> 'v \<Rightarrow> ('k, 'v) table \<Rightarrow> bool \<times> ('k, 'v) table" where
  "try_emplace key v m = emplace key v m"

section \<open>The members as one alphabet, and the dictionary they implement\<close>

datatype ('k, 'v) map_call =
    M_insert 'k 'v | M_emplace 'k 'v | M_try_emplace 'k 'v | M_get 'k | M_try_get 'k 'v | M_erase 'k
  | M_contains 'k | M_size | M_empty | M_clear | M_snapshot | M_extract 'k | M_for_each "'k \<Rightarrow> 'v \<Rightarrow> 'v"

datatype ('k, 'v) map_response =
    A_unit | A_bool bool | A_value "'v outcome" | A_found bool 'v | A_count nat | A_map "'k \<rightharpoonup> 'v"

fun table_call :: "('k, 'v) map_call \<Rightarrow> ('k, 'v) table \<Rightarrow> ('k, 'v) map_response \<times> ('k, 'v) table" where
  "table_call (M_insert k v) m = (A_unit, map_insert k v m)"
| "table_call (M_emplace k v) m = (let (b, m') = emplace k v m in (A_bool b, m'))"
| "table_call (M_try_emplace k v) m = (let (b, m') = try_emplace k v m in (A_bool b, m'))"
| "table_call (M_get k) m = (A_value (get k m), m)"
| "table_call (M_try_get k v) m = (let (b, v') = try_get k v m in (A_found b v', m))"
| "table_call (M_erase k) m = (let (b, m') = erase k m in (A_bool b, m'))"
| "table_call (M_contains k) m = (A_bool (contains k m), m)"
| "table_call M_size m = (A_count (map_size m), m)"
| "table_call M_empty m = (A_bool (map_empty m), m)"
| "table_call M_clear m = (A_unit, map_clear m)"
| "table_call M_snapshot m = (A_map (map_of (snapshot m)), m)"
| "table_call (M_extract k) m = (let (r, m') = map_extract k m in (A_value r, m'))"
| "table_call (M_for_each f) m = (A_unit, for_each f m)"

fun dict_call :: "('k, 'v) map_call \<Rightarrow> ('k \<rightharpoonup> 'v) \<Rightarrow> ('k, 'v) map_response \<times> ('k \<rightharpoonup> 'v)" where
  "dict_call (M_insert k v) d = (A_unit, d(k \<mapsto> v))"
| "dict_call (M_emplace k v) d = (A_bool (k \<notin> dom d), if k \<in> dom d then d else d(k \<mapsto> v))"
| "dict_call (M_try_emplace k v) d = (A_bool (k \<notin> dom d), if k \<in> dom d then d else d(k \<mapsto> v))"
| "dict_call (M_get k) d =
     (A_value (if k \<in> dom d then Inr (the (d k)) else Inl (Runtime_error ''Key not found - thread_safe_map'')), d)"
| "dict_call (M_try_get k v) d = (A_found (k \<in> dom d) (if k \<in> dom d then the (d k) else v), d)"
| "dict_call (M_erase k) d = (A_bool (k \<in> dom d), d(k := None))"
| "dict_call (M_contains k) d = (A_bool (k \<in> dom d), d)"
| "dict_call M_size d = (A_count (card (dom d)), d)"
| "dict_call M_empty d = (A_bool (dom d = {}), d)"
| "dict_call M_clear d = (A_unit, Map.empty)"
| "dict_call M_snapshot d = (A_map d, d)"
| "dict_call (M_extract k) d =
     (A_value (if k \<in> dom d then Inr (the (d k)) else Inl (Runtime_error ''Key not found'')), d(k := None))"
| "dict_call (M_for_each f) d = (A_unit, \<lambda>k. map_option (f k) (d k))"

fun run_map :: "('c \<Rightarrow> 's \<Rightarrow> 'r \<times> 's) \<Rightarrow> 'c list \<Rightarrow> 's \<Rightarrow> 'r list \<times> 's" where
  "run_map step [] s = ([], s)"
| "run_map step (c # cs) s = (let (r, s1) = step c s; (rs, s2) = run_map step cs s1 in (r # rs, s2))"

definition table_inv :: "('k, 'v) table \<Rightarrow> bool" where
  "table_inv m \<longleftrightarrow> distinct (map fst m)"

lemma for_each_map_of: "map_of (for_each f m) k = map_option (f k) (map_of m k)"
  by (induction f m rule: for_each.induct) auto

lemma for_each_keys: "map fst (for_each f m) = map fst m"
  by (induction f m rule: for_each.induct) auto

lemma table_call_refines:
  assumes "table_inv m"
  shows "fst (table_call c m) = fst (dict_call c (map_of m))"
    and "map_of (snd (table_call c m)) = snd (dict_call c (map_of m))"
    and "table_inv (snd (table_call c m))"
proof -
  have "card (dom (map_of m)) = length m"
    using assms by (metis dom_map_of_conv_image_fst distinct_card length_map set_map table_inv_def)
  then show "fst (table_call c m) = fst (dict_call c (map_of m))"
    by (cases c) (auto simp: emplace_def try_emplace_def get_def try_get_def erase_def contains_def
        map_size_def map_empty_def snapshot_def map_extract_def split: option.splits)
  show "map_of (snd (table_call c m)) = snd (dict_call c (map_of m))"
    by (cases c) (auto simp: map_insert_def emplace_def try_emplace_def try_get_def erase_def map_clear_def map_extract_def
        update_conv' delete_conv' for_each_map_of fun_eq_iff split: option.splits prod.splits)
  show "table_inv (snd (table_call c m))"
    using assms by (cases c) (auto simp: table_inv_def map_insert_def emplace_def try_emplace_def try_get_def erase_def
        map_clear_def map_extract_def distinct_update distinct_delete for_each_keys split: option.splits prod.splits)
qed


section \<open>Dictionaries\<close>

text \<open>
  What clients of the map rely on, for one key: a successful insertion happens only while the
  key is absent and makes it present, and the other calls that leave the key alone keep it.
\<close>

fun keeps_key :: "'k \<Rightarrow> ('k, 'v) map_call \<Rightarrow> bool" where
  "keeps_key k (M_erase k') = (k' \<noteq> k)"
| "keeps_key k (M_extract k') = (k' \<noteq> k)"
| "keeps_key k M_clear = False"
| "keeps_key k _ = True"

fun claims_key :: "'k \<Rightarrow> ('k, 'v) map_call \<Rightarrow> bool" where
  "claims_key k (M_emplace k' v) = (k' = k)"
| "claims_key k (M_try_emplace k' v) = (k' = k)"
| "claims_key k _ = False"

text \<open>A call paired with its response: an insertion of the key that reports success.\<close>

definition wins :: "'k \<Rightarrow> ('k, 'v) map_call \<times> ('k, 'v) map_response \<Rightarrow> bool" where
  "wins k cr \<longleftrightarrow> claims_key k (fst cr) \<and> snd cr = A_bool True"

locale dictionary =
  fixes step :: "('k, 'v) map_call \<Rightarrow> 'm \<Rightarrow> ('k, 'v) map_response \<times> 'm"
    and lookup :: "'m \<Rightarrow> 'k \<rightharpoonup> 'v"
    and invar :: "'m \<Rightarrow> bool"
  assumes step_response: "invar m \<Longrightarrow> fst (step c m) = fst (dict_call c (lookup m))"
    and step_lookup: "invar m \<Longrightarrow> lookup (snd (step c m)) = snd (dict_call c (lookup m))"
    and step_invar: "invar m \<Longrightarrow> invar (snd (step c m))"
begin

lemma run_refines:
  "invar m \<Longrightarrow> fst (run_map step cs m) = fst (run_map dict_call cs (lookup m))
    \<and> lookup (snd (run_map step cs m)) = snd (run_map dict_call cs (lookup m))
    \<and> invar (snd (run_map step cs m))"
proof (induction cs arbitrary: m)
  case (Cons c cs)
  with Cons.IH [of "snd (step c m)"] step_response step_lookup step_invar show ?case
    by (simp add: split_beta)
qed simp

lemma key_stays:
  "invar m \<Longrightarrow> keeps_key k c \<Longrightarrow> k \<in> dom (lookup m) \<Longrightarrow> k \<in> dom (lookup (snd (step c m)))"
  by (cases c) (auto simp: step_lookup)

lemma claim_result:
  "invar m \<Longrightarrow> claims_key k c \<Longrightarrow>
   fst (step c m) = A_bool (k \<notin> dom (lookup m)) \<and> k \<in> dom (lookup (snd (step c m)))"
  by (cases c) (auto simp: step_lookup step_response)

lemma no_second_claim:
  "invar m \<Longrightarrow> list_all (keeps_key k) cs \<Longrightarrow> k \<in> dom (lookup m) \<Longrightarrow>
   filter (wins k) (zip cs (fst (run_map step cs m))) = []"
proof (induction cs arbitrary: m)
  case (Cons c cs)
  with Cons.IH [of "snd (step c m)"] claim_result [of m k c] key_stays [of m k c] step_invar [of m c]
  show ?case by (auto simp: split_beta wins_def)
qed simp

lemma single_claim:
  "invar m \<Longrightarrow> list_all (keeps_key k) cs \<Longrightarrow>
   length (filter (wins k) (zip cs (fst (run_map step cs m)))) \<le> 1"
proof (induction cs arbitrary: m)
  case (Cons c cs)
  note next_run = Cons.IH [of "snd (step c m)"] no_second_claim [of "snd (step c m)" k cs]
  from Cons.prems next_run claim_result [of m k c] step_invar [of m c] show ?case
    by (cases "wins k (c, fst (step c m))") (simp_all add: split_beta, simp add: wins_def)
qed simp

end

interpretation tsm: dictionary table_call map_of table_inv
  by unfold_locales (simp_all add: table_call_refines)

section \<open>Locked values\<close>

record 'k locked_value =
  owns_lock :: bool
  pointee :: "'k option"

definition new_locked_value :: "'k \<Rightarrow> 'k locked_value" where
  "new_locked_value key = \<lparr>owns_lock = True, pointee = Some key\<rparr>"

definition has_value :: "'k locked_value \<Rightarrow> bool" where
  "has_value lv \<longleftrightarrow> pointee lv \<noteq> None"

text \<open>
  The defaulted move constructor: the lock moves, the raw pointer is copied. The result is the
  new object and what is left of the source.
\<close>

definition move_locked_value :: "'k locked_value \<Rightarrow> 'k locked_value \<times> 'k locked_value" where
  "move_locked_value lv = (lv, lv\<lparr>owns_lock := False\<rparr>)"

text \<open>
  The map with its mutex: \<open>holder\<close> is the thread whose \<open>locked_value\<close> owns \<open>mutex_map\<close>. A
  member of a thread runs when the mutex is free; through a \<open>locked_value\<close> its thread reads
  and writes the element, and its destructor releases the mutex.
\<close>

record ('k, 'v) locked_map =
  table :: "('k, 'v) table"
  holder :: "(nat \<times> 'k locked_value) option"

datatype ('k, 'v) map_action =
    Member "('k, 'v) map_call"
  | Get_locked 'k
  | Try_emplace_locked 'k 'v
  | Assign 'v
  | Release

definition get_locked :: "nat \<Rightarrow> 'k \<Rightarrow> ('k, 'v) locked_map \<Rightarrow> unit outcome \<times> ('k, 'v) locked_map" where
  "get_locked t key m = (case map_of (table m) key of
       None \<Rightarrow> (Inl (Runtime_error ''Key not found - thread_safe_map''), m)
     | Some v \<Rightarrow> (Inr (), m\<lparr>holder := Some (t, new_locked_value key)\<rparr>))"

definition try_emplace_locked :: "nat \<Rightarrow> 'k \<Rightarrow> 'v \<Rightarrow> ('k, 'v) locked_map \<Rightarrow> bool \<times> ('k, 'v) locked_map" where
  "try_emplace_locked t key v m =
     (let (inserted, tbl) = emplace key v (table m)
      in (inserted, m\<lparr>table := tbl, holder := Some (t, new_locked_value key)\<rparr>))"

definition deref :: "'k locked_value \<Rightarrow> ('k, 'v) table \<Rightarrow> 'v outcome" where
  "deref lv tbl = (case pointee lv of
       None \<Rightarrow> Inl (Undefined_behaviour ''null pointer'')
     | Some key \<Rightarrow> (case map_of tbl key of
           None \<Rightarrow> Inl (Undefined_behaviour ''dangling pointer'') | Some v \<Rightarrow> Inr v))"

fun map_step :: "nat \<Rightarrow> ('k, 'v) map_action \<Rightarrow> ('k, 'v) locked_map \<Rightarrow> ('k, 'v) locked_map option" where
  "map_step t (Member c) m =
     (if holder m = None then Some (m\<lparr>table := snd (table_call c (table m))\<rparr>) else None)"
| "map_step t (Get_locked key) m = (if holder m = None then Some (snd (get_locked t key m)) else None)"
| "map_step t (Try_emplace_locked key v) m =
     (if holder m = None then Some (snd (try_emplace_locked t key v m)) else None)"
| "map_step t (Assign v) m =
     (case holder m of
        Some (t', lv) \<Rightarrow>
          (case pointee lv of
             Some key \<Rightarrow> if t' = t then Some (m\<lparr>table := AList.update key v (table m)\<rparr>) else None
           | None \<Rightarrow> None)
      | None \<Rightarrow> None)"
| "map_step t Release m =
     (case holder m of Some (t', lv) \<Rightarrow> if t' = t then Some (m\<lparr>holder := None\<rparr>) else None | None \<Rightarrow> None)"

inductive map_reachable :: "('k, 'v) locked_map \<Rightarrow> bool" where
  fresh: "map_reachable \<lparr>table = [], holder = None\<rparr>"
| act: "map_reachable m \<Longrightarrow> map_step t a m = Some m' \<Longrightarrow> map_reachable m'"

definition lock_inv :: "('k, 'v) locked_map \<Rightarrow> bool" where
  "lock_inv m \<longleftrightarrow> table_inv (table m)
     \<and> (case holder m of None \<Rightarrow> True
        | Some (t, lv) \<Rightarrow> owns_lock lv \<and> (\<exists>key. pointee lv = Some key \<and> key \<in> dom (map_of (table m))))"

lemma map_step_inv: "lock_inv m \<Longrightarrow> map_step t a m = Some m' \<Longrightarrow> lock_inv m'"
  using table_call_refines(3) [of "table m"]
  by (cases a) (auto simp: lock_inv_def get_locked_def try_emplace_locked_def emplace_def new_locked_value_def
      table_inv_def distinct_update update_conv' split: option.splits if_splits)

lemma map_reachable_inv: "map_reachable m \<Longrightarrow> lock_inv m"
proof (induction rule: map_reachable.induct)
  case fresh
  then show ?case by (simp add: lock_inv_def table_inv_def)
qed (rule map_step_inv)

section \<open>Properties\<close>

text \<open>
  C29: The map refines a dictionary: for every sequence of member calls from an empty map, in
  the order in which they take the lock, all responses (values, found flags, sizes, snapshots,
  exceptions) and the final contents are those of a finite map, and no key is stored twice.
\<close>

theorem map_refines_dictionary:
  "fst (run_map table_call cs []) = fst (run_map dict_call cs Map.empty) \<and>
   map_of (snd (run_map table_call cs [])) = snd (run_map dict_call cs Map.empty) \<and>
   distinct (map fst (snd (run_map table_call cs [])))"
  using tsm.run_refines [of "[]" cs] by (simp add: table_inv_def)

text \<open>
  One winner: however many threads race to insert a key with \<open>emplace\<close> or
  \<open>try_emplace\<close>, as long as nobody removes it at most one of them is told that it inserted it.
\<close>

theorem emplace_single_winner:
  assumes "table_inv m" and "list_all (keeps_key k) cs"
  shows "length (filter (wins k)
           (zip cs (fst (run_map table_call cs m)))) \<le> 1"
  by (rule tsm.single_claim [OF assms])

lemma emplace_single_winner_witness:
  "length (filter (wins (1::nat))
     (zip [M_emplace 1 ''a'', M_insert 2 ''x'', M_try_emplace (1::nat) ''b'']
       (fst (run_map table_call [M_emplace 1 ''a'', M_insert 2 ''x'', M_try_emplace 1 ''b''] [])))) \<le> 1"
  by (rule emplace_single_winner) (simp_all add: table_inv_def)

text \<open>
  A \<open>locked_value\<close> is safe to use while it is held: in every interleaving of the threads'
  members, the element it points to exists, what it reads is what its thread last assigned
  through it, and until it is released no member runs, not even one of its own thread, and no
  other thread takes any step on the map.
\<close>

theorem locked_value_safe:
  assumes "map_reachable m" and "holder m = Some (t, lv)"
  shows "(\<exists>v. deref lv (table m) = Inr v) \<and>
    (\<exists>m'. map_step t (Assign v) m = Some m' \<and> holder m' = Some (t, lv) \<and> deref lv (table m') = Inr v) \<and>
    map_step t (Member c) m = None \<and> (t' = t \<or> map_step t' a m = None)"
proof -
  from map_reachable_inv [OF assms(1)] assms(2) obtain key w
    where "pointee lv = Some key" "map_of (table m) key = Some w"
    by (auto simp: lock_inv_def)
  moreover have "t' = t \<or> map_step t' a m = None" using assms(2) by (cases a) (auto split: option.splits)
  ultimately show ?thesis using assms(2) by (simp add: deref_def update_conv')
qed

lemma locked_value_safe_witness:
  "map_step 2 (Member (M_erase ''k'')) \<lparr>table = [(''k'', 5::nat)], holder = Some (1, new_locked_value ''k'')\<rparr> = None"
proof -
  have "map_reachable \<lparr>table = [(''k'', 5::nat)], holder = None\<rparr>"
    by (rule map_reachable.act [OF map_reachable.fresh, of 1 "Member (M_insert ''k'' 5)"])
      (simp add: map_insert_def)
  then have "map_reachable \<lparr>table = [(''k'', 5::nat)], holder = Some (1, new_locked_value ''k'')\<rparr>"
    by (rule map_reachable.act [of _ 1 "Get_locked ''k''"]) (simp add: get_locked_def)
  from locked_value_safe [OF this, of 1 "new_locked_value ''k''" _ _ 2 "Member (M_erase ''k'')"] show ?thesis by simp
qed

text \<open>
  A moved-from \<open>locked_value\<close> still claims to hold a value: the defaulted move leaves the
  raw pointer behind, so \<open>operator bool\<close> is true and dereferencing works without the lock.
\<close>

theorem moved_from_still_dereferences:
  "has_value (snd (move_locked_value (new_locked_value key))) \<and>
   \<not> owns_lock (snd (move_locked_value (new_locked_value key))) \<and>
   deref (snd (move_locked_value (new_locked_value key))) [(key, v)] = Inr v"
  by (simp add: move_locked_value_def new_locked_value_def has_value_def deref_def)

end
