(* ===== verification/Map_Threads.thy ===== *)
theory Map_Threads
  imports Thread_Safe_Map
begin

text \<open>
  Threads on one \<open>thread_safe_unordered_map\<close>. Each thread works through a list of jobs: members
  of the map, blocks that modify an element through the \<open>locked_value\<close> of \<open>get_locked\<close> or
  \<open>try_emplace_locked\<close>, and calls of \<open>for_each\<close> whose callback may throw or, against the
  warning in the source, call the map again. Members without callback are one step, as they hold
  \<open>mutex_map\<close> throughout; the others are a step per access of the map, between which the other
  threads try theirs. A thread begins a job only while the mutex is free and keeps it, after the
  call that gave it a \<open>locked_value\<close>, only if that object owns the lock; that at most one thread is
  inside a job is therefore an invariant, not a part of the state. Shown: every interleaving is equivalent to running the jobs one after the
  other in the order in which they end, no update through a \<open>locked_value\<close> is lost, and the
  jobs can always be completed, unless a callback calls the map, which stops all threads for good.
\<close>

section \<open>Threads and their jobs\<close>

text \<open>What a callback of \<open>for_each\<close> does with the element it is given.\<close>

datatype 'v visit = Visited 'v | Threw 'v | Calls_map

datatype ('k, 'v) job =
    Run "('k, 'v) map_call"
  | With_locked 'k "'v \<Rightarrow> 'v"
  | With_emplaced 'k 'v "'v \<Rightarrow> 'v"
  | Visit_all "'k \<Rightarrow> 'v \<Rightarrow> 'v visit"

text \<open>
  Where a thread inside a job stands: it has a \<open>locked_value\<close> (and whether the element was
  inserted for it) and has not read yet, has read the element, is at an element of its
  \<open>for_each\<close>, or is about to leave with its result.
\<close>

datatype ('k, 'v) stage =
    At_value bool "'k locked_value" "'v \<Rightarrow> 'v"
  | Has_read bool "'k locked_value" "'v \<Rightarrow> 'v" 'v
  | Visiting "'k \<Rightarrow> 'v \<Rightarrow> 'v visit" nat
  | Leaving "('k, 'v) map_response"

text \<open>
  The map, \<open>mutex_map\<close> as the thread that has locked it, and for each thread the job it is inside
  of. Nothing in the state says that only one thread is inside: a thread that is inside goes on
  whether or not it has the mutex, and only the locks taken keep the others out.
\<close>

record ('k, 'v) map_threads =
  map_contents :: "('k, 'v) table"
  mutex :: "nat option"
  inside :: "nat \<Rightarrow> (('k, 'v) job \<times> ('k, 'v) stage) option"
  script :: "nat \<Rightarrow> ('k, 'v) job list"
  history :: "(nat \<times> ('k, 'v) job \<times> ('k, 'v) map_response) list"

definition unlocked :: "('k, 'v) table \<Rightarrow> ('k, 'v) locked_map" where
  "unlocked m = \<lparr>table = m, holder = None\<rparr>"

text \<open>
  Taking the mutex for a job: the table, and either the stage to go on from or the response of a
  job that has ended.
\<close>

fun begin_job ::
    "nat \<Rightarrow> ('k, 'v) job \<Rightarrow> ('k, 'v) table \<Rightarrow> ('k, 'v) table \<times> (('k, 'v) map_response + ('k, 'v) stage)" where
  "begin_job t (Run c) m = (let (r, m') = table_call c m in (m', Inl r))"
| "begin_job t (With_locked key f) m =
     (case get_locked t key (unlocked m) of
        (Inl e, _) \<Rightarrow> (m, Inl (A_value (Inl e)))
      | (Inr _, lm) \<Rightarrow> (table lm, Inr (At_value False (snd (the (holder lm))) f)))"
| "begin_job t (With_emplaced key v f) m =
     (let (inserted, lm) = try_emplace_locked t key v (unlocked m)
      in (table lm, Inr (At_value inserted (snd (the (holder lm))) f)))"
| "begin_job t (Visit_all g) m = (m, Inr (Visiting g 0))"

text \<open>
  Whether a thread keeps the mutex when it goes on from a stage: with a \<open>locked_value\<close> only if
  that owns the lock, in \<open>for_each\<close> by the lock of the member.
\<close>

fun keeps_mutex :: "('k, 'v) stage \<Rightarrow> bool" where
  "keeps_mutex (At_value b lv f) = owns_lock lv"
| "keeps_mutex (Has_read b lv f v) = owns_lock lv"
| "keeps_mutex (Visiting g n) = True"
| "keeps_mutex (Leaving r) = False"

text \<open>A step inside a job, but for leaving it: \<open>None\<close> is a step that is never completed.\<close>

fun stage_step :: "('k, 'v) stage \<Rightarrow> ('k, 'v) table \<Rightarrow> (('k, 'v) table \<times> ('k, 'v) stage) option" where
  "stage_step (At_value b lv f) m =
     (case deref lv m of Inl e \<Rightarrow> None | Inr v \<Rightarrow> Some (m, Has_read b lv f v))"
| "stage_step (Has_read b lv f v) m =
     (case pointee lv of
        None \<Rightarrow> None
      | Some key \<Rightarrow> Some (AList.update key (f v) m, Leaving (A_found b v)))"
| "stage_step (Visiting g n) m =
     (if n < length m then
        (case g (fst (m ! n)) (snd (m ! n)) of
           Visited v \<Rightarrow> Some (m[n := (fst (m ! n), v)], Visiting g (Suc n))
         | Threw v \<Rightarrow> Some (m[n := (fst (m ! n), v)], Leaving (A_bool False))
         | Calls_map \<Rightarrow> None)
      else Some (m, Leaving (A_bool True)))"
| "stage_step (Leaving r) m = None"

definition map_thread_step :: "nat \<Rightarrow> ('k, 'v) map_threads \<Rightarrow> ('k, 'v) map_threads option" where
  "map_thread_step t s =
     (case inside s t of
        None \<Rightarrow>
          (case script s t of
             [] \<Rightarrow> None
           | job # rest \<Rightarrow>
               if mutex s \<noteq> None then None
               else (let s1 = s\<lparr>script := (script s)(t := rest)\<rparr>
                     in case begin_job t job (map_contents s) of
                          (m, Inl r) \<Rightarrow> Some (s1\<lparr>map_contents := m, history := history s @ [(t, job, r)]\<rparr>)
                        | (m, Inr stage) \<Rightarrow>
                            Some (s1\<lparr>map_contents := m, mutex := (if keeps_mutex stage then Some t else None),
                                    inside := (inside s)(t \<mapsto> (job, stage))\<rparr>)))
      | Some (job, stage) \<Rightarrow>
          (case stage of
             Leaving r \<Rightarrow>
               Some (s\<lparr>mutex := (if mutex s = Some t then None else mutex s),
                       inside := (inside s)(t := None), history := history s @ [(t, job, r)]\<rparr>)
           | _ \<Rightarrow> map_option (\<lambda>(m, stage'). s\<lparr>map_contents := m, inside := (inside s)(t \<mapsto> (job, stage'))\<rparr>)
                    (stage_step stage (map_contents s))))"

fun run_threads :: "nat list \<Rightarrow> ('k, 'v) map_threads \<Rightarrow> ('k, 'v) map_threads option" where
  "run_threads [] s = Some s"
| "run_threads (t # ts) s = Option.bind (map_thread_step t s) (run_threads ts)"

definition new_map_threads :: "('k, 'v) table \<Rightarrow> (nat \<Rightarrow> ('k, 'v) job list) \<Rightarrow> ('k, 'v) map_threads" where
  "new_map_threads m scripts = \<lparr>map_contents = m, mutex = None, inside = Map.empty, script = scripts, history = []\<rparr>"

section \<open>Jobs one after the other\<close>

text \<open>
  \<open>for_each\<close> with a callback that may throw: whether it went through, and the table; \<open>None\<close> when
  the callback calls the map.
\<close>

fun visit_table :: "('k \<Rightarrow> 'v \<Rightarrow> 'v visit) \<Rightarrow> ('k, 'v) table \<Rightarrow> (bool \<times> ('k, 'v) table) option" where
  "visit_table g [] = Some (True, [])"
| "visit_table g ((key, v) # rest) =
     (case g key v of
        Visited v' \<Rightarrow> map_option (\<lambda>(b, rest'). (b, (key, v') # rest')) (visit_table g rest)
      | Threw v' \<Rightarrow> Some (False, (key, v') # rest)
      | Calls_map \<Rightarrow> None)"

fun atomic_job :: "('k, 'v) job \<Rightarrow> ('k, 'v) table \<Rightarrow> (('k, 'v) map_response \<times> ('k, 'v) table) option" where
  "atomic_job (Run c) m = Some (table_call c m)"
| "atomic_job (With_locked key f) m =
     Some (case map_of m key of
       None \<Rightarrow> (A_value (Inl (Runtime_error ''Key not found - thread_safe_map'')), m)
     | Some v \<Rightarrow> (A_found False v, AList.update key (f v) m))"
| "atomic_job (With_emplaced key v f) m =
     Some (case map_of m key of
       None \<Rightarrow> (A_found True v, AList.update key (f v) m)
     | Some v' \<Rightarrow> (A_found False v', AList.update key (f v') m))"
| "atomic_job (Visit_all g) m = map_option (map_prod A_bool id) (visit_table g m)"

fun one_by_one ::
    "('k, 'v) job list \<Rightarrow> ('k, 'v) table \<Rightarrow> (('k, 'v) map_response list \<times> ('k, 'v) table) option" where
  "one_by_one [] m = Some ([], m)"
| "one_by_one (j # js) m =
     Option.bind (atomic_job j m) (\<lambda>(r, m1). map_option (map_prod ((#) r) id) (one_by_one js m1))"

definition jobs_of :: "nat \<Rightarrow> (nat \<times> ('k, 'v) job \<times> ('k, 'v) map_response) list \<Rightarrow> ('k, 'v) job list" where
  "jobs_of t h = map (fst \<circ> snd) (filter (\<lambda>e. fst e = t) h)"

text \<open>The job a thread has begun and not ended.\<close>

definition under_way :: "nat \<Rightarrow> ('k, 'v) map_threads \<Rightarrow> ('k, 'v) job list" where
  "under_way t s = (case inside s t of None \<Rightarrow> [] | Some (job, stage) \<Rightarrow> [job])"

text \<open>How a job ends whose thread is left alone.\<close>

fun finish :: "('k, 'v) stage \<Rightarrow> ('k, 'v) table \<Rightarrow> (('k, 'v) map_response \<times> ('k, 'v) table) option" where
  "finish (At_value b lv f) m =
     (case pointee lv of
        None \<Rightarrow> None
      | Some key \<Rightarrow> map_option (\<lambda>v. (A_found b v, AList.update key (f v) m)) (map_of m key))"
| "finish (Has_read b lv f v) m =
     map_option (\<lambda>key. (A_found b v, AList.update key (f v) m)) (pointee lv)"
| "finish (Visiting g n) m =
     map_option (\<lambda>(b, rest). (A_bool b, take n m @ rest)) (visit_table g (drop n m))"
| "finish (Leaving r) m = Some (r, m)"

lemma stage_step_finish:
  assumes "stage_step stage m = Some (m', stage')"
  shows "finish stage' m' = finish stage m"
proof (cases stage)
  case (Visiting g n)
  show ?thesis
  proof (cases "n < length m")
    case True
    obtain key v where e: "m ! n = (key, v)" by (cases "m ! n")
    from True have d: "drop n m = (key, v) # drop (Suc n) m" using e by (simp add: Cons_nth_drop_Suc [symmetric])
    from True have t: "take (Suc n) (m[n := (key, x)]) = take n m @ [(key, x)]" for x
      by (simp add: take_Suc_conv_app_nth)
    from Visiting True e d t assms show ?thesis
      by (auto simp: upd_conv_take_nth_drop option.map_comp o_def split_beta' split: visit.splits)
  qed (use Visiting assms in auto)
qed (use assms in \<open>auto simp: deref_def split: option.splits sum.splits\<close>)

lemma update_again: "AList.update k v' (AList.update k v m) = AList.update k v' m"
  by (induction m) auto

lemma begin_job_ended:
  assumes "begin_job t job m = (m', Inl r)"
  shows "atomic_job job m = Some (r, m')"
  using assms
  by (cases job) (auto simp: get_locked_def unlocked_def try_emplace_locked_def split_beta
      split: option.splits sum.splits unit.splits prod.splits)

lemma begin_job_stage:
  assumes "begin_job t job m = (m', Inr stage)"
  shows "finish stage m' = atomic_job job m"
  using assms
  by (cases job) (auto simp: get_locked_def unlocked_def try_emplace_locked_def emplace_def new_locked_value_def
      update_conv' update_again map_prod_def split_beta option.map_comp o_def
      split: option.splits sum.splits unit.splits prod.splits)

lemma begin_job_keeps: "begin_job t job m = (m', Inr stage) \<Longrightarrow> keeps_mutex stage"
  by (cases job) (auto simp: get_locked_def unlocked_def try_emplace_locked_def new_locked_value_def split_beta
      split: option.splits sum.splits unit.splits prod.splits)

lemma one_by_one_snoc:
  "one_by_one (js @ [j]) m =
     Option.bind (one_by_one js m) (\<lambda>(rs, m1). map_option (\<lambda>(r, m2). (rs @ [r], m2)) (atomic_job j m1))"
proof (induction js arbitrary: m)
  case Nil
  show ?case by (cases "atomic_job j m") auto
next
  case (Cons i js)
  then show ?case
    by (auto simp: map_option_bind bind_map_option split_beta' o_def option.map_comp map_prod_def
        intro!: bind_option_cong)
qed

section \<open>Every interleaving is one by one\<close>

text \<open>Only the thread that has the mutex is inside a job.\<close>

definition exclusive :: "('k, 'v) map_threads \<Rightarrow> bool" where
  "exclusive s \<longleftrightarrow> (\<forall>t. inside s t \<noteq> None \<longleftrightarrow> mutex s = Some t)"

lemma exclusive_owner: "exclusive s \<Longrightarrow> inside s t = Some js \<Longrightarrow> mutex s = Some t"
  by (auto simp: exclusive_def)

lemma exclusive_free: "exclusive s \<Longrightarrow> mutex s = None \<Longrightarrow> inside s t = None"
  by (metis exclusive_def option.distinct(1))

lemma exclusive_others: "exclusive s \<Longrightarrow> mutex s = Some t \<Longrightarrow> u \<noteq> t \<Longrightarrow> inside s u = None"
  by (metis exclusive_def option.inject)

lemma map_thread_step_exclusive:
  assumes "exclusive s" "map_thread_step t s = Some s'"
  shows "exclusive s'"
proof (cases "inside s t")
  case None
  with assms show ?thesis
    by (auto simp: map_thread_step_def exclusive_def Let_def split: list.splits if_splits prod.splits sum.splits
        dest: begin_job_keeps)
next
  case (Some js)
  then have own: "mutex s = Some t" by (rule exclusive_owner [OF assms(1)])
  with exclusive_others [OF assms(1)] Some assms(2) show ?thesis
    by (auto simp: map_thread_step_def exclusive_def split: stage.splits prod.splits if_splits)
qed

text \<open>
  The jobs that have ended, one by one in that order, give their responses and the table that the
  thread with the mutex, if any, began with; what it has done since is a part of its job. No thread
  has lost or swapped a job.
\<close>

definition threads_inv :: "('k, 'v) table \<Rightarrow> (nat \<Rightarrow> ('k, 'v) job list) \<Rightarrow> ('k, 'v) map_threads \<Rightarrow> bool" where
  "threads_inv m0 scripts s \<longleftrightarrow> exclusive s \<and>
     (\<exists>m. one_by_one (map (fst \<circ> snd) (history s)) m0 = Some (map (snd \<circ> snd) (history s), m) \<and>
        (mutex s = None \<longrightarrow> map_contents s = m) \<and>
        (\<forall>t job stage. inside s t = Some (job, stage) \<longrightarrow> finish stage (map_contents s) = atomic_job job m)) \<and>
     (\<forall>t. scripts t = jobs_of t (history s) @ under_way t s @ script s t)"

lemma jobs_of_snoc [simp]:
  "jobs_of t (h @ [(t', job, r)]) = jobs_of t h @ (if t' = t then [job] else [])"
  by (simp add: jobs_of_def)

lemma map_thread_step_inv:
  assumes "threads_inv m0 scripts s" "map_thread_step t s = Some s'"
  shows "threads_inv m0 scripts s'"
proof -
  from assms(1) obtain m where m: "one_by_one (map (fst \<circ> snd) (history s)) m0 = Some (map (snd \<circ> snd) (history s), m)"
    "mutex s = None \<longrightarrow> map_contents s = m"
    "\<forall>t job stage. inside s t = Some (job, stage) \<longrightarrow> finish stage (map_contents s) = atomic_job job m"
    unfolding threads_inv_def by (elim conjE exE) (rule that; assumption)
  from assms(1) have jobs: "scripts u = jobs_of u (history s) @ under_way u s @ script s u" and ex: "exclusive s" for u
    unfolding threads_inv_def by blast+
  note ex' = map_thread_step_exclusive [OF ex assms(2)]
  show ?thesis
  proof (cases "inside s t")
    case None
    with assms(2) obtain job rest where sc: "script s t = job # rest" and free: "mutex s = None"
      by (auto simp: map_thread_step_def split: list.splits if_splits)
    note out = exclusive_free [OF ex free]
    obtain m' r where b: "begin_job t job (map_contents s) = (m', r)" by fastforce
    have jobs': "scripts u = jobs_of u (history s) @ (if t = u then [job] else []) @ ((script s)(t := rest)) u" for u
      using jobs [of u] out sc by (simp add: under_way_def)
    show ?thesis
    proof (cases r)
      case (Inl resp)
      with b begin_job_ended [of t job "map_contents s" m' resp] m free out sc assms(2) jobs' ex' show ?thesis
        by (auto simp: map_thread_step_def threads_inv_def one_by_one_snoc under_way_def)
    next
      case (Inr stage)
      with b begin_job_stage [of t job "map_contents s" m' stage] begin_job_keeps [of t job "map_contents s" m' stage]
        m free out sc assms(2) jobs' ex' show ?thesis
        by (auto simp: map_thread_step_def threads_inv_def under_way_def)
    qed
  next
    case (Some js)
    then obtain job stage where ow: "inside s t = Some (job, stage)" by (cases js) auto
    have own: "mutex s = Some t" by (rule exclusive_owner [OF ex ow])
    note others = exclusive_others [OF ex own]
    show ?thesis
    proof (cases "\<exists>r. stage = Leaving r")
      case True
      then obtain r where r: "stage = Leaving r" by blast
      with m(3) ow have "atomic_job job m = Some (r, map_contents s)" by (metis finish.simps(4))
      with r m(1) jobs ow own others assms(2) ex' show ?thesis
        by (auto simp: map_thread_step_def threads_inv_def one_by_one_snoc under_way_def)
    next
      case False
      with assms(2) ow obtain m' stage' where st: "stage_step stage (map_contents s) = Some (m', stage')"
        "s' = s\<lparr>map_contents := m', inside := (inside s)(t \<mapsto> (job, stage'))\<rparr>"
        by (auto simp: map_thread_step_def split: stage.splits)
      from stage_step_finish [OF st(1)] st(2) m(1,3) jobs ow own others ex' show ?thesis
        by (auto simp: threads_inv_def under_way_def split: option.splits)
    qed
  qed
qed

lemma run_threads_inv:
  "run_threads ts s = Some s' \<Longrightarrow> threads_inv m0 scripts s \<Longrightarrow> threads_inv m0 scripts s'"
  by (induction ts arbitrary: s) (auto simp: bind_eq_Some_conv dest: map_thread_step_inv)

lemma new_map_threads_inv: "threads_inv m scripts (new_map_threads m scripts)"
  by (simp add: threads_inv_def exclusive_def new_map_threads_def jobs_of_def under_way_def)


section \<open>Progress\<close>

text \<open>A job whose callback, if it has one, does not call the map.\<close>

fun polite :: "('k, 'v) job \<Rightarrow> bool" where
  "polite (Visit_all g) = (\<forall>key v. g key v \<noteq> Calls_map)"
| "polite _ = True"

lemma visit_table_polite: "\<forall>key v. g key v \<noteq> Calls_map \<Longrightarrow> visit_table g m \<noteq> None"
  by (induction g m rule: visit_table.induct) (auto split: visit.splits)

lemma atomic_job_polite: "polite job \<Longrightarrow> atomic_job job m \<noteq> None"
  by (cases job) (simp_all add: visit_table_polite)

lemma run_threads_append:
  "run_threads (ts @ us) s = Option.bind (run_threads ts s) (run_threads us)"
  by (induction ts arbitrary: s) (simp_all add: fun_eq_iff cong: bind_option_cong)

lemma stage_step_exists:
  "finish stage m = Some rm \<Longrightarrow> \<nexists>r. stage = Leaving r \<Longrightarrow> \<exists>m' stage'. stage_step stage m = Some (m', stage')"
proof (cases stage)
  case (Visiting g n)
  assume "finish stage m = Some rm"
  with Visiting show ?thesis
    by (cases "n < length m"; cases "m ! n") (auto simp: Cons_nth_drop_Suc [symmetric] split: visit.splits)
qed (auto simp: deref_def split: option.splits)

text \<open>What the owner has left to do.\<close>

fun stage_left :: "('k, 'v) stage \<Rightarrow> ('k, 'v) table \<Rightarrow> nat" where
  "stage_left (At_value b lv f) m = 2"
| "stage_left (Has_read b lv f v) m = 1"
| "stage_left (Visiting g n) m = Suc (length m - n)"
| "stage_left (Leaving r) m = 0"

lemma stage_step_left: "stage_step stage m = Some (m', stage') \<Longrightarrow> stage_left stage' m' < stage_left stage m"
  by (cases stage) (auto split: option.splits sum.splits if_splits visit.splits)

lemma owner_finishes:
  assumes "mutex s = Some t" "inside s t = Some (job, stage)" "finish stage (map_contents s) = Some (r, m)"
  shows "\<exists>n. run_threads (replicate n t) s = Some (s\<lparr>map_contents := m, mutex := None,
    inside := (inside s)(t := None), history := history s @ [(t, job, r)]\<rparr>)"
  using assms
proof (induction "stage_left stage (map_contents s)" arbitrary: s stage rule: less_induct)
  case less
  show ?case
  proof (cases "\<exists>r. stage = Leaving r")
    case True
    with less.prems show ?thesis by (intro exI [of _ 1]) (auto simp: map_thread_step_def)
  next
    case False
    with stage_step_exists [OF less.prems(3)] obtain m' stage' where
      st: "stage_step stage (map_contents s) = Some (m', stage')" by blast
    let ?s = "s\<lparr>map_contents := m', inside := (inside s)(t \<mapsto> (job, stage'))\<rparr>"
    have "map_thread_step t s = Some ?s" using False less.prems(2) st by (auto simp: map_thread_step_def split: stage.splits)
    moreover obtain n where "run_threads (replicate n t) ?s = Some (?s\<lparr>map_contents := m, mutex := None,
        inside := (inside ?s)(t := None), history := history ?s @ [(t, job, r)]\<rparr>)"
      using less.hyps [of stage' ?s] stage_step_left [OF st] stage_step_finish [OF st] less.prems by auto
    ultimately show ?thesis by (intro exI [of _ "Suc n"]) simp
  qed
qed

lemma job_completes:
  assumes "exclusive s" "mutex s = None" "script s t = job # rest" "polite job"
  obtains n s' where "run_threads (replicate n t) s = Some s'" "exclusive s'" "mutex s' = None" "script s' = (script s)(t := rest)"
proof -
  note out = exclusive_free [OF assms(1,2)]
  obtain m r where b: "begin_job t job (map_contents s) = (m, r)" by fastforce
  show thesis
  proof (cases r)
    case (Inl resp)
    let ?s = "s\<lparr>script := (script s)(t := rest), map_contents := m, history := history s @ [(t, job, resp)]\<rparr>"
    from Inl assms out b have "map_thread_step t s = Some ?s" by (simp add: map_thread_step_def Let_def)
    with assms(1,2) show thesis by (intro that [of 1 ?s]) (auto simp: exclusive_def)
  next
    case (Inr stage)
    let ?s = "s\<lparr>script := (script s)(t := rest), map_contents := m, mutex := Some t, inside := (inside s)(t \<mapsto> (job, stage))\<rparr>"
    have "map_thread_step t s = Some ?s"
      using assms out b Inr begin_job_keeps [of t job "map_contents s" m stage] by (simp add: map_thread_step_def Let_def)
    moreover from begin_job_stage [of t job "map_contents s" m stage] atomic_job_polite [OF assms(4), of "map_contents s"] b Inr
    obtain resp m' where "finish stage (map_contents ?s) = Some (resp, m')" by auto
    with owner_finishes [of ?s t job stage resp m'] obtain n where "run_threads (replicate n t) ?s =
        Some (?s\<lparr>map_contents := m', mutex := None, inside := (inside ?s)(t := None), history := history ?s @ [(t, job, resp)]\<rparr>)"
      by auto
    ultimately show thesis using out by (intro that [of "Suc n"]) (auto simp: exclusive_def split: if_splits)
  qed
qed

text \<open>All jobs have ended.\<close>

definition all_done :: "('k, 'v) map_threads \<Rightarrow> bool" where
  "all_done s \<longleftrightarrow> mutex s = None \<and> (\<forall>t. inside s t = None \<and> script s t = [])"

lemma scripts_complete:
  assumes "exclusive s" "mutex s = None" "finite A" "\<And>t. t \<notin> A \<Longrightarrow> script s t = []" "\<And>t. list_all polite (script s t)"
  shows "\<exists>ts s'. run_threads ts s = Some s' \<and> all_done s'"
  using assms
proof (induction "\<Sum>t\<in>A. length (script s t)" arbitrary: s rule: less_induct)
  case less
  show ?case
  proof (cases "\<forall>t. script s t = []")
    case True
    with less.prems(1,2) show ?thesis by (intro exI [of _ "[]"] exI [of _ s]) (simp add: all_done_def exclusive_free)
  next
    case False
    then obtain t job rest where sc: "script s t = job # rest" by (meson neq_Nil_conv)
    with less.prems(4) [of t] have "t \<in> A" by auto
    from sc less.prems(5) [of t] have "polite job" by simp
    then obtain n s1 where s1: "run_threads (replicate n t) s = Some s1" "exclusive s1" "mutex s1 = None"
      "script s1 = (script s)(t := rest)"
      using job_completes less.prems(1,2) sc by blast
    have "(\<Sum>u\<in>A. length (script s1 u)) < (\<Sum>u\<in>A. length (script s u))"
      using less.prems(3) \<open>t \<in> A\<close> sc s1(4) by (intro sum_strict_mono_ex1) (auto intro!: bexI [of _ t])
    moreover have "script s1 u = []" if "u \<notin> A" for u using that \<open>t \<in> A\<close> less.prems(4) s1(4) by auto
    moreover have "list_all polite (script s1 u)" for u using less.prems(5) [of u] sc s1(4) by (cases "u = t") auto
    ultimately obtain ts s' where "run_threads ts s1 = Some s'" "all_done s'"
      using less.hyps [of s1] less.prems(3) s1(2,3) by blast
    with s1(1) show ?thesis by (intro exI [of _ "replicate n t @ ts"] exI [of _ s']) (simp add: run_threads_append)
  qed
qed

lemma owner_polite:
  assumes "threads_inv m0 scripts s" "list_all polite (scripts t)" "inside s t = Some (job, stage)"
  obtains r m where "finish stage (map_contents s) = Some (r, m)"
proof -
  from assms obtain m where "finish stage (map_contents s) = atomic_job job m" unfolding threads_inv_def by blast
  moreover have "scripts t = jobs_of t (history s) @ [job] @ script s t"
    using assms(1,3) by (simp add: threads_inv_def under_way_def)
  then have "polite job" using assms(2) by simp
  ultimately show thesis using atomic_job_polite [of job m] that by auto
qed

lemma threads_complete:
  assumes "threads_inv m0 scripts s" "\<And>t. list_all polite (scripts t)" "finite A" "\<And>t. t \<notin> A \<Longrightarrow> scripts t = []"
  shows "\<exists>ts s'. run_threads ts s = Some s' \<and> all_done s'"
proof -
  have ex: "exclusive s" using assms(1) by (simp add: threads_inv_def)
  have sc: "script s t = drop (length (jobs_of t (history s) @ under_way t s)) (scripts t)" for t
    using assms(1) by (simp add: threads_inv_def)
  have rest: "script s t = []" if "t \<notin> A" for t using assms(4) [OF that] sc [of t] by simp
  have polite: "list_all polite (script s t)" for t
    using assms(2) [of t] by (simp add: sc list_all_iff) (meson in_set_dropD)
  show ?thesis
  proof (cases "mutex s")
    case None
    then show ?thesis using assms(3) rest polite by (rule scripts_complete [OF ex])
  next
    case (Some t)
    with ex have "inside s t \<noteq> None" by (simp add: exclusive_def)
    then obtain job stage where ow: "inside s t = Some (job, stage)" by fastforce
    obtain r m where "finish stage (map_contents s) = Some (r, m)"
      using owner_polite [OF assms(1) assms(2) ow] by blast
    let ?s = "s\<lparr>map_contents := m, mutex := None, inside := (inside s)(t := None), history := history s @ [(t, job, r)]\<rparr>"
    from owner_finishes [OF Some ow \<open>finish stage _ = _\<close>] obtain n where n: "run_threads (replicate n t) s = Some ?s" by blast
    have "exclusive ?s" using ex Some by (auto simp: exclusive_def)
    then have "\<exists>ts s'. run_threads ts ?s = Some s' \<and> all_done s'"
      by (rule scripts_complete [OF _ _ assms(3)]) (simp_all add: rest polite)
    then obtain ts s' where "run_threads ts ?s = Some s'" "all_done s'" by blast
    with n show ?thesis by (intro exI [of _ "replicate n t @ ts"] exI [of _ s']) (simp add: run_threads_append)
  qed
qed

section \<open>Properties\<close>

text \<open>
  C14: Threads on one map are equivalent to one thread. In every interleaving of any number of
  threads, each with its list of jobs (members, read-modify-write blocks through a
  \<open>locked_value\<close>, \<open>for_each\<close> with callbacks that may throw), running the jobs that have ended one
  after the other, in the order in which they ended, gives the same responses, and while no thread
  holds the mutex the same table; every thread has worked through its own jobs in order. If no
  callback calls the map, the threads, if finitely many, can complete all their jobs from there.
\<close>

theorem map_threads_linearizable:
  assumes "run_threads ts (new_map_threads m0 scripts) = Some s"
  shows "(\<exists>m. one_by_one (map (fst \<circ> snd) (history s)) m0 = Some (map (snd \<circ> snd) (history s), m) \<and>
        (mutex s = None \<longrightarrow> map_contents s = m)) \<and>
    scripts t = jobs_of t (history s) @ under_way t s @ script s t \<and>
    ((\<forall>u. list_all polite (scripts u)) \<and> finite {u. scripts u \<noteq> []} \<longrightarrow>
       (\<exists>us s'. run_threads us s = Some s' \<and> all_done s'))"
proof -
  have inv: "threads_inv m0 scripts s" by (rule run_threads_inv [OF assms new_map_threads_inv])
  then obtain m where "one_by_one (map (fst \<circ> snd) (history s)) m0 = Some (map (snd \<circ> snd) (history s), m)"
    "mutex s = None \<longrightarrow> map_contents s = m"
    by (auto simp: threads_inv_def)
  moreover have "scripts t = jobs_of t (history s) @ under_way t s @ script s t"
    using inv by (simp add: threads_inv_def)
  moreover have "\<exists>us s'. run_threads us s = Some s' \<and> all_done s'"
    if "\<forall>u. list_all polite (scripts u)" "finite {u. scripts u \<noteq> []}"
    using that by (intro threads_complete [OF inv, of "{u. scripts u \<noteq> []}"]) auto
  ultimately show ?thesis by (intro conjI exI [of _ m] impI) (elim conjE, assumption | simp)+
qed

lemma map_threads_linearizable_witness:
  "\<exists>s. run_threads [0, 0, 1, 1, 1, 1, 0] (new_map_threads [(''k'', 1 :: int)]
       (\<lambda>t. if t = 0 then [Run (M_insert ''x'' 7), Run (M_get ''k''), Run M_size]
            else if t = 1 then [With_locked ''k'' (\<lambda>v. v + 1)] else [])) = Some s \<and>
     one_by_one (map (fst \<circ> snd) (history s)) [(''k'', 1)] = Some (map (snd \<circ> snd) (history s), map_contents s)"
proof -
  let ?scripts = "\<lambda>t :: nat. if t = 0 then [Run (M_insert ''x'' 7), Run (M_get ''k''), Run M_size]
            else if t = 1 then [With_locked ''k'' (\<lambda>v. v + 1)] else []"
  have "\<exists>s. run_threads [0, 0, 1, 1, 1, 1, 0] (new_map_threads [(''k'', 1 :: int)] ?scripts) = Some s \<and> mutex s = None"
    by (simp add: map_thread_step_def new_map_threads_def get_locked_def unlocked_def new_locked_value_def deref_def
        map_insert_def get_def map_size_def Let_def)
  then obtain s where s: "run_threads [0, 0, 1, 1, 1, 1, 0] (new_map_threads [(''k'', 1 :: int)] ?scripts) = Some s"
    "mutex s = None" by blast
  from map_threads_linearizable [OF s(1)] s show ?thesis by auto
qed

text \<open>Blocks that add to one element.\<close>

abbreviation adds :: "'k \<Rightarrow> int list \<Rightarrow> ('k, int) job list" where
  "adds key ds \<equiv> map (\<lambda>d. With_locked key (\<lambda>v. v + d)) ds"

text \<open>What a block adds, read off its effect on 0.\<close>

fun amount :: "('k, int) job \<Rightarrow> int" where
  "amount (With_locked key f) = f 0"
| "amount _ = 0"

lemma one_by_one_adds:
  assumes "one_by_one js m = Some (rs, m')" "map_of m key = Some v"
    and "\<And>j. j \<in> set js \<Longrightarrow> \<exists>d. j = With_locked key (\<lambda>v. v + d)"
  shows "map_of m' key = Some (v + sum_list (map amount js))"
  using assms
proof (induction js arbitrary: m v rs)
  case (Cons j js)
  obtain d where j: "j = With_locked key (\<lambda>v. v + d)" using Cons.prems(3) by auto
  with Cons.prems(1,2) obtain rs' where "one_by_one js (AList.update key (v + d) m) = Some (rs', m')" by auto
  from Cons.IH [OF this, of "v + d"] Cons.prems(3) j show ?case by (simp add: update_conv' add.assoc)
qed simp

lemma sum_by_thread:
  fixes a :: "('k, 'v) job \<Rightarrow> int"
  assumes "\<And>e. e \<in> set h \<Longrightarrow> fst e < (n :: nat)"
  shows "sum_list (map (a \<circ> (fst \<circ> snd)) h) = (\<Sum>t<n. sum_list (map a (jobs_of t h)))"
  using assms
proof (induction h)
  case (Cons e h)
  have "(\<Sum>t<n. sum_list (map a (jobs_of t (e # h)))) =
      (\<Sum>t<n. (if t = fst e then a (fst (snd e)) else 0) + sum_list (map a (jobs_of t h)))"
    by (rule sum.cong) (auto simp: jobs_of_def)
  with Cons show ?case by (simp add: sum.distrib)
qed (simp add: jobs_of_def)

lemma adds_all_counted:
  assumes "run_threads ts (new_map_threads m0 scripts) = Some s" and "all_done s"
    and "\<forall>t. scripts t = (if t < n then adds key (deltas t) else [])" and "map_of m0 key = Some v"
  shows "map_of (map_contents s) key = Some (v + (\<Sum>t<n. sum_list (deltas t)))"
proof -
  have inv: "threads_inv m0 scripts s" by (rule run_threads_inv [OF assms(1) new_map_threads_inv])
  have jobs: "jobs_of t (history s) = (if t < n then adds key (deltas t) else [])" for t
    using inv assms(2,3) by (simp add: threads_inv_def under_way_def all_done_def)
  have hist: "fst e < n \<and> (\<exists>d. fst (snd e) = With_locked key (\<lambda>v. v + d))" if "e \<in> set (history s)" for e
  proof -
    have "fst (snd e) \<in> set (jobs_of (fst e) (history s))" using that by (auto simp: jobs_of_def)
    with jobs [of "fst e"] show ?thesis by (auto split: if_splits)
  qed
  from inv assms(2) have run: "one_by_one (map (fst \<circ> snd) (history s)) m0 = Some (map (snd \<circ> snd) (history s), map_contents s)"
    by (auto simp: threads_inv_def all_done_def)
  have "map_of (map_contents s) key = Some (v + sum_list (map amount (map (fst \<circ> snd) (history s))))"
    by (rule one_by_one_adds [OF run assms(4)]) (use hist in auto)
  moreover have "sum_list (map (amount \<circ> (fst \<circ> snd)) (history s)) = (\<Sum>t<n. sum_list (map amount (jobs_of t (history s))))"
    using hist by (intro sum_by_thread) blast
  moreover have "\<dots> = (\<Sum>t<n. sum_list (deltas t))" by (rule sum.cong) (simp_all add: jobs o_def)
  ultimately show ?thesis by (simp add: o_assoc)
qed

text \<open>
  Jobs that touch an element only through a \<open>locked_value\<close>, and what such a job makes of its value:
  the block's function when the block is for this key. Other members and callbacks may do anything
  to other elements and read this one.
\<close>

fun spares_call :: "'k \<Rightarrow> ('k, 'v) map_call \<Rightarrow> bool" where
  "spares_call key (M_insert k v) = (k \<noteq> key)"
| "spares_call key (M_erase k) = (k \<noteq> key)"
| "spares_call key (M_extract k) = (k \<noteq> key)"
| "spares_call key M_clear = False"
| "spares_call key (M_for_each f) = (\<forall>v. f key v = v)"
| "spares_call key _ = True"

fun spares :: "'k \<Rightarrow> ('k, 'v) job \<Rightarrow> bool" where
  "spares key (Run c) = spares_call key c"
| "spares key (Visit_all g) = (\<forall>v. g key v = Visited v \<or> g key v = Threw v)"
| "spares key _ = True"

fun effect :: "'k \<Rightarrow> ('k, 'v) job \<Rightarrow> 'v \<Rightarrow> 'v" where
  "effect key (With_locked k f) = (if k = key then f else id)"
| "effect key (With_emplaced k v f) = (if k = key then f else id)"
| "effect key _ = id"

text \<open>A block for the key, which answers the value it has read.\<close>

fun updates :: "'k \<Rightarrow> ('k, 'v) job \<Rightarrow> bool" where
  "updates key (With_locked k f) = (k = key)"
| "updates key (With_emplaced k v f) = (k = key)"
| "updates key _ = False"

lemma visit_table_spares:
  assumes "visit_table g m = Some (b, m')" "\<forall>v. g key v = Visited v \<or> g key v = Threw v"
  shows "map_of m' key = map_of m key"
  using assms
proof (induction g m arbitrary: b m' rule: visit_table.induct)
  case (2 g k v rest)
  then show ?case by (auto split: visit.splits) (metis visit.inject visit.distinct(1))+
qed simp

lemma atomic_job_effect:
  assumes "atomic_job job m = Some (r, m')" "spares key job" "map_of m key = Some v"
  shows "map_of m' key = Some (effect key job v)" and "updates key job \<Longrightarrow> r = A_found False v"
proof -
  show "map_of m' key = Some (effect key job v)"
  proof (cases job)
    case (Run c)
    with assms show ?thesis
      by (cases c) (auto simp: map_insert_def emplace_def try_emplace_def get_def try_get_def erase_def map_extract_def
          for_each_map_of update_conv' delete_conv' split: option.splits prod.splits)
  next
    case (Visit_all g)
    with assms visit_table_spares [of g m _ m' key] show ?thesis by (auto simp: map_prod_def)
  qed (use assms in \<open>auto simp: update_conv' split: option.splits if_splits\<close>)
  show "r = A_found False v" if "updates key job" using that assms by (cases job) auto
qed

lemma one_by_one_updates:
  assumes "one_by_one js m = Some (rs, m')" "list_all (spares key) js" "map_of m key = Some v"
  shows "map_of m' key = Some (fold (effect key) js v) \<and>
    (\<forall>i < length js. updates key (js ! i) \<longrightarrow> rs ! i = A_found False (fold (effect key) (take i js) v))"
  using assms
proof (induction js arbitrary: m v rs)
  case (Cons j js)
  from Cons.prems(1) obtain r m1 rs' where j: "atomic_job j m = Some (r, m1)"
    and js: "one_by_one js m1 = Some (rs', m')" and rs: "rs = r # rs'"
    by (auto simp: bind_eq_Some_conv)
  have "spares key j" "list_all (spares key) js" using Cons.prems(2) by simp_all
  note e = atomic_job_effect [OF j \<open>spares key j\<close> Cons.prems(3)]
  from Cons.IH [OF js \<open>list_all (spares key) js\<close> e(1)] e(2) rs show ?case
    by (auto simp: nth_Cons split: nat.splits)
qed simp

text \<open>
  C21: No update through a \<open>locked_value\<close> is lost. Any number of threads run jobs, among them blocks
  that lock an element with \<open>get_locked\<close> or \<open>try_emplace_locked\<close>, read it, are held up for as long as
  it takes and write back any function of what they read; no other job writes that element. Then
  in every interleaving, whenever the mutex is free, the element is its first value with the
  functions of all the blocks that have ended applied one after the other, each block has read
  exactly what the blocks before it left, and the blocks of each thread have run in its order, with
  only those missing that it has not begun.
\<close>

theorem locked_updates_not_lost:
  assumes "run_threads ts (new_map_threads m0 scripts) = Some s" and "mutex s = None"
    and "\<forall>t. list_all (spares key) (scripts t)" and "map_of m0 key = Some v"
  shows "map_of (map_contents s) key = Some (fold (effect key) (map (fst \<circ> snd) (history s)) v) \<and>
    (\<forall>i < length (history s). updates key (fst (snd (history s ! i))) \<longrightarrow>
       snd (snd (history s ! i)) = A_found False (fold (effect key) (map (fst \<circ> snd) (take i (history s))) v)) \<and>
    (\<forall>t. scripts t = jobs_of t (history s) @ script s t)"
proof -
  have inv: "threads_inv m0 scripts s" by (rule run_threads_inv [OF assms(1) new_map_threads_inv])
  then have ex: "exclusive s" and run: "one_by_one (map (fst \<circ> snd) (history s)) m0 =
      Some (map (snd \<circ> snd) (history s), map_contents s)"
    using assms(2) by (auto simp: threads_inv_def)
  have jobs: "scripts t = jobs_of t (history s) @ script s t" for t
    using inv exclusive_free [OF ex assms(2)] by (simp add: threads_inv_def under_way_def)
  have "spares key (fst (snd e))" if "e \<in> set (history s)" for e
  proof -
    have "fst (snd e) \<in> set (jobs_of (fst e) (history s))" using that by (auto simp: jobs_of_def)
    then show ?thesis using assms(3) by (auto simp: jobs list_all_iff)
  qed
  then have "list_all (spares key) (map (fst \<circ> snd) (history s))" by (simp add: list_all_iff)
  from one_by_one_updates [OF run this assms(4)] jobs show ?thesis by (simp add: take_map)
qed

lemma locked_updates_not_lost_witness:
  "\<exists>s. run_threads [0, 0, 0, 0, 1, 1, 1, 1, 0, 0, 0, 0]
       (new_map_threads [(''n'', 5 :: int)] (\<lambda>t. if t = 0 then [With_locked ''n'' (\<lambda>v. v + 1), With_locked ''n'' (\<lambda>v. v * 3)]
          else if t = 1 then [With_emplaced ''n'' 0 (\<lambda>v. v - 10)] else [])) = Some s \<and>
     map_of (map_contents s) ''n'' = Some (- 12)"
proof -
  let ?add = "With_locked ''n'' (\<lambda>v. v + 1 :: int)" and ?sub = "With_emplaced ''n'' 0 (\<lambda>v. v - 10)"
    and ?times = "With_locked ''n'' (\<lambda>v. v * 3)"
  let ?scripts = "\<lambda>t :: nat. if t = 0 then [?add, ?times] else if t = 1 then [?sub] else []"
  have "map_option (\<lambda>s. (mutex s, fold (effect ''n'') (map (fst \<circ> snd) (history s)) 5))
      (run_threads [0, 0, 0, 0, 1, 1, 1, 1, 0, 0, 0, 0] (new_map_threads [(''n'', 5)] ?scripts)) = Some (None, - 12)"
    by code_simp
  then obtain s where s: "run_threads [0, 0, 0, 0, 1, 1, 1, 1, 0, 0, 0, 0] (new_map_threads [(''n'', 5)] ?scripts) = Some s"
    "mutex s = None" "fold (effect ''n'') (map (fst \<circ> snd) (history s)) 5 = - 12" by auto
  have "map_of (map_contents s) ''n'' = Some (fold (effect ''n'') (map (fst \<circ> snd) (history s)) 5)"
    by (rule conjunct1 [OF locked_updates_not_lost [OF s(1,2)]]) auto
  with s(1,3) show ?thesis by simp
qed

lemma visiting_freezes:
  assumes "mutex s = Some t" "inside s = [t \<mapsto> (job, Visiting g n)]" "visit_table g (drop n (map_contents s)) = None"
  shows "\<exists>k s'. run_threads (replicate k t) s = Some s' \<and> (\<forall>u. map_thread_step u s' = None)"
  using assms
proof (induction "length (map_contents s) - n" arbitrary: s n)
  case 0
  then show ?case by simp
next
  case (Suc left)
  obtain key v where e: "map_contents s ! n = (key, v)" by (cases "map_contents s ! n")
  have n: "n < length (map_contents s)" using Suc.hyps(2) by simp
  then have d: "drop n (map_contents s) = (key, v) # drop (Suc n) (map_contents s)" by (simp add: e Cons_nth_drop_Suc [symmetric])
  show ?case
  proof (cases "g key v")
    case (Visited v')
    let ?s = "s\<lparr>map_contents := (map_contents s)[n := (key, v')], inside := [t \<mapsto> (job, Visiting g (Suc n))]\<rparr>"
    have "map_thread_step t s = Some ?s" using Suc.prems(2) n e Visited by (simp add: map_thread_step_def)
    moreover have "\<exists>k s'. run_threads (replicate k t) ?s = Some s' \<and> (\<forall>u. map_thread_step u s' = None)"
      using Suc.hyps(2) Suc.prems(1,3) d Visited by (intro Suc.hyps(1)) auto
    then obtain k s' where "run_threads (replicate k t) ?s = Some s'" "\<forall>u. map_thread_step u s' = None" by blast
    ultimately show ?thesis by (intro exI [of _ "Suc k"] exI [of _ s']) simp
  next
    case (Threw v')
    with Suc.prems(3) d show ?thesis by simp
  next
    case Calls_map
    with Suc.prems(1,2) n e have "map_thread_step u s = None" for u by (simp add: map_thread_step_def split: list.splits)
    then show ?thesis by (intro exI [of _ 0] exI [of _ s]) simp
  qed
qed

text \<open>
  A callback that calls the map freezes it. When a thread calls \<open>for_each\<close> with a callback
  that, for an element it comes to, calls a member of the same map, the thread waits for the mutex
  it holds: it gets there by its own steps, and from then on no thread that works on the map has a
  step, whatever its jobs.
\<close>

theorem reentrant_callback_freezes_map:
  assumes "exclusive s" and "mutex s = None" and "script s t = Visit_all g # rest" and "visit_table g (map_contents s) = None"
  shows "\<exists>k s'. run_threads (replicate k t) s = Some s' \<and> (\<forall>u. map_thread_step u s' = None)"
proof -
  let ?s = "s\<lparr>script := (script s)(t := rest), mutex := Some t, inside := [t \<mapsto> (Visit_all g, Visiting g 0)]\<rparr>"
  have "inside s = Map.empty" using exclusive_free [OF assms(1,2)] by auto
  then have "map_thread_step t s = Some ?s" using assms(2,3) by (simp add: map_thread_step_def Let_def)
  moreover obtain k s' where "run_threads (replicate k t) ?s = Some s'" "\<forall>u. map_thread_step u s' = None"
    using visiting_freezes [of ?s t "Visit_all g" g 0] assms(4) by auto
  ultimately show ?thesis by (intro exI [of _ "Suc k"] exI [of _ s']) simp
qed

lemma reentrant_callback_freezes_map_witness:
  "\<exists>k s'. run_threads (replicate k 0)
       (new_map_threads [(1 :: nat, ''a'')] (\<lambda>t. if t = 0 then [Visit_all (\<lambda>key v. Calls_map)] else [Run M_size])) = Some s' \<and>
     (\<forall>u. map_thread_step u s' = None)"
  by (rule reentrant_callback_freezes_map [of _ 0 "\<lambda>key v. Calls_map" "[]"]) (simp_all add: new_map_threads_def exclusive_def)

end
