(* ===== verification/Ieee_Double.thy ===== *)
theory Ieee_Double
  imports Complex_Main
begin

text \<open>
  Rounding to the numbers of the IEEE 754 binary64 format, the \<open>double\<close> of the platforms the
  library targets: to the nearest number, ties to the one with an even last bit, with subnormal
  numbers below \<open>2 ^ - 1022\<close> and as if the exponent had no upper bound (overflow is dealt with where
  the result is used). Shown: it is monotone, keeps the numbers of the format, and its error is
  relative to the result in the normal range and at most \<open>2 ^ - 1075\<close> below it.
\<close>

section \<open>To the nearest integer\<close>

definition round_half_even :: "real \<Rightarrow> int" where
  "round_half_even x =
     (let f = \<lfloor>x\<rfloor> in
      if x - of_int f < 1 / 2 then f
      else if 1 / 2 < x - of_int f then f + 1
      else if even f then f else f + 1)"

lemma round_half_even_of_int [simp]: "round_half_even (of_int i) = i"
  by (simp add: round_half_even_def)

lemma round_half_even_between: "\<lfloor>x\<rfloor> \<le> round_half_even x" "round_half_even x \<le> \<lfloor>x\<rfloor> + 1"
  by (simp_all add: round_half_even_def Let_def)

lemma round_half_even_error: "\<bar>of_int (round_half_even x) - x\<bar> \<le> 1 / 2"
  by (simp add: round_half_even_def Let_def)

lemma round_half_even_mono:
  assumes "x \<le> y"
  shows "round_half_even x \<le> round_half_even y"
proof (cases "\<lfloor>x\<rfloor> = \<lfloor>y\<rfloor>")
  case True
  with assms show ?thesis by (simp add: round_half_even_def Let_def)
next
  case False
  with floor_mono [OF assms] have "\<lfloor>x\<rfloor> + 1 \<le> \<lfloor>y\<rfloor>" by simp
  with round_half_even_between [of x] round_half_even_between [of y] show ?thesis by linarith
qed

section \<open>To the nearest double\<close>

text \<open>The exponent of the last bit of a positive number: 53 bits, and never below \<open>- 1074\<close>.\<close>

definition last_bit :: "real \<Rightarrow> int" where
  "last_bit x = max (\<lfloor>log 2 x\<rfloor> - 52) (- 1074)"

definition pos_double :: "real \<Rightarrow> real" where
  "pos_double x = of_int (round_half_even (x / 2 powr last_bit x)) * 2 powr last_bit x"

definition ieee_double :: "real \<Rightarrow> real" where
  "ieee_double x = (if x = 0 then 0 else if 0 < x then pos_double x else - pos_double (- x))"

definition largest_double :: real where
  "largest_double = (2 - 1 / 2 ^ 52) * 2 ^ 1023"

text \<open>The relative error in the normal range, and the error of subnormal numbers.\<close>

definition unit_roundoff :: real where
  "unit_roundoff = 1 / 2 ^ 53"

definition subnormal_error :: real where
  "subnormal_error = 2 powr - 1075"

lemma last_bit_bounds:
  assumes "0 < x"
  shows "x < 2 powr (last_bit x + 53)" and "last_bit x \<noteq> - 1074 \<Longrightarrow> 2 powr (last_bit x + 52) \<le> x"
    and "- 1074 \<le> last_bit x"
proof -
  have l: "2 powr \<lfloor>log 2 x\<rfloor> \<le> x" "x < 2 powr (\<lfloor>log 2 x\<rfloor> + 1)"
    using floor_log_eq_powr_iff [of x 2 "\<lfloor>log 2 x\<rfloor>"] assms by simp_all
  have "2 powr (\<lfloor>log 2 x\<rfloor> + 1) \<le> (2 :: real) powr (last_bit x + 53)" by (rule powr_mono) (simp_all add: last_bit_def)
  with l(2) show "x < 2 powr (last_bit x + 53)" by linarith
  show "2 powr (last_bit x + 52) \<le> x" if "last_bit x \<noteq> - 1074"
    using that l(1) by (simp add: last_bit_def max_def split: if_splits)
  show "- 1074 \<le> last_bit x" by (simp add: last_bit_def)
qed

lemma last_bit_mono: "0 < x \<Longrightarrow> x \<le> y \<Longrightarrow> last_bit x \<le> last_bit y"
proof -
  assume "0 < x" "x \<le> y"
  then have "\<lfloor>log 2 x\<rfloor> \<le> \<lfloor>log 2 y\<rfloor>" by (intro floor_mono) simp
  then show ?thesis by (simp add: last_bit_def)
qed

text \<open>A number that is a multiple of its last bit is kept.\<close>

lemma pos_double_exact:
  assumes "x = of_int k * 2 powr of_int j" "last_bit x \<le> j"
  shows "pos_double x = x"
proof -
  let ?n = "nat (j - last_bit x)"
  have "2 powr of_int j / 2 powr of_int (last_bit x) = (2 :: real) powr of_int (j - last_bit x)"
    by (simp add: powr_diff)
  also have "\<dots> = 2 powr real ?n" using assms(2) by simp
  also have "\<dots> = 2 ^ ?n" by (simp add: powr_realpow)
  finally have "x / 2 powr last_bit x = of_int (k * 2 ^ ?n)" by (subst assms(1)) (simp flip: times_divide_eq_right)
  then show ?thesis by (simp only: pos_double_def round_half_even_of_int) (simp add: divide_eq_eq flip: \<open>x / _ = _\<close>)
qed

lemma pos_double_le_power:
  assumes "x \<le> of_int k * 2 powr of_int (last_bit x)"
  shows "pos_double x \<le> of_int k * 2 powr of_int (last_bit x)"
proof -
  have "x / 2 powr last_bit x \<le> of_int k" using assms by (simp add: pos_divide_le_eq)
  from round_half_even_mono [OF this] have "of_int (round_half_even (x / 2 powr last_bit x)) \<le> real_of_int k" by simp
  then show ?thesis unfolding pos_double_def by (rule mult_right_mono) simp
qed

lemma pos_double_ge_power:
  assumes "of_int k * 2 powr of_int (last_bit x) \<le> x"
  shows "of_int k * 2 powr of_int (last_bit x) \<le> pos_double x"
proof -
  have "of_int k \<le> x / 2 powr last_bit x" using assms by (simp add: pos_le_divide_eq)
  from round_half_even_mono [OF this] have "real_of_int k \<le> of_int (round_half_even (x / 2 powr last_bit x))" by simp
  then show ?thesis unfolding pos_double_def by (rule mult_right_mono) simp
qed

lemma pos_double_nonneg: "0 < x \<Longrightarrow> 0 \<le> pos_double x"
  using pos_double_ge_power [of 0 x] by simp

lemma pos_double_mono:
  assumes "0 < x" "x \<le> y"
  shows "pos_double x \<le> pos_double y"
proof (cases "last_bit x = last_bit y")
  case True
  have "x / 2 powr last_bit y \<le> y / 2 powr last_bit y" using assms(2) by (simp add: divide_right_mono)
  then have "round_half_even (x / 2 powr last_bit y) \<le> round_half_even (y / 2 powr last_bit y)"
    by (rule round_half_even_mono)
  then show ?thesis unfolding pos_double_def True by (intro mult_right_mono) simp_all
next
  case False
  have less: "last_bit x < last_bit y" using False last_bit_mono [OF assms] by simp
  have y: "0 < y" using assms by simp
  have split: "2 powr (last_bit z + real n) = of_int (2 ^ n) * 2 powr of_int (last_bit z)" for z n
    by (simp add: powr_add powr_realpow)
  have "pos_double x \<le> of_int (2 ^ 53) * 2 powr of_int (last_bit x)"
    by (rule pos_double_le_power) (use last_bit_bounds(1) [OF assms(1)] split [of x 53] in simp)
  also have "\<dots> = 2 powr (last_bit x + 53)" using split [of x 53] by simp
  also have "\<dots> \<le> 2 powr (last_bit y + 52)" using less by (intro powr_mono) simp_all
  also have "\<dots> = of_int (2 ^ 52) * 2 powr of_int (last_bit y)" using split [of y 52] by simp
  also have "\<dots> \<le> pos_double y"
  proof (rule pos_double_ge_power)
    have "last_bit y \<noteq> - 1074" using less last_bit_bounds(3) [OF assms(1)] by simp
    from last_bit_bounds(2) [OF y this] split [of y 52]
    show "of_int (2 ^ 52) * 2 powr of_int (last_bit y) \<le> y" by simp
  qed
  finally show ?thesis .
qed

section \<open>What rounding guarantees\<close>

lemma ieee_double_zero [simp]: "ieee_double 0 = 0"
  by (simp add: ieee_double_def)

lemma ieee_double_mono: "mono ieee_double"
proof (rule monoI)
  fix x y :: real
  assume "x \<le> y"
  then show "ieee_double x \<le> ieee_double y"
    using pos_double_mono [of x y] pos_double_mono [of "- y" "- x"] pos_double_nonneg [of y] pos_double_nonneg [of "- x"]
    by (auto simp: ieee_double_def)
qed

lemma pos_double_error: "\<bar>pos_double x - x\<bar> \<le> 2 powr last_bit x / 2"
proof -
  have "pos_double x - x = (of_int (round_half_even (x / 2 powr last_bit x)) - x / 2 powr last_bit x) * 2 powr last_bit x"
    by (simp add: pos_double_def left_diff_distrib)
  then have "\<bar>pos_double x - x\<bar> = \<bar>of_int (round_half_even (x / 2 powr last_bit x)) - x / 2 powr last_bit x\<bar> * 2 powr last_bit x"
    by (simp add: abs_mult)
  also have "\<dots> \<le> 1 / 2 * 2 powr last_bit x" by (intro mult_right_mono round_half_even_error) simp
  finally show ?thesis by simp
qed

text \<open>The normal range: the error is at most one part in \<open>2 ^ 53\<close>.\<close>

lemma ieee_double_normal:
  assumes "2 powr - 1022 \<le> x"
  shows "ieee_double x \<le> (1 + unit_roundoff) * x"
proof -
  have x: "0 < x" using less_le_trans [OF _ assms, of 0] by simp
  have "- 1022 \<le> log 2 x" using assms x by (simp add: le_log_iff)
  then have "last_bit x = \<lfloor>log 2 x\<rfloor> - 52" by (simp add: last_bit_def max_def) linarith
  moreover have "2 powr \<lfloor>log 2 x\<rfloor> \<le> x" using floor_log_eq_powr_iff [of x 2 "\<lfloor>log 2 x\<rfloor>"] x by simp
  moreover have "2 powr (\<lfloor>log 2 x\<rfloor> - 52) = 2 powr \<lfloor>log 2 x\<rfloor> / (2 ^ 52 :: real)" by (simp add: powr_diff)
  ultimately have "2 powr last_bit x \<le> x / 2 ^ 52" by (simp add: divide_right_mono)
  then have "2 powr last_bit x / 2 \<le> x / 2 ^ 52 / 2" by (rule divide_right_mono) simp
  with abs_le_D1 [OF pos_double_error [of x]] have "pos_double x \<le> x + x / 2 ^ 52 / 2" by linarith
  with x show ?thesis by (simp add: ieee_double_def unit_roundoff_def field_simps)
qed

lemma ieee_double_error:
  assumes "0 \<le> x"
  shows "ieee_double x \<le> (1 + unit_roundoff) * x + subnormal_error"
proof (cases "2 powr - 1022 \<le> x")
  case True
  with ieee_double_normal [OF True] show ?thesis by (simp add: subnormal_error_def add_increasing2)
next
  case False
  show ?thesis
  proof (cases "x = 0")
    case False
    with assms have x: "0 < x" by simp
    with \<open>\<not> 2 powr - 1022 \<le> x\<close> have "log 2 x < - 1022" by (simp add: log_less_iff)
    then have "last_bit x = - 1074" by (simp add: last_bit_def max_def) linarith
    moreover have "2 powr - 1074 / 2 = (2 :: real) powr - 1075" using powr_diff [of "2 :: real" "- 1074" 1] by simp
    ultimately have "pos_double x \<le> x + subnormal_error"
      using pos_double_error [of x] by (simp add: subnormal_error_def)
    moreover have "0 \<le> unit_roundoff * x" using x by (simp add: unit_roundoff_def)
    ultimately show ?thesis using x by (simp add: ieee_double_def distrib_right)
  qed (simp add: subnormal_error_def)
qed

text \<open>Natural numbers below \<open>2 ^ 53\<close>, and powers of two, are doubles.\<close>

lemma ieee_double_nat:
  assumes "n < 2 ^ 53"
  shows "ieee_double (real n) = real n"
proof (cases "n = 0")
  case False
  have "real n < 2 ^ 53" using assms by (metis of_nat_less_iff of_nat_numeral of_nat_power)
  then have "log 2 (real n) < 53" using False by (simp add: log_less_iff powr_realpow)
  then have "last_bit (real n) \<le> 0" by (simp add: last_bit_def)
  with pos_double_exact [of "real n" "int n" 0] False show ?thesis by (simp add: ieee_double_def)
qed simp

lemma ieee_double_power: "ieee_double (2 ^ n) = 2 ^ n"
proof -
  have l: "last_bit (2 ^ n) \<le> int n" by (simp add: last_bit_def)
  have "(2 :: real) ^ n = of_int 1 * 2 powr of_int (int n)" by (simp add: powr_realpow)
  from pos_double_exact [OF this l] show ?thesis by (simp add: ieee_double_def)
qed

end
