(* ===== verification/Limiter_Rounding.thy ===== *)
theory Limiter_Rounding
  imports Rate_Limiter Ieee_Double
begin

text \<open>
  The rate limit of \<open>network/security/rate_limiter.hpp\<close> under floating-point rounding. Each
  operation rounds once (no contraction to a fused multiply-add), with an upward error of at most
  \<open>u\<close> times the result plus \<open>eta\<close> for results in the subnormal range; for \<open>double\<close> these are
  \<open>2 ^ - 53\<close> and \<open>2 ^ - 1075\<close>, by \<open>Ieee_Double\<close>. The limiter still enforces its limit up to a term that
  grows with the number of requests: a potential function carries the argument through refills,
  charges and cleanups.
\<close>

section \<open>Rounding error\<close>

text \<open>The times the limiter computes with are 0 or at least a nanosecond, far from the subnormal range.\<close>

definition machine_rounding :: "real \<Rightarrow> real \<Rightarrow> (real \<Rightarrow> real) \<Rightarrow> bool" where
  "machine_rounding u eta fl \<longleftrightarrow> rounding fl \<and> 0 \<le> u \<and> 0 \<le> eta \<and> fl 1 = 1 \<and>
     (\<forall>x \<ge> 0. fl x \<le> (1 + u) * x + eta) \<and> (\<forall>x \<ge> 1 / 10 ^ 9. fl x \<le> (1 + u) * x)"

lemma machine_roundingD:
  assumes "machine_rounding u eta fl"
  shows "0 \<le> u" "0 \<le> eta" "rounding fl" "fl 1 = 1"
    "0 \<le> x \<Longrightarrow> fl x \<le> (1 + u) * x + eta" "1 / 10 ^ 9 \<le> x \<Longrightarrow> fl x \<le> (1 + u) * x"
  using assms unfolding machine_rounding_def by blast+

lemma machine_rounding_ieee: "machine_rounding unit_roundoff subnormal_error ieee_double"
proof -
  have "(2 :: real) powr - 1022 \<le> 2 powr - 30" by (intro powr_mono) simp_all
  also have "\<dots> = 1 / 2 ^ 30" by (simp add: powr_neg_numeral)
  also have "\<dots> \<le> 1 / 10 ^ 9" by simp
  finally have "ieee_double x \<le> (1 + unit_roundoff) * x" if "1 / 10 ^ 9 \<le> x" for x
    using that ieee_double_normal [of x] by linarith
  moreover have "0 \<le> unit_roundoff" "0 \<le> subnormal_error" by (simp_all add: unit_roundoff_def subnormal_error_def)
  moreover have "ieee_double 1 = 1" using ieee_double_power [of 0] by simp
  ultimately show ?thesis
    unfolding machine_rounding_def rounding_def using ieee_double_error ieee_double_mono ieee_double_zero by blast
qed

lemma fl_le:
  assumes "machine_rounding u eta fl" "0 \<le> x" "x \<le> y"
  shows "fl x \<le> (1 + u) * y + eta"
proof -
  have "(1 + u) * x \<le> (1 + u) * y"
    using machine_roundingD(1) [OF assms(1)] by (intro mult_left_mono assms(3)) simp
  with machine_roundingD(5) [OF assms(1,2)] show ?thesis by linarith
qed

lemma fl_le_plus:
  assumes "machine_rounding u eta fl" "0 \<le> x" "x \<le> m"
  shows "fl x \<le> x + u * m + eta"
  using machine_roundingD(5) [OF assms(1,2)] mult_left_mono [OF assms(3) machine_roundingD(1) [OF assms(1)]]
  by (simp add: algebra_simps)

lemma duration_seconds_bounds:
  assumes "machine_rounding u eta fl" "0 \<le> d"
  shows "0 \<le> duration_seconds fl d" "duration_seconds fl d \<le> (1 + u) ^ 2 * seconds d"
proof -
  note m = machine_roundingD [OF assms(1)]
  have d: "0 \<le> fl (of_int d)" using assms(2) by (intro rounding_nonneg [OF m(3)]) simp
  then show "0 \<le> duration_seconds fl d"
    unfolding duration_seconds_def by (intro rounding_nonneg [OF m(3)]) simp
  show "duration_seconds fl d \<le> (1 + u) ^ 2 * seconds d"
  proof (cases "d = 0")
    case True
    with m(3) show ?thesis by (simp add: duration_seconds_def rounding_def)
  next
    case False
    with assms(2) have d1: "1 \<le> real_of_int d" by simp
    then have "1 \<le> fl (of_int d)" using m(3,4) monoD [of fl 1 "of_int d"] by (simp add: rounding_def)
    then have "duration_seconds fl d \<le> (1 + u) * (fl (of_int d) / 10 ^ 9)"
      unfolding duration_seconds_def by (intro m(6)) simp
    also have "\<dots> \<le> (1 + u) * ((1 + u) * seconds d)"
      using m(1) m(6) [of "of_int d"] d1 by (intro mult_left_mono) (simp_all add: divide_right_mono)
    finally show ?thesis by (simp add: power2_eq_square)
  qed
qed

text \<open>What a refill adds: four operations on the elapsed time, one of them on the old tokens too.\<close>

lemma refill_bound:
  assumes "machine_rounding u eta fl" "0 \<le> d" "0 \<le> rate" "0 \<le> tk" "tk \<le> m"
  shows "fl (tk + fl (duration_seconds fl d * rate)) \<le> tk + u * m + (1 + u) ^ 4 * seconds d * rate + (2 + u) * eta"
proof -
  note e = duration_seconds_bounds [OF assms(1,2)] and u = machine_roundingD(1) [OF assms(1)]
    and nonneg = rounding_nonneg [OF machine_roundingD(3) [OF assms(1)]]
  have prod: "0 \<le> duration_seconds fl d * rate" using e(1) assms(3) by simp
  have r: "fl (duration_seconds fl d * rate) \<le> (1 + u) * ((1 + u) ^ 2 * seconds d * rate) + eta"
    by (rule fl_le [OF assms(1) prod]) (intro mult_right_mono e(2) assms(3))
  have "fl (tk + fl (duration_seconds fl d * rate)) \<le> (1 + u) * (tk + ((1 + u) * ((1 + u) ^ 2 * seconds d * rate) + eta)) + eta"
    by (rule fl_le [OF assms(1)]) (use r nonneg [OF prod] assms(4) in simp_all)
  also have "\<dots> = tk + u * tk + (1 + u) ^ 4 * seconds d * rate + (2 + u) * eta"
    by (simp add: algebra_simps power4_eq_xxxx power2_eq_square)
  also have "u * tk \<le> u * m" by (intro mult_left_mono assms(5) u)
  finally show ?thesis by simp
qed

text \<open>What rounding can add to the tokens of an identifier in one of its requests.\<close>

definition request_error :: "real \<Rightarrow> real \<Rightarrow> real \<Rightarrow> real" where
  "request_error u eta mt = 2 * u * mt + (3 + u) * eta"

section \<open>The potential\<close>

text \<open>What an identifier could get out of the limiter at most, at a time.\<close>

definition potential :: "real \<Rightarrow> int \<Rightarrow> string \<Rightarrow> rate_limiter \<Rightarrow> real" where
  "potential u now i rl = (case map_of (requests rl) i of
       None \<Rightarrow> max_tokens rl
     | Some b \<Rightarrow> tokens b + (1 + u) ^ 4 * seconds (now - last_refill b) * refill_rate rl)"

lemma inv_bucket: "limiter_inv now rl \<Longrightarrow> map_of (requests rl) i = Some b \<Longrightarrow> bucket_ok (max_tokens rl) now b"
  by (auto simp: limiter_inv_def intro: list_all_map_of)

lemma potential_nonneg:
  assumes "0 \<le> u" "limiter_inv now rl"
  shows "0 \<le> potential u now i rl"
  using assms inv_bucket [OF assms(2), of i]
  by (auto simp: potential_def limiter_inv_def bucket_ok_def split: option.splits)

lemma potential_later:
  assumes "0 \<le> u" "limiter_inv now rl" "now \<le> later"
  shows "potential u later i rl + (1 + u) ^ 4 * seconds (final - later) * refill_rate rl \<le>
    potential u now i rl + (1 + u) ^ 4 * seconds (final - now) * refill_rate rl"
proof -
  have "0 \<le> (1 + u) ^ 4 * seconds (later - now) * refill_rate rl"
    using assms by (simp add: limiter_inv_def)
  then show ?thesis by (simp add: potential_def field_simps split: option.splits)
qed

lemma potential_consume_other:
  "j \<noteq> i \<Longrightarrow> potential u now i (snd (consume fl now j c rl)) = potential u now i rl"
  by (simp add: potential_def consume_def Let_def update_conv' split: option.splits)

lemma potential_consume:
  assumes "machine_rounding u eta fl" "limiter_inv now rl"
  shows "potential u now i (snd (consume fl now i c rl)) \<le>
    potential u now i rl - (if fst (consume fl now i c rl) then c else 0) + request_error u eta (max_tokens rl)"
proof -
  note m = machine_roundingD(1,2) [OF assms(1)]
  let ?um = "u * max_tokens rl"
  have err: "0 \<le> ?um" "0 \<le> u * eta" "request_error u eta (max_tokens rl) = 2 * ?um + 3 * eta + u * eta"
    using m assms(2) by (simp_all add: limiter_inv_def request_error_def algebra_simps)
  consider "c \<le> 0 \<or> c > max_tokens rl"
    | "0 < c" "c \<le> max_tokens rl" "map_of (requests rl) i = None"
    | b where "0 < c" "c \<le> max_tokens rl" "map_of (requests rl) i = Some b"
    by (cases "map_of (requests rl) i") fastforce+
  then show ?thesis
  proof cases
    case 2
    have "fl (max_tokens rl - c) \<le> max_tokens rl - c + ?um + eta"
      using 2 by (intro fl_le_plus [OF assms(1)]) simp_all
    moreover have "potential u now i (snd (consume fl now i c rl)) = fl (max_tokens rl - c)"
        "potential u now i rl = max_tokens rl" "fst (consume fl now i c rl)"
      using 2 by (simp_all add: consume_def potential_def update_conv')
    ultimately show ?thesis using err m by (simp only: if_True)
  next
    case (3 b)
    let ?r = "min (max_tokens rl) (fl (tokens b + fl (duration_seconds fl (now - last_refill b) * refill_rate rl)))"
    have b: "0 \<le> tokens b" "tokens b \<le> max_tokens rl" "0 \<le> now - last_refill b" "0 \<le> refill_rate rl"
      using inv_bucket [OF assms(2) 3(3)] assms(2) by (simp_all add: bucket_ok_def limiter_inv_def)
    have r: "?r \<le> potential u now i rl + ?um + 2 * eta + u * eta"
      using refill_bound [OF assms(1) b(3,4,1,2)] 3(3) by (simp add: potential_def min.coboundedI2 algebra_simps)
    have "fl (?r - c) \<le> ?r - c + ?um + eta" if "\<not> ?r < c"
      by (rule fl_le_plus [OF assms(1)]) (use that 3(1) in linarith)+
    moreover have "potential u now i (snd (consume fl now i c rl)) = (if ?r < c then ?r else fl (?r - c))"
        "fst (consume fl now i c rl) \<longleftrightarrow> \<not> ?r < c"
      using 3 by (auto simp: consume_def potential_def update_conv' Let_def)
    ultimately show ?thesis using r err m by (cases "?r < c") auto
  qed (use err m in \<open>simp add: consume_def\<close>)
qed

lemma potential_cleanup:
  assumes "machine_rounding u eta fl" "limiter_inv now rl" "refills_while_idle rl"
  shows "potential u now i (cleanup fl now rl) \<le> potential u now i rl"
proof (cases "map_of (requests rl) i")
  case (Some b)
  have b: "0 \<le> tokens b" "0 \<le> now - last_refill b" and rate: "0 \<le> refill_rate rl"
    using inv_bucket [OF assms(2) Some] assms(2) by (simp_all add: bucket_ok_def limiter_inv_def)
  have u: "0 \<le> u" by (rule machine_roundingD(1) [OF assms(1)])
  let ?d = "seconds (now - last_refill b)"
  have "max_tokens rl \<le> tokens b + (1 + u) ^ 4 * ?d * refill_rate rl"
    if "cleanup_after_idle_duration rl < duration_seconds fl (now - last_refill b)"
  proof -
    have "(1 + u) ^ 2 * ?d \<le> (1 + u) ^ 4 * ?d"
      using u b(2) by (intro mult_right_mono power_increasing) simp_all
    with that duration_seconds_bounds(2) [OF assms(1) b(2)]
    have "cleanup_after_idle_duration rl \<le> (1 + u) ^ 4 * ?d" by linarith
    then have "cleanup_after_idle_duration rl * refill_rate rl \<le> (1 + u) ^ 4 * ?d * refill_rate rl"
      by (rule mult_right_mono [OF _ rate])
    with assms(3) b(1) show ?thesis by (simp add: refills_while_idle_def)
  qed
  with Some assms(2) show ?thesis
    by (simp add: potential_def cleanup_def cleanup_entries_filter map_of_filter_values limiter_inv_def)
qed (use assms(2) in \<open>simp add: potential_def cleanup_def cleanup_entries_filter
      map_of_filter_values limiter_inv_def\<close>)

fun requests_of :: "'i \<Rightarrow> 'i limiter_call \<Rightarrow> nat" where
  "requests_of i (Consume t j c) = (if j = i then 1 else 0)"
| "requests_of i (Cleanup t) = 0"

lemma rounded_admission:
  assumes "machine_rounding u eta fl"
  shows "limiter_inv now rl \<Longrightarrow> fl (max_tokens rl) = max_tokens rl \<Longrightarrow> refills_while_idle rl \<Longrightarrow>
    sorted (now # map call_time cs) \<Longrightarrow> list_all (\<lambda>c. call_time c \<le> final) cs \<Longrightarrow> now \<le> final \<Longrightarrow>
    admitted_cost i (fst (run_limiter (consume fl) (cleanup fl) cs rl)) \<le>
      potential u now i rl + (1 + u) ^ 4 * seconds (final - now) * refill_rate rl
      + request_error u eta (max_tokens rl) * sum_list (map (\<lambda>c. real (requests_of i c)) cs)"
proof (induction cs arbitrary: now rl)
  case Nil
  then show ?case
    using potential_nonneg [OF machine_roundingD(1) [OF assms] Nil.prems(1), of i] machine_roundingD(1) [OF assms]
    by (simp add: admitted_cost_def limiter_inv_def)
next
  case (Cons call cs)
  let ?t = "call_time call"
  have t: "now \<le> ?t" "?t \<le> final" "sorted (?t # map call_time cs)" "list_all (\<lambda>c. call_time c \<le> final) cs"
    using Cons.prems by auto
  have inv: "limiter_inv ?t rl" by (rule limiter_inv_later [OF Cons.prems(1) t(1)])
  note later = potential_later [OF machine_roundingD(1) [OF assms] Cons.prems(1) t(1), of i final]
  show ?case
  proof (cases call)
    case (Consume t' j c)
    let ?rl = "snd (consume fl t' j c rl)"
    have rl1: "limiter_inv t' ?rl" "refills_while_idle ?rl"
      using consume_inv [OF machine_roundingD(3) [OF assms] Cons.prems(2), of t' j c] inv Consume Cons.prems(3)
      by (simp_all add: refills_while_idle_def)
    have "admitted_cost i (fst (run_limiter (consume fl) (cleanup fl) cs ?rl)) \<le>
        potential u t' i ?rl + (1 + u) ^ 4 * seconds (final - t') * refill_rate rl
        + request_error u eta (max_tokens rl) * sum_list (map (\<lambda>c. real (requests_of i c)) cs)"
      using Cons.IH [OF rl1(1) _ rl1(2)] t Consume Cons.prems(2) by simp
    moreover have "potential u t' i ?rl \<le> potential u t' i rl - (if j = i \<and> fst (consume fl t' j c rl) then c else 0)
        + request_error u eta (max_tokens rl) * real (requests_of i call)"
      using potential_consume [OF assms, of t' rl i c] inv Consume potential_consume_other [of j i u t' fl c rl]
      by (cases "j = i") simp_all
    ultimately show ?thesis
      using later Consume by (simp add: admitted_cost_def split_beta distrib_left split: if_splits)
  next
    case (Cleanup t')
    have "limiter_inv t' (cleanup fl t' rl)" "refills_while_idle (cleanup fl t' rl)"
      using cleanup_inv inv Cleanup Cons.prems(3) by (simp_all add: refills_frame)
    from Cons.IH [OF this(1) _ this(2)] potential_cleanup [OF assms, of t' rl i] inv later t Cleanup Cons.prems(2,3)
    show ?thesis by simp
  qed
qed

text \<open>
  The rate limit under rounding. For any rounding that is monotone, keeps 0, 1 and
  \<open>max_tokens\<close> and has an error of at most \<open>u\<close> times the result, plus \<open>eta\<close> below a nanosecond, the
  cost admitted for one identifier after construction is at most \<open>max_tokens\<close>, plus \<open>(1 + u) ^ 4\<close>
  times the refill of the time elapsed, plus \<open>2 u max_tokens + (3 + u) eta\<close> for each of its requests,
  over any history of requests and cleanups, when idle buckets refill before they are swept.
\<close>

theorem rate_limit_enforced_rounded:
  assumes "machine_rounding u eta fl" and "fl mt = mt"
    and "new_rate_limiter mt rate idle = Inr rl" and "mt \<le> idle * rate"
    and "sorted (now # map call_time cs)" and "list_all (\<lambda>c. call_time c \<le> final) cs" and "now \<le> final"
  shows "admitted_cost i (fst (run_limiter (consume fl) (cleanup fl) cs rl)) \<le>
    mt + (1 + u) ^ 4 * seconds (final - now) * rate
    + request_error u eta mt * sum_list (map (\<lambda>c. real (requests_of i c)) cs)"
proof -
  have rl: "limiter_inv now rl" "max_tokens rl = mt" "refill_rate rl = rate" "refills_while_idle rl" "requests rl = []"
    using assms(3,4) by (auto simp: new_rate_limiter_def limiter_inv_def refills_while_idle_def split: if_splits)
  from rounded_admission [OF assms(1) rl(1) _ rl(4) assms(5-7), of i] assms(2) rl show ?thesis
    by (simp add: potential_def)
qed

lemma rate_limit_enforced_rounded_witness:
  "admitted_cost ''a'' (fst (run_limiter (consume ieee_double) (cleanup ieee_double)
     [Consume 1 ''a'' 3, Cleanup 2, Consume 3 ''a'' 3] example_limiter)) \<le>
   5 + (1 + unit_roundoff) ^ 4 * seconds (4 - 0) * 1 + request_error unit_roundoff subnormal_error 5 * (1 + (0 + 1))"
proof -
  have "ieee_double 5 = 5" using ieee_double_nat [of 5] by simp
  then show ?thesis
    using rate_limit_enforced_rounded [OF machine_rounding_ieee, of 5 1 120 example_limiter 0
        "[Consume 1 ''a'' 3, Cleanup 2, Consume 3 ''a'' 3]" 4 "''a''"]
    by (simp add: new_rate_limiter_def example_limiter_def)
qed

end
