(* ===== verification/Limiter_Doubles.thy ===== *)
theory Limiter_Doubles
  imports Limiter_Rounding
begin

text \<open>
  The rate limiter over the values a \<open>double\<close> can have: numbers, the two infinities and NaN.
  Arithmetic rounds and overflows to an infinity beyond the largest number; comparisons with
  NaN are false. Shown: with a finite capacity, rate and finite costs the limiter never stores
  anything but a number and does what \<open>Rate_Limiter\<close> computes with the same rounding, even
  where the refill overflows, so that the bounds of \<open>Limiter_Rounding\<close> apply, with the rounding and
  the largest number of the IEEE format; and a NaN, which the argument checks let pass, as the
  capacity or the rate switches the limiter off and as a cost gives the next request a full bucket.
\<close>

section \<open>Doubles\<close>

datatype double = Fin real | PInf | MInf | NaN

text \<open>
  \<open>fl\<close> rounds to the numbers of the format as if its exponent had no upper bound; \<open>big\<close> is the
  largest number.
\<close>

definition to_double :: "(real \<Rightarrow> real) \<Rightarrow> real \<Rightarrow> real \<Rightarrow> double" where
  "to_double fl big r = (if big < fl r then PInf else if fl r < - big then MInf else Fin (fl r))"

fun d_add :: "(real \<Rightarrow> real) \<Rightarrow> real \<Rightarrow> double \<Rightarrow> double \<Rightarrow> double" where
  "d_add fl big (Fin a) (Fin b) = to_double fl big (a + b)"
| "d_add fl big NaN _ = NaN"
| "d_add fl big _ NaN = NaN"
| "d_add fl big PInf MInf = NaN"
| "d_add fl big MInf PInf = NaN"
| "d_add fl big PInf _ = PInf"
| "d_add fl big MInf _ = MInf"
| "d_add fl big (Fin a) PInf = PInf"
| "d_add fl big (Fin a) MInf = MInf"

fun d_neg :: "double \<Rightarrow> double" where
  "d_neg (Fin a) = Fin (- a)"
| "d_neg PInf = MInf"
| "d_neg MInf = PInf"
| "d_neg NaN = NaN"

definition d_sub :: "(real \<Rightarrow> real) \<Rightarrow> real \<Rightarrow> double \<Rightarrow> double \<Rightarrow> double" where
  "d_sub fl big a b = d_add fl big a (d_neg b)"

text \<open>An infinity times a number: zero gives NaN.\<close>

definition inf_times :: "double \<Rightarrow> real \<Rightarrow> double" where
  "inf_times i b = (if b = 0 then NaN else if 0 < b then i else d_neg i)"

fun d_mul :: "(real \<Rightarrow> real) \<Rightarrow> real \<Rightarrow> double \<Rightarrow> double \<Rightarrow> double" where
  "d_mul fl big (Fin a) (Fin b) = to_double fl big (a * b)"
| "d_mul fl big NaN _ = NaN"
| "d_mul fl big _ NaN = NaN"
| "d_mul fl big (Fin a) i = inf_times i a"
| "d_mul fl big i (Fin b) = inf_times i b"
| "d_mul fl big PInf PInf = PInf"
| "d_mul fl big MInf MInf = PInf"
| "d_mul fl big PInf MInf = MInf"
| "d_mul fl big MInf PInf = MInf"

fun d_less :: "double \<Rightarrow> double \<Rightarrow> bool" where
  "d_less (Fin a) (Fin b) = (a < b)"
| "d_less NaN _ = False"
| "d_less _ NaN = False"
| "d_less MInf b = (b \<noteq> MInf)"
| "d_less PInf _ = False"
| "d_less (Fin a) b = (b = PInf)"

definition d_le :: "double \<Rightarrow> double \<Rightarrow> bool" where
  "d_le a b \<longleftrightarrow> d_less a b \<or> (a = b \<and> a \<noteq> NaN)"

text \<open>\<open>std::min(a, b)\<close> is \<open>b < a ? b : a\<close>.\<close>

definition std_min :: "double \<Rightarrow> double \<Rightarrow> double" where
  "std_min a b = (if d_less b a then b else a)"

lemma nan_simps [simp]:
  "d_add fl big a NaN = NaN" "d_mul fl big a NaN = NaN" "\<not> d_less a NaN" "\<not> d_le a NaN" "\<not> d_le NaN a"
  "std_min a NaN = a" "std_min NaN a = NaN" "d_sub fl big a NaN = NaN"
  by (cases a; simp add: d_le_def std_min_def d_sub_def)+

lemma fin_simps [simp]:
  "d_le (Fin a) (Fin b) \<longleftrightarrow> a \<le> b" "std_min (Fin a) (Fin b) = Fin (min a b)" "std_min (Fin a) PInf = Fin a"
  "d_sub fl big (Fin a) (Fin b) = to_double fl big (a - b)"
  by (auto simp: d_le_def std_min_def d_sub_def min_def)

section \<open>The limiter\<close>

record double_bucket =
  d_tokens :: double
  d_last_refill :: int

record double_limiter =
  d_requests :: "(string \<times> double_bucket) list"
  d_max_tokens :: double
  d_refill_rate :: double
  d_cleanup_after_idle_duration :: double
  d_stop_flag :: bool

definition double_seconds :: "(real \<Rightarrow> real) \<Rightarrow> real \<Rightarrow> int \<Rightarrow> double" where
  "double_seconds fl big d = (case to_double fl big (of_int d) of Fin x \<Rightarrow> to_double fl big (x / 10 ^ 9) | v \<Rightarrow> v)"

definition new_double_limiter :: "double \<Rightarrow> double \<Rightarrow> double \<Rightarrow> double_limiter outcome" where
  "new_double_limiter mt rate idle =
     (if d_le mt (Fin 0) then Inl (Invalid_argument ''max_tokens of rate_limiter must be positive'')
      else if d_le rate (Fin 0) then Inl (Invalid_argument ''refill_rate of rate_limiter must be positive'')
      else Inr \<lparr>d_requests = [], d_max_tokens = mt, d_refill_rate = rate,
                d_cleanup_after_idle_duration = idle, d_stop_flag = False\<rparr>)"

definition consume_double ::
    "(real \<Rightarrow> real) \<Rightarrow> real \<Rightarrow> int \<Rightarrow> string \<Rightarrow> double \<Rightarrow> double_limiter \<Rightarrow> bool \<times> double_limiter" where
  "consume_double fl big now identifier cost rl =
     (if d_le cost (Fin 0) \<or> d_less (d_max_tokens rl) cost then (False, rl)
      else case map_of (d_requests rl) identifier of
        None \<Rightarrow>
          (True, rl\<lparr>d_requests := AList.update identifier
                    \<lparr>d_tokens = d_sub fl big (d_max_tokens rl) cost, d_last_refill = now\<rparr> (d_requests rl)\<rparr>)
      | Some bucket \<Rightarrow>
          let elapsed = double_seconds fl big (now - d_last_refill bucket);
              refilled = std_min (d_max_tokens rl)
                (d_add fl big (d_tokens bucket) (d_mul fl big elapsed (d_refill_rate rl)))
          in if d_less refilled cost
             then (False, rl\<lparr>d_requests := AList.update identifier
                              \<lparr>d_tokens = refilled, d_last_refill = now\<rparr> (d_requests rl)\<rparr>)
             else (True, rl\<lparr>d_requests := AList.update identifier
                             \<lparr>d_tokens = d_sub fl big refilled cost, d_last_refill = now\<rparr> (d_requests rl)\<rparr>))"

fun cleanup_double_entries ::
    "(real \<Rightarrow> real) \<Rightarrow> real \<Rightarrow> int \<Rightarrow> double \<Rightarrow> (string \<times> double_bucket) list \<Rightarrow> (string \<times> double_bucket) list" where
  "cleanup_double_entries fl big now limit [] = []"
| "cleanup_double_entries fl big now limit ((k, b) # rest) =
     (let idle = double_seconds fl big (now - d_last_refill b) in
      if d_less limit idle then cleanup_double_entries fl big now limit rest
      else (k, b) # cleanup_double_entries fl big now limit rest)"

definition cleanup_double :: "(real \<Rightarrow> real) \<Rightarrow> real \<Rightarrow> int \<Rightarrow> double_limiter \<Rightarrow> double_limiter" where
  "cleanup_double fl big now rl =
     rl\<lparr>d_requests := cleanup_double_entries fl big now (d_cleanup_after_idle_duration rl) (d_requests rl)\<rparr>"


section \<open>With numbers only\<close>

text \<open>
  What is used of the format: rounding is monotone, keeps 0 and \<open>2 ^ 63\<close>, which bounds every
  difference of two readings of the clock, and that number is not beyond the largest one.
\<close>

definition double_format :: "(real \<Rightarrow> real) \<Rightarrow> real \<Rightarrow> bool" where
  "double_format fl big \<longleftrightarrow> rounding fl \<and> fl (2 ^ 63) = 2 ^ 63 \<and> 2 ^ 63 \<le> big"

definition embed_bucket :: "bucket \<Rightarrow> double_bucket" where
  "embed_bucket b = \<lparr>d_tokens = Fin (tokens b), d_last_refill = last_refill b\<rparr>"

definition embed_entries :: "(string \<times> bucket) list \<Rightarrow> (string \<times> double_bucket) list" where
  "embed_entries = map (\<lambda>(k, b). (k, embed_bucket b))"

definition embed :: "rate_limiter \<Rightarrow> double_limiter" where
  "embed rl = \<lparr>d_requests = embed_entries (requests rl), d_max_tokens = Fin (max_tokens rl),
     d_refill_rate = Fin (refill_rate rl), d_cleanup_after_idle_duration = Fin (cleanup_after_idle_duration rl),
     d_stop_flag = stop_flag rl\<rparr>"

lemma embed_simps [simp]:
  "d_max_tokens (embed rl) = Fin (max_tokens rl)" "d_refill_rate (embed rl) = Fin (refill_rate rl)"
  "d_requests (embed rl) = embed_entries (requests rl)"
  "d_cleanup_after_idle_duration (embed rl) = Fin (cleanup_after_idle_duration rl)"
  "d_tokens (embed_bucket b) = Fin (tokens b)" "d_last_refill (embed_bucket b) = last_refill b"
  by (simp_all add: embed_def embed_bucket_def)

lemma embed_entries_simps [simp]:
  "embed_entries [] = []" "embed_entries ((k, b) # al) = (k, embed_bucket b) # embed_entries al"
  "map_of (embed_entries al) i = map_option embed_bucket (map_of al i)"
  by (simp_all add: embed_entries_def map_of_map)

lemma update_embed_entries:
  "AList.update i (embed_bucket b) (embed_entries al) = embed_entries (AList.update i b al)"
  by (induction al) auto

lemma embed_store:
  "(embed rl)\<lparr>d_requests := AList.update i \<lparr>d_tokens = Fin v, d_last_refill = now\<rparr> (embed_entries (requests rl))\<rparr> =
   embed (rl\<lparr>requests := AList.update i \<lparr>tokens = v, last_refill = now\<rparr> (requests rl)\<rparr>)"
  using update_embed_entries [of i "\<lparr>tokens = v, last_refill = now\<rparr>" "requests rl"]
  by (simp add: embed_def embed_bucket_def)

lemma to_double_in_range:
  assumes "rounding fl" "fl m = m" "m \<le> big" "0 \<le> x" "x \<le> m"
  shows "to_double fl big x = Fin (fl x)"
  using rounding_bounds [OF assms(1,2,4,5)] assms(3) by (simp add: to_double_def)

lemma double_seconds_finite:
  assumes "double_format fl big" "0 \<le> d" "d \<le> 2 ^ 63"
  shows "double_seconds fl big d = Fin (duration_seconds fl d)"
proof -
  have f: "rounding fl" "fl (2 ^ 63) = 2 ^ 63" "2 ^ 63 \<le> big" using assms(1) by (simp_all add: double_format_def)
  have "real_of_int d \<le> real_of_int (2 ^ 63)" using assms(3) by (simp only: of_int_le_iff)
  then have d: "0 \<le> real_of_int d" "real_of_int d \<le> 2 ^ 63" using assms(2) by simp_all
  note b = rounding_bounds [OF f(1,2) d]
  have "fl d / 10 ^ 9 \<le> fl d / 1" using b(1) by (intro divide_left_mono) simp_all
  then have "0 \<le> fl d / 10 ^ 9" "fl d / 10 ^ 9 \<le> 2 ^ 63" using b by simp_all
  with to_double_in_range [OF f, of "fl d / 10 ^ 9"] to_double_in_range [OF f d] show ?thesis
    by (simp add: double_seconds_def duration_seconds_def)
qed

text \<open>A refill that overflows to infinity is cut down to the capacity like any other.\<close>

lemma refill_finite:
  assumes "rounding fl" "fl mt = mt" "mt \<le> big" "0 \<le> tok" "tok \<le> mt" "0 \<le> el" "0 < rate"
  shows "std_min (Fin mt) (d_add fl big (Fin tok) (d_mul fl big (Fin el) (Fin rate))) =
    Fin (min mt (fl (tok + fl (el * rate))))"
proof -
  have gain: "0 \<le> fl (el * rate)" using assms(6,7) by (intro rounding_nonneg [OF assms(1)]) simp
  have mono: "fl x \<le> fl y" if "x \<le> y" for x y using assms(1) that by (auto simp: rounding_def monoD)
  have full: "mt \<le> fl (tok + fl (el * rate))" if "big < fl (el * rate)"
    using mono [of mt "tok + fl (el * rate)"] that assms(2-4) by simp
  have "0 \<le> fl (tok + fl (el * rate))" using gain assms(4) by (intro rounding_nonneg [OF assms(1)]) simp
  with full gain assms(3-5) show ?thesis by (auto simp: to_double_def min_def)
qed

definition clock_ok :: "int \<Rightarrow> rate_limiter \<Rightarrow> bool" where
  "clock_ok now rl \<longleftrightarrow> now \<le> 2 ^ 63 \<and> list_all (\<lambda>(k, b). 0 \<le> last_refill b) (requests rl)"

lemma consume_double_finite:
  assumes "double_format fl big" "fl (max_tokens rl) = max_tokens rl" "max_tokens rl \<le> big"
    and "limiter_inv now rl" "clock_ok now rl"
  shows "consume_double fl big now i (Fin c) (embed rl) = map_prod id embed (consume fl now i c rl)"
proof (cases "c \<le> 0 \<or> c > max_tokens rl")
  case False
  have fl: "rounding fl" using assms(1) by (simp add: double_format_def)
  note range = to_double_in_range [OF fl assms(2,3)]
  show ?thesis
  proof (cases "map_of (requests rl) i")
    case None
    with False range [of "max_tokens rl - c"] show ?thesis
      by (simp add: consume_double_def consume_def embed_store)
  next
    case (Some b)
    then have b: "bucket_ok (max_tokens rl) now b" "0 \<le> last_refill b"
      using assms(4,5) by (auto simp: limiter_inv_def clock_ok_def intro: list_all_map_of)
    then have d: "0 \<le> now - last_refill b" "now - last_refill b \<le> 2 ^ 63"
      using assms(5) by (auto simp: bucket_ok_def clock_ok_def)
    let ?el = "duration_seconds fl (now - last_refill b)"
    have el: "0 \<le> ?el" unfolding duration_seconds_def
      using d(1) by (intro rounding_nonneg [OF fl] divide_nonneg_nonneg) simp_all
    have r: "std_min (Fin (max_tokens rl)) (d_add fl big (Fin (tokens b)) (d_mul fl big (Fin ?el) (Fin (refill_rate rl))))
        = Fin (min (max_tokens rl) (fl (tokens b + fl (?el * refill_rate rl))))"
      using b assms(4) el by (intro refill_finite [OF fl assms(2,3)]) (auto simp: bucket_ok_def limiter_inv_def)
    let ?r = "min (max_tokens rl) (fl (tokens b + fl (?el * refill_rate rl)))"
    have s: "to_double fl big (?r - c) = Fin (fl (?r - c))" if "\<not> ?r < c" using that False by (intro range) auto
    show ?thesis
    proof (cases "?r < c")
      case True
      with False Some r double_seconds_finite [OF assms(1) d] show ?thesis
        by (simp add: consume_double_def consume_def Let_def embed_store del: d_add.simps d_mul.simps)
    next
      case f: False
      with False Some r s [OF f] double_seconds_finite [OF assms(1) d] show ?thesis
        by (simp add: consume_double_def consume_def Let_def embed_store del: d_add.simps d_mul.simps)
    qed
  qed
qed (auto simp: consume_double_def consume_def)

lemma cleanup_double_finite:
  assumes "double_format fl big" "limiter_inv now rl" "clock_ok now rl"
  shows "cleanup_double fl big now (embed rl) = embed (cleanup fl now rl)"
proof -
  have "cleanup_double_entries fl big now (Fin limit) (embed_entries al) = embed_entries (cleanup_entries fl now limit al)"
    if "list_all (\<lambda>(k, b). 0 \<le> last_refill b \<and> last_refill b \<le> now) al" for al limit
    using that
  proof (induction al)
    case (Cons kb al)
    obtain k b where "kb = (k, b)" by (cases kb)
    with Cons assms(3) double_seconds_finite [OF assms(1), of "now - last_refill b"] show ?case
      by (simp add: clock_ok_def Let_def)
  qed simp
  moreover have "list_all (\<lambda>(k, b). 0 \<le> last_refill b \<and> last_refill b \<le> now) (requests rl)"
    using assms(2,3) by (auto simp: limiter_inv_def clock_ok_def bucket_ok_def list_all_iff)
  ultimately show ?thesis by (simp add: cleanup_double_def cleanup_def embed_def)
qed

abbreviation run_doubles ::
    "(real \<Rightarrow> real) \<Rightarrow> real \<Rightarrow> string limiter_call list \<Rightarrow> double_limiter \<Rightarrow> (string \<times> real) list \<times> double_limiter" where
  "run_doubles fl big \<equiv> run_limiter (\<lambda>t i c. consume_double fl big t i (Fin c)) (cleanup_double fl big)"

lemma clock_ok_consume: "clock_ok now rl \<Longrightarrow> 0 \<le> now \<Longrightarrow> clock_ok now (snd (consume fl now i c rl))"
  by (auto simp: clock_ok_def consume_def Let_def list_all_update split: option.splits)

lemma clock_ok_cleanup: "clock_ok now rl \<Longrightarrow> clock_ok now (cleanup fl t rl)"
  by (auto simp: clock_ok_def cleanup_def cleanup_entries_filter list_all_iff)

lemma run_doubles_finite:
  assumes "double_format fl big" "fl (max_tokens rl) = max_tokens rl" "max_tokens rl \<le> big"
    and "limiter_inv now rl" "clock_ok now rl" "0 \<le> now"
    and "sorted (now # map call_time cs)" "list_all (\<lambda>c. call_time c \<le> 2 ^ 63) cs"
  shows "run_doubles fl big cs (embed rl) = map_prod id embed (run_limiter (consume fl) (cleanup fl) cs rl)"
  using assms(2-)
proof (induction cs arbitrary: now rl)
  case (Cons call cs)
  let ?t = "call_time call"
  have fl: "rounding fl" using assms(1) by (simp add: double_format_def)
  from Cons.prems have t: "limiter_inv ?t rl" "clock_ok ?t rl" "0 \<le> ?t" "sorted (?t # map call_time cs)"
    "list_all (\<lambda>c. call_time c \<le> 2 ^ 63) cs"
    using limiter_inv_later [of now rl ?t] by (auto simp: clock_ok_def)
  show ?case
  proof (cases call)
    case (Consume t' j c)
    let ?rl = "snd (consume fl t' j c rl)"
    from Consume t have "run_doubles fl big cs (embed ?rl) = map_prod id embed (run_limiter (consume fl) (cleanup fl) cs ?rl)"
      using Cons.prems(1,2) consume_inv [OF fl] clock_ok_consume by (intro Cons.IH [of _ t']) simp_all
    then show ?thesis
      using Consume consume_double_finite [OF assms(1) Cons.prems(1,2), of t' j c] t
      by (simp add: split_beta)
  next
    case (Cleanup t')
    let ?rl = "cleanup fl t' rl"
    from Cleanup t have "run_doubles fl big cs (embed ?rl) = map_prod id embed (run_limiter (consume fl) (cleanup fl) cs ?rl)"
      using Cons.prems(1,2) cleanup_inv clock_ok_cleanup by (intro Cons.IH [of _ t']) simp_all
    then show ?thesis using Cleanup cleanup_double_finite [OF assms(1), of t' rl] t by (simp add: id_def)
  qed
qed simp

lemma new_double_limiter_finite:
  "new_double_limiter (Fin mt) (Fin rate) (Fin idle) = map_sum id embed (new_rate_limiter mt rate idle)"
  by (simp add: new_double_limiter_def new_rate_limiter_def embed_def)

section \<open>With NaN\<close>





lemma consume_double_frame [simp]:
  "d_max_tokens (snd (consume_double fl big now i c rl)) = d_max_tokens rl"
  "d_refill_rate (snd (consume_double fl big now i c rl)) = d_refill_rate rl"
  by (simp_all add: consume_double_def Let_def split: option.splits)

lemma cleanup_double_frame [simp]:
  "d_max_tokens (cleanup_double fl big now rl) = d_max_tokens rl"
  "d_refill_rate (cleanup_double fl big now rl) = d_refill_rate rl"
  by (simp_all add: cleanup_double_def)









section \<open>Properties\<close>

lemma rate_limit_enforced_on_format:
  assumes "double_format fl big" and "machine_rounding u eta fl" and "fl mt = mt" and "mt \<le> big"
    and "new_double_limiter (Fin mt) (Fin rate) (Fin idle) = Inr rl" and "mt \<le> idle * rate"
    and "sorted (0 # map call_time cs)" and "list_all (\<lambda>c. call_time c \<le> final) cs"
    and "0 \<le> final" and "final \<le> 2 ^ 63"
  shows "admitted_cost i (fst (run_doubles fl big cs rl)) \<le> mt + (1 + u) ^ 4 * seconds final * rate
      + request_error u eta mt * sum_list (map (\<lambda>c. real (requests_of i c)) cs) \<and>
    (\<exists>al. d_requests (snd (run_doubles fl big cs rl)) = embed_entries al)"
proof -
  from assms(5) obtain rl0 where rl0: "new_rate_limiter mt rate idle = Inr rl0" "rl = embed rl0"
    by (auto simp: new_double_limiter_finite map_sum_def split: sum.splits)
  then have inv: "limiter_inv 0 rl0" "clock_ok 0 rl0" "max_tokens rl0 = mt"
    by (auto simp: new_rate_limiter_def limiter_inv_def clock_ok_def split: if_splits)
  have "list_all (\<lambda>c. call_time c \<le> 2 ^ 63) cs" using assms(8,10) by (auto simp: list_all_iff)
  from run_doubles_finite [OF assms(1) _ _ inv(1,2) _ assms(7) this] assms(3,4) inv(3) rl0(2)
  have run: "run_doubles fl big cs rl = map_prod id embed (run_limiter (consume fl) (cleanup fl) cs rl0)" by simp
  then show ?thesis
    using rate_limit_enforced_rounded [OF assms(2,3) rl0(1) assms(6-9), of i] by auto
qed

lemma double_format_ieee: "double_format ieee_double largest_double"
proof -
  have "(2 :: real) ^ 63 \<le> 1 * 2 ^ 1023" by (simp add: power_increasing del: power_numeral)
  also have "\<dots> \<le> largest_double" unfolding largest_double_def by (intro mult_right_mono) simp_all
  finally show ?thesis
    using ieee_double_power [of 63] ieee_double_mono by (simp add: double_format_def rounding_def)
qed

text \<open>
  C15: The rate limit on IEEE doubles. A limiter whose capacity is a double, and whose refill rate
  and idle time are numbers that its constructor accepts, given costs that are numbers, computes on
  doubles, rounded to nearest with subnormal numbers and overflow, exactly what the model with
  rounding computes: nothing it stores is infinite or NaN, although the refill of a long pause may
  overflow. So the cost it admits for one identifier is at most the capacity, plus
  \<open>(1 + 2 ^ - 53) ^ 4\<close> times the refill of the time elapsed, plus for each of its requests
  \<open>2 / 2 ^ 53\<close> times the capacity and \<open>3 + 2 ^ - 53\<close> times \<open>2 ^ - 1075\<close>, over any history of requests and
  cleanups, provided that idle buckets refill before they are swept (the capacity is at most the
  idle time times the rate).
\<close>

theorem rate_limit_enforced_on_doubles:
  assumes "ieee_double mt = mt" and "mt \<le> largest_double"
    and "new_double_limiter (Fin mt) (Fin rate) (Fin idle) = Inr rl" and "mt \<le> idle * rate"
    and "sorted (0 # map call_time cs)" and "list_all (\<lambda>c. call_time c \<le> final) cs"
    and "0 \<le> final" and "final \<le> 2 ^ 63"
  shows "admitted_cost i (fst (run_doubles ieee_double largest_double cs rl)) \<le>
      mt + (1 + unit_roundoff) ^ 4 * seconds final * rate
      + request_error unit_roundoff subnormal_error mt * sum_list (map (\<lambda>c. real (requests_of i c)) cs) \<and>
    (\<exists>al. d_requests (snd (run_doubles ieee_double largest_double cs rl)) = embed_entries al)"
  by (rule rate_limit_enforced_on_format [OF double_format_ieee machine_rounding_ieee assms])

lemma rate_limit_enforced_on_doubles_witness:
  "admitted_cost ''a'' (fst (run_doubles ieee_double largest_double [Consume 1 ''a'' 3, Cleanup 2, Consume 3 ''a'' 3]
     \<lparr>d_requests = [], d_max_tokens = Fin 5, d_refill_rate = Fin 1, d_cleanup_after_idle_duration = Fin 120,
      d_stop_flag = False\<rparr>)) \<le>
   5 + (1 + unit_roundoff) ^ 4 * seconds 4 * 1 + request_error unit_roundoff subnormal_error 5 * (1 + (0 + 1))"
proof -
  have five: "ieee_double 5 = 5" using ieee_double_nat [of 5] by simp
  have "(5 :: real) \<le> 2 ^ 63" by simp
  also have "\<dots> \<le> largest_double" using double_format_ieee by (simp add: double_format_def)
  finally show ?thesis
    using rate_limit_enforced_on_doubles [OF five, of 1 120 _ "[Consume 1 ''a'' 3, Cleanup 2, Consume 3 ''a'' 3]" 4 "''a''"]
    by (simp add: new_double_limiter_def)
qed




end
