(* ===== verification/Conformance.thy ===== *)
theory Conformance
  imports Board_History Map_Threads Limiter_Doubles Queue_Waiting
begin

text \<open>
  The repository's unit tests (\<open>testing/tests\<close>) replayed on the model: each lemma is named after
  its test, makes the calls that the test makes and states the results it expects. A test with
  several threads is a statement about every order in which their calls take the mutex. Not repeated
  here are tests of C++ types, and those that observe no more than that concurrent reads succeed.
\<close>

section \<open>\<open>thread_safe_queue_test.cpp\<close>\<close>

definition int_queue :: "int queue_template" where
  "int_queue = \<lparr>EnableMaxSize = True, EnableMaxBytes = True, traits_get = (\<lambda>_. 4)\<rparr>"

text \<open>\<open>struct payload { char data[16]; }\<close>, a value of which carries nothing.\<close>

definition payload_queue :: "unit queue_template" where
  "payload_queue = \<lparr>EnableMaxSize = True, EnableMaxBytes = True, traits_get = (\<lambda>_. 16)\<rparr>"

text \<open>\<open>struct variable_size\<close> with its own \<open>queue_size_traits\<close>: the size of its vector.\<close>

definition variable_size_queue :: "nat queue_template" where
  "variable_size_queue = \<lparr>EnableMaxSize = True, EnableMaxBytes = True, traits_get = of_nat\<rparr>"

lemmas queue_test_defs = int_queue_def payload_queue_def variable_size_queue_def new_queue_def queue_op_defs
  protocol_defs queue_front_def queue_back_def queue_size_def empty_def to_vector_def wait_predicate_def
  replace_def replace_append_def

lemma PushAndPopPreservesOrder:
  "responses_of int_queue [Push_back 1, Push_back 2, Push_back 3, Size, Front, Back, Pop_front, Pop_front, Pop_front, Empty]
     (new_queue 0 0) =
   [R_unit, R_unit, R_unit, R_size 3, R_item (Inr 1), R_item (Inr 3), R_item (Inr 1), R_item (Inr 2), R_item (Inr 3),
    R_bool True]"
  by (simp add: queue_test_defs)

lemma PushFrontChangesOrder:
  "responses_of int_queue [Push_back 2, Push_front 1, Push_back 3, To_vector] (new_queue 0 0) =
   [R_unit, R_unit, R_unit, R_items [1, 2, 3]]"
  by (simp add: queue_test_defs)

lemma TryPushRespectsMaximumSize:
  "responses_of int_queue [Try_push_back 1, Try_push_back 2, Try_push_back 3, Size] (new_queue 2 0) =
   [R_bool True, R_bool True, R_bool False, R_size 2]"
  by (simp add: queue_test_defs)

lemma TryPushRespectsMaximumBytes:
  "responses_of payload_queue [Try_push_back (), Try_push_back (), Try_push_back (), Size] (new_queue 0 (16 * 2)) =
   [R_bool True, R_bool True, R_bool False, R_size 2]"
  by (simp add: queue_test_defs)

lemma WaitAndPopBlocksUntilItemArrives:
  "responses_of int_queue [Wait_and_pop, Push_back 42, Wait_and_pop] (new_queue 0 0) =
   [R_wait Blocks, R_unit, R_wait (Returns (Some 42))]"
  by (simp add: queue_test_defs)

lemma StopUnblocksWaitingConsumer:
  "responses_of int_queue [Wait_and_pop, Stop, Wait_and_pop] (new_queue 0 0) =
   [R_wait Blocks, R_unit, R_wait (Returns None)]"
  by (simp add: queue_test_defs)

lemma StoppedQueueRejectsTryPush:
  "responses_of int_queue [Stop, Try_push_back 42, Empty] (new_queue 0 0) = [R_unit, R_bool False, R_bool True]"
  by (simp add: queue_test_defs)

lemma ClearRemovesAllElements:
  "responses_of int_queue [Push_back 1, Push_back 2, Push_back 3, Clear, Empty, Size] (new_queue 0 0) =
   [R_unit, R_unit, R_unit, R_unit, R_bool True, R_size 0]"
  by (simp add: queue_test_defs)

lemma ReplaceReplacesContents:
  "responses_of int_queue [Push_back 1, Push_back 2, Replace [10, 20, 30], To_vector] (new_queue 0 0) =
   [R_unit, R_unit, R_unit, R_items [10, 20, 30]]"
  by (simp add: queue_test_defs)

lemma EmptyAccessThrows:
  "responses_of int_queue [Front, Back, Pop_front, Pop_back] (new_queue 0 0) =
   replicate 4 (R_item (Inl (Runtime_error ''Queue is empty'')))"
  by (simp add: queue_test_defs numeral_eq_Suc)

lemma PopBackPreservesReverseOrder:
  "responses_of int_queue [Push_back 1, Push_back 2, Push_back 3, Pop_back, Pop_back, Pop_back, Empty] (new_queue 0 0) =
   [R_unit, R_unit, R_unit, R_item (Inr 3), R_item (Inr 2), R_item (Inr 1), R_bool True]"
  by (simp add: queue_test_defs)

lemma TryPushFrontRespectsMaximumSize:
  "responses_of int_queue [Try_push_front 2, Try_push_front 1, Try_push_front 0, To_vector] (new_queue 2 0) =
   [R_bool True, R_bool True, R_bool False, R_items [1, 2]]"
  by (simp add: queue_test_defs)

lemma PoppingFreesMaximumByteCapacity:
  "responses_of payload_queue [Try_push_back (), Try_push_back (), Try_push_back (), Pop_front, Try_push_back (), Size]
     (new_queue 0 (16 * 2)) =
   [R_bool True, R_bool True, R_bool False, R_item (Inr ()), R_bool True, R_size 2]"
  by (simp add: queue_test_defs)

lemma PopBackUpdatesMaximumByteAccounting:
  "responses_of payload_queue [Try_push_back (), Try_push_back (), Pop_back, Try_push_back (), Size] (new_queue 0 (16 * 2)) =
   [R_bool True, R_bool True, R_item (Inr ()), R_bool True, R_size 2]"
  by (simp add: queue_test_defs)

lemma ClearResetsMaximumByteAccounting:
  "responses_of payload_queue [Try_push_back (), Try_push_back (), Try_push_back (), Clear, Empty, Try_push_back (),
     Try_push_back ()] (new_queue 0 (16 * 2)) =
   [R_bool True, R_bool True, R_bool False, R_unit, R_bool True, R_bool True, R_bool True]"
  by (simp add: queue_test_defs)

lemma ReplaceResetsMaximumByteAccounting:
  "responses_of payload_queue [Push_back (), Push_back (), Replace [()], Try_push_back (), Try_push_back (), Try_push_back ()]
     (new_queue 0 (16 * 3)) =
   [R_unit, R_unit, R_unit, R_bool True, R_bool True, R_bool False]"
  by (simp add: queue_test_defs)

lemma StopIsIdempotent:
  "responses_of int_queue [Stop, Stop, Stop, Try_push_back 1] (new_queue 0 0) = [R_unit, R_unit, R_unit, R_bool False]"
  by (simp add: queue_test_defs)

lemma ReplaceRespectsMaximumSize:
  "responses_of (int_queue\<lparr>EnableMaxBytes := False\<rparr>) [Replace [1, 2, 3], Size] (new_queue 2 0) = [R_unit, R_size 2]"
  by (simp add: queue_test_defs Let_def word_le_nat_alt)

lemma StopAllowsExistingItemsToBeConsumed:
  "responses_of int_queue [Push_back 1, Push_back 2, Stop, Wait_and_pop, Wait_and_pop, Wait_and_pop] (new_queue 0 0) =
   [R_unit, R_unit, R_unit, R_wait (Returns (Some 1)), R_wait (Returns (Some 2)), R_wait (Returns None)]"
  by (simp add: queue_test_defs)

lemma WaitAndPopWakesAfterPushFront:
  "fst (snd (call int_queue (Push_front 42) (new_queue 0 0))) = Notify_one \<and>
   responses_of int_queue [Wait_and_pop, Push_front 42, Wait_and_pop] (new_queue 0 0) =
     [R_wait Blocks, R_unit, R_wait (Returns (Some 42))]"
  by (simp add: queue_test_defs)

lemma StopUnblocksAllWaitingConsumers:
  "fst (snd (call int_queue Stop (new_queue 0 0))) = Notify_all \<and>
   responses_of int_queue (Stop # replicate 8 Wait_and_pop) (new_queue 0 0) = R_unit # replicate 8 (R_wait (Returns None))"
  by (simp add: queue_test_defs numeral_eq_Suc)

lemma StoppedQueueRemainsStoppedAfterDraining:
  "responses_of int_queue [Push_back 42, Stop, Wait_and_pop, Wait_and_pop, Try_push_back 43] (new_queue 0 0) =
   [R_unit, R_unit, R_wait (Returns (Some 42)), R_wait (Returns None), R_bool False]"
  by (simp add: queue_test_defs)

lemma CustomSizeTraitsAreUsed:
  "responses_of variable_size_queue [Try_push_back 6, Try_push_back 5, Pop_front, Try_push_back 10] (new_queue 0 10) =
   [R_bool True, R_bool False, R_item (Inr 6), R_bool True]"
  by (simp add: queue_test_defs)

lemma ByteCapacityAcceptsExactLimit:
  "responses_of payload_queue [Try_push_back (), Try_push_back ()] (new_queue 0 16) = [R_bool True, R_bool False]"
  by (simp add: queue_test_defs)

lemma ByteCapacityRejectsOversizedItem:
  "responses_of payload_queue [Try_push_back (), Empty] (new_queue 0 8) = [R_bool False, R_bool True]"
  by (simp add: queue_test_defs)

lemma MaximumSizeCanBeDisabled:
  "responses_of (int_queue\<lparr>EnableMaxSize := False\<rparr>) [Try_push_back 1, Try_push_back 2, Try_push_back 3, Size] (new_queue 2 0) =
   [R_bool True, R_bool True, R_bool True, R_size 3]"
  by (simp add: queue_test_defs)

lemma MaximumBytesCanBeDisabled:
  "responses_of (payload_queue\<lparr>EnableMaxBytes := False\<rparr>) [Try_push_back (), Try_push_back (), Try_push_back (), Size]
     (new_queue 0 16) = [R_bool True, R_bool True, R_bool True, R_size 3]"
  by (simp add: queue_test_defs)


text \<open>32 producers on a queue for one element, in any order: the first is let in, the others are not.\<close>

lemma full_queue_refuses:
  "dequeue q = [x] \<Longrightarrow> maximum_size q = 1 \<Longrightarrow>
   responses_of int_queue (map Try_push_back xs) q = replicate (length xs) (R_bool False)"
  by (induction xs) (simp_all add: queue_test_defs)

lemma ConcurrentTryPushRespectsMaximumSize:
  assumes "xs \<noteq> []"
  shows "responses_of int_queue (map Try_push_back xs) (new_queue 1 0) =
    R_bool True # replicate (length xs - 1) (R_bool False)"
proof -
  obtain x ys where xs: "xs = x # ys" using assms by (cases xs) auto
  have q: "call int_queue (Try_push_back x) (new_queue 1 0) = (R_bool True, Notify_one, (new_queue 1 0)\<lparr>dequeue := [x]\<rparr>)"
    by (simp add: queue_test_defs)
  show ?thesis using full_queue_refuses [of "(new_queue 1 0)\<lparr>dequeue := [x]\<rparr>" x ys]
    by (simp add: xs q del: call.simps) (simp add: new_queue_def)
qed

section \<open>\<open>thread_safe_map_test.cpp\<close>\<close>

lemmas map_test_defs = map_insert_def emplace_def get_def try_get_def erase_def contains_def map_size_def map_empty_def
  map_extract_def snapshot_def

lemma InsertAndGet:
  "fst (run_map table_call [M_insert ''alice'' (42 :: int), M_contains ''alice'', M_get ''alice'', M_size, M_empty] []) =
   [A_unit, A_bool True, A_value (Inr 42), A_count 1, A_bool False]"
  by (simp add: map_test_defs)

lemma InsertReplacesExistingValue:
  "fst (run_map table_call [M_insert ''alice'' (10 :: int), M_insert ''alice'' 20, M_get ''alice'', M_size] []) =
   [A_unit, A_unit, A_value (Inr 20), A_count 1]"
  by (simp add: map_test_defs)

lemma EmplaceDoesNotReplaceExistingValue:
  "fst (run_map table_call [M_emplace ''alice'' (10 :: int), M_emplace ''alice'' 20, M_get ''alice''] []) =
   [A_bool True, A_bool False, A_value (Inr 10)]"
  by (simp add: map_test_defs)

lemma TryGetReportsMissingKeys:
  "fst (run_map table_call [M_try_get ''missing'' (0 :: int), M_insert ''alice'' 42, M_try_get ''alice'' 0] []) =
   [A_found False 0, A_unit, A_found True 42]"
  by (simp add: map_test_defs)

lemma EraseRemovesKey:
  "fst (run_map table_call [M_insert ''alice'' (42 :: int), M_erase ''alice'', M_contains ''alice'', M_erase ''alice''] []) =
   [A_unit, A_bool True, A_bool False, A_bool False]"
  by (simp add: map_test_defs)

lemma LockedValueCanModifyStoredObject:
  "map_option history (run_threads [0, 0, 0, 0, 0]
     (new_map_threads [(''counter'', 1 :: int)] (\<lambda>_. [With_locked ''counter'' (\<lambda>_. 42), Run (M_get ''counter'')]))) =
   Some [(0, With_locked ''counter'' (\<lambda>_. 42), A_found False 1), (0, Run (M_get ''counter''), A_value (Inr 42))]"
  by (simp add: new_map_threads_def map_thread_step_def get_locked_def unlocked_def new_locked_value_def
      Thread_Safe_Map.deref_def Let_def map_test_defs)

lemma ExtractReturnsAndRemovesValue:
  "fst (run_map table_call [M_insert ''alice'' (42 :: int), M_extract ''alice'', M_contains ''alice''] []) =
   [A_unit, A_value (Inr 42), A_bool False]"
  by (simp add: map_test_defs)

lemma SnapshotContainsCurrentState:
  "fst (run_map table_call [M_insert ''alice'' (1 :: int), M_insert ''bob'' 2, M_snapshot] []) =
   [A_unit, A_unit, A_map [''alice'' \<mapsto> 1, ''bob'' \<mapsto> 2]]"
  by (simp add: map_test_defs fun_eq_iff)

lemma MissingKeyOperations:
  "fst (run_map table_call [M_contains (1 :: int), M_erase 1, M_try_get 1 (0 :: int)] []) =
     [A_bool False, A_bool False, A_found False 0] \<and>
   fst (get_locked t 1 (unlocked [])) = Inl (Runtime_error ''Key not found - thread_safe_map'')"
  by (simp add: map_test_defs get_locked_def unlocked_def)

lemma MissingKeyThrows:
  "fst (run_map table_call [M_get (42 :: int), M_extract 42] []) =
   [A_value (Inl (Runtime_error ''Key not found - thread_safe_map'')), A_value (Inl (Runtime_error ''Key not found''))]"
  by (simp add: map_test_defs)

text \<open>Insertions of values that depend on their keys, in any order.\<close>

lemma ConcurrentInsertsRemainConsistent:
  fixes f :: "'k \<Rightarrow> 'v"
  shows "map_of (snd (run_map table_call (map (\<lambda>k. M_insert k (f k)) ks) [])) = (\<lambda>k. if k \<in> set ks then Some (f k) else None)"
proof -
  have "snd (run_map dict_call (map (\<lambda>k. M_insert k (f k)) ks) d) = (\<lambda>k. if k \<in> set ks then Some (f k) else d k)"
    for d :: "'k \<rightharpoonup> 'v"
    by (induction ks arbitrary: d) (auto simp: split_beta)
  then show ?thesis using tsm.run_refines [of "[]" "map (\<lambda>k. M_insert k (f k)) ks"] by (simp add: table_inv_def)
qed

text \<open>
  Threads that insert keys and erase each again, in any order in which the last call for a key is an
  erasure, leave an empty map.
\<close>

fun touches :: "'k \<Rightarrow> ('k, 'v) map_call \<Rightarrow> bool" where
  "touches k (M_insert k' v) = (k' = k)"
| "touches k (M_erase k') = (k' = k)"
| "touches k _ = False"

lemma run_map_snoc: "snd (run_map step (cs @ [c]) s) = snd (step c (snd (run_map step cs s)))"
  by (induction cs arbitrary: s) (simp_all add: split_beta)

lemma ConcurrentInsertAndErase:
  assumes "\<forall>c \<in> set cs. \<exists>k v. c = M_insert k v \<or> c = M_erase k"
    and "\<forall>k. filter (touches k) cs \<noteq> [] \<longrightarrow> last (filter (touches k) cs) = M_erase k"
  shows "snd (run_map table_call cs []) = []"
proof -
  have "filter (touches k) cs = [] \<or> last (filter (touches k) cs) = M_erase k \<Longrightarrow>
      snd (run_map dict_call cs Map.empty) k = None" for k
    using assms(1)
  proof (induction cs rule: rev_induct)
    case (snoc c cs)
    then obtain k' v where "c = M_insert k' v \<or> c = M_erase k'" by auto
    with snoc show ?case by (auto simp: run_map_snoc split: if_splits)
  qed simp
  then have "snd (run_map dict_call cs Map.empty) = Map.empty" using assms(2) by blast
  then have "map_of (snd (run_map table_call cs [])) = Map.empty"
    using tsm.run_refines [of "[]" cs] by (simp add: table_inv_def)
  then show ?thesis by simp
qed

text \<open>16 threads extract one key: one gets the value, the others an exception.\<close>

lemma extract_missing:
  "map_of m k = None \<Longrightarrow>
   run_map table_call (replicate n (M_extract k)) m = (replicate n (A_value (Inl (Runtime_error ''Key not found''))), m)"
  by (induction n) (simp_all add: map_extract_def)

lemma ConcurrentExtractSameKey:
  "fst (run_map table_call (replicate (Suc n) (M_extract k)) [(k, v)]) =
     A_value (Inr v) # replicate n (A_value (Inl (Runtime_error ''Key not found''))) \<and>
   snd (run_map table_call (replicate (Suc n) (M_extract k)) [(k, v)]) = []"
  by (simp add: map_extract_def extract_missing)

text \<open>8 threads increment one element 10000 times each through locked values.\<close>

lemma ConcurrentUpdatesToSameKey:
  assumes "run_threads ts (new_map_threads [(0 :: int, 0)] (\<lambda>t. if t < 8 then adds 0 (replicate 10000 1) else [])) = Some s"
    and "all_done s"
  shows "map_of (map_contents s) 0 = Some (8 * 10000)"
  using adds_all_counted [OF assms, of 8 0 "\<lambda>_. replicate 10000 1" 0] by (simp add: sum_list_replicate)

section \<open>\<open>rate_limiter_test.cpp\<close>\<close>

text \<open>
  The tests that do not sleep, with all calls at one clock reading, in exact arithmetic, and the
  one that sleeps for a tenth of a second.
\<close>

abbreviation admitted_all :: "string limiter_call list \<Rightarrow> rate_limiter outcome \<Rightarrow> (string \<times> real) list outcome" where
  "admitted_all cs limiter \<equiv> map_sum id (\<lambda>rl. fst (run_limiter (consume id) (cleanup id) cs rl)) limiter"

lemmas limiter_test_defs = new_rate_limiter_def consume_def duration_seconds_def Let_def

lemma RejectsInvalidConfiguration:
  "new_rate_limiter 0 1 120 = Inl (Invalid_argument ''max_tokens of rate_limiter must be positive'')"
  "new_rate_limiter 1 0 120 = Inl (Invalid_argument ''refill_rate of rate_limiter must be positive'')"
  by (simp_all add: limiter_test_defs)

lemma AllowsInitialBurst:
  "admitted_all (replicate 4 (Consume 0 ''client'' 1)) (new_rate_limiter 3 1 120) = Inr (replicate 3 (''client'', 1))"
  by (simp add: limiter_test_defs numeral_eq_Suc)

lemma DifferentIdentifiersHaveIndependentBuckets:
  "admitted_all [Consume 0 ''alice'' 1, Consume 0 ''bob'' 1, Consume 0 ''alice'' 1, Consume 0 ''bob'' 1]
     (new_rate_limiter 1 1 120) = Inr [(''alice'', 1), (''bob'', 1)]"
  by (simp add: limiter_test_defs)

lemma RejectsInvalidCost:
  "admitted_all [Consume 0 ''client'' 0, Consume 0 ''client'' (- 1), Consume 0 ''client'' 4] (new_rate_limiter 3 1 120) = Inr []"
  by (simp add: limiter_test_defs)

lemma TokensRefillOverTime:
  "admitted_all [Consume 0 ''client'' 1, Consume 0 ''client'' 1, Consume 100000000 ''client'' 1] (new_rate_limiter 1 20 120) =
   Inr [(''client'', 1), (''client'', 1)]"
  by (simp add: limiter_test_defs)

section \<open>\<open>data_structures_test.cpp\<close>\<close>

text \<open>
  Boards on an empty directory; \<open>alice\<close>, \<open>bob\<close> and \<open>charlie\<close> come at the times 1, 2 and 3. The
  uninitialised members of a candidate are arbitrary.
\<close>

lemmas leaderboard_test_defs = new_leaderboard_def load_def submit_score_def add_player_def update_score_def
  remove_last_def get_top_scores_def board_size_def key_comp_def leaderboard_entry_ptr_comparator_def
  leaderboard_entry_comparator_def Leaderboard.deref_def save_def saved_item_def write_document_def fair_weather_def
  plain_json_lib_def DEFAULT_MAX_LEADERBOARD_SIZE_def Let_def

abbreviation leaderboard_after ::
    "(time_s \<times> (time_s \<times> u64) \<times> string \<times> int) list \<Rightarrow> size_t \<Rightarrow> (json, int leaderboard) board_world outcome" where
  "leaderboard_after cs msize \<equiv> board_steps (leaderboard_class plain_json_lib) (map Change cs)
     (opened (new_leaderboard plain_json_lib Map.empty ''leaderboard.json'' msize True) Map.empty)"

lemma RanksHighestScoreFirst:
  "map_sum id (\<lambda>w. map_sum id (map (\<lambda>e. (name e, score e))) (get_top_scores 2 (board w)))
     (leaderboard_after [(1, junk, ''alice'', 100), (2, junk', ''bob'', 200)] DEFAULT_MAX_LEADERBOARD_SIZE) =
   Inr (Inr [(''bob'', 200), (''alice'', 100)])"
  by (simp add: leaderboard_test_defs leaderboard_class_def)


lemma WorseScoreDoesNotReplaceExistingScore:
  "case leaderboard_after [(1, junk, ''alice'', 100)] DEFAULT_MAX_LEADERBOARD_SIZE of
     Inl e \<Rightarrow> False
   | Inr w \<Rightarrow> (case submit_score 2 junk ''alice'' 50 (board w) of
         Inl e \<Rightarrow> False
       | Inr ((position, previous), b) \<Rightarrow>
           position = None \<and> map_sum id (map score) (get_top_scores 1 b) = Inr [100])"
  by (simp add: leaderboard_test_defs leaderboard_class_def)

lemma CapacityRejectsScoresBelowWorst:
  "case leaderboard_after [(1, junk, ''alice'', 100), (2, junk, ''bob'', 200)] 2 of
     Inl e \<Rightarrow> False
   | Inr w \<Rightarrow> (case submit_score 3 junk ''charlie'' 50 (board w) of
         Inl e \<Rightarrow> False
       | Inr ((position, previous), b) \<Rightarrow> position = None \<and> board_size b = 2)"
  by (simp add: leaderboard_test_defs leaderboard_class_def)

lemma LeaderboardSavesAndReloads:
  "case leaderboard_after [(1, junk, ''alice'', 100), (2, junk, ''bob'', 200)] DEFAULT_MAX_LEADERBOARD_SIZE of
     Inl e \<Rightarrow> False
   | Inr w \<Rightarrow> (case save plain_json_lib fair_weather (board w) (disk w) of
         (ok, fs) \<Rightarrow> ok \<and> map_sum id (map (\<lambda>e. (name e, score e)))
           (get_top_scores 2 (new_leaderboard plain_json_lib fs ''leaderboard.json'' DEFAULT_MAX_LEADERBOARD_SIZE True)) =
             Inr [(''bob'', 200), (''alice'', 100)])"
  by (simp add: leaderboard_test_defs leaderboard_class_def temp_path_def)

lemmas nameboard_test_defs = new_nameboard_def load_nameboard_def empty_nameboard_def add_name_def append_entry_def
  Nameboard.contains_def nameboard_size_def node_at_def entry_ptr_comparator_def entry_comparator_def
  save_names_def saved_name_def write_document_def fair_weather_def plain_json_lib_def temp_path_def DEFAULT_MAX_NAMEBOARD_SIZE_def
  Let_def

definition names_after :: "(time_s \<times> string) list \<Rightarrow> size_t \<Rightarrow> nameboard" where
  "names_after cs msize = fold (\<lambda>(now, nm) b. snd (add_name now nm b)) cs
     (new_nameboard plain_json_lib Map.empty ''names.json'' msize)"

lemma AddsAndRanksNames:
  "fst (add_name 1 ''alice'' (names_after [] DEFAULT_MAX_NAMEBOARD_SIZE)) \<noteq> None"
  "fst (add_name 2 ''bob'' (names_after [(1, ''alice'')] DEFAULT_MAX_NAMEBOARD_SIZE)) \<noteq> None"
  "Nameboard.contains ''alice'' (names_after [(1, ''alice''), (2, ''bob'')] DEFAULT_MAX_NAMEBOARD_SIZE)"
  "Nameboard.contains ''bob'' (names_after [(1, ''alice''), (2, ''bob'')] DEFAULT_MAX_NAMEBOARD_SIZE)"
  "nameboard_size (names_after [(1, ''alice''), (2, ''bob'')] DEFAULT_MAX_NAMEBOARD_SIZE) = 2"
  by (simp_all add: names_after_def nameboard_test_defs)

lemma NameboardEnforcesMaximumSize:
  "nameboard_size (names_after [(1, ''alice''), (2, ''bob''), (3, ''charlie'')] 2) = 2"
  by (simp add: names_after_def nameboard_test_defs)

lemma NameboardSavesAndReloads:
  "case save_names plain_json_lib fair_weather (names_after [(1, ''alice''), (2, ''bob'')] DEFAULT_MAX_NAMEBOARD_SIZE) Map.empty of
     (ok, fs) \<Rightarrow> ok \<and>
       (let b = new_nameboard plain_json_lib fs ''names.json'' DEFAULT_MAX_NAMEBOARD_SIZE
        in Nameboard.contains ''alice'' b \<and> Nameboard.contains ''bob'' b \<and> nameboard_size b = 2)"
  by (simp add: names_after_def nameboard_test_defs)

lemmas stream_test_defs = new_score_stream_def load_stream_def empty_stream_def ss_submit_score_def trim_back_take
  ss_get_all_def stream_size_def save_stream_def saved_score_def write_document_def fair_weather_def plain_json_lib_def
  temp_path_def DEFAULT_MAX_SCORE_STREAM_SIZE_def Let_def

definition stream_after :: "(time_s \<times> string \<times> int) list \<Rightarrow> size_t \<Rightarrow> int score_stream" where
  "stream_after cs msize = ss_submit_all cs (new_score_stream plain_json_lib Map.empty ''scores.json'' msize)"

lemma NewScoresAppearAtFront:
  "map (\<lambda>e. (name e, stream_score e)) (ss_get_all (stream_after [(1, ''alice'', 100), (2, ''bob'', 200)] DEFAULT_MAX_SCORE_STREAM_SIZE)) =
   [(''bob'', 200), (''alice'', 100)]"
  by (simp add: stream_after_def stream_test_defs)

lemma ScoreStreamEnforcesMaximumSize:
  "stream_size (stream_after [(1, ''alice'', 100), (2, ''bob'', 200), (3, ''charlie'', 300)] 2) = 2"
  "map stream_score (ss_get_all (stream_after [(1, ''alice'', 100), (2, ''bob'', 200), (3, ''charlie'', 300)] 2)) = [300, 200]"
  by (simp_all add: stream_after_def stream_test_defs)

lemma ScoreStreamSavesAndReloads:
  "case save_stream plain_json_lib fair_weather (stream_after [(1, ''alice'', 100), (2, ''bob'', 200)] DEFAULT_MAX_SCORE_STREAM_SIZE) Map.empty of
     (ok, fs) \<Rightarrow> ok \<and> map stream_score (ss_get_all (new_score_stream plain_json_lib fs ''scores.json'' DEFAULT_MAX_SCORE_STREAM_SIZE)) = [200, 100]"
  by (simp add: stream_after_def stream_test_defs)

end
