(* ===== verification/Logger.thy ===== *)
theory Logger
  imports Main
begin

text \<open>
  \<open>logger.hpp\<close>: the temporary \<open>log_debug()\<close> of a log statement writes a prefix when it is
  constructed, the values shifted into it, and a line break when it is destroyed, all of it only
  in a build with \<open>DEBUG_MODE\<close>. The console is the text written so far; how a value is
  formatted is the stream's business, so values are given as their text.
\<close>

definition log_begin :: "bool \<Rightarrow> string \<Rightarrow> string" where
  "log_begin debug_mode console = (if debug_mode then console @ ''<Debug> '' else console)"

definition log_value :: "bool \<Rightarrow> string \<Rightarrow> string \<Rightarrow> string" where
  "log_value debug_mode val console = (if debug_mode then console @ val else console)"

definition log_end :: "bool \<Rightarrow> string \<Rightarrow> string" where
  "log_end debug_mode console = (if debug_mode then console @ ''\<newline>'' else console)"

text \<open>A statement \<open>log_debug() << v1 << ... << vn\<close>.\<close>

definition log_statement :: "bool \<Rightarrow> string list \<Rightarrow> string \<Rightarrow> string" where
  "log_statement debug_mode vals console =
     log_end debug_mode (foldl (\<lambda>out v. log_value debug_mode v out) (log_begin debug_mode console) vals)"

lemma log_values: "foldl (\<lambda>out v. log_value debug_mode v out) console vals =
    console @ (if debug_mode then concat vals else [])"
  by (induction vals arbitrary: console) (simp_all add: log_value_def)

text \<open>
  A log statement appends one line, the prefix followed by its values in order, and in a build
  without \<open>DEBUG_MODE\<close> it has no effect.
\<close>

lemma log_statement_line:
  "log_statement debug_mode vals console =
     console @ (if debug_mode then ''<Debug> '' @ concat vals @ ''\<newline>'' else [])"
  by (simp add: log_statement_def log_values log_begin_def log_end_def)

end
