(* ===== verification/Spec2Isabelle.thy ===== *)
theory Spec2Isabelle
  imports Queue_Exceptions File_Helper Limiter_Thread Request_Service Broadcast_Server Server_Construction
    Conformance Logger
begin

text \<open>
  A model of \<open>server-simple\<close>, a header-only C++ library of building blocks for small network
  servers (\<open>src/src\<close> in the repository), with the theorems that make its parts correct.

  \<^bold>\<open>The program.\<close> Three groups of classes. Concurrent data structures: a bounded blocking queue
  (\<open>thread_safe_queue.hpp\<close>), a locked hash map (\<open>thread_safe_unordered_map.hpp\<close>,
  \<open>locked_value.hpp\<close>). Persistent boards: \<open>leaderboard.hpp\<close>, \<open>nameboard.hpp\<close> and
  \<open>score_stream.hpp\<close> over the entries of \<open>entry.hpp\<close>, saved as JSON, with the path helper
  \<open>file_helper.hpp\<close>. Networking: the HTTP request server (\<open>request_server_base.hpp\<close>,
  \<open>http_connection.hpp\<close>, \<open>http_parser.hpp\<close>, \<open>rate_limiter.hpp\<close>) and the websocket server
  (\<open>persistent_server_base.hpp\<close>, \<open>websocket_connection.hpp\<close>) over \<open>server_base.hpp\<close>. The
  queue is where they meet: connections push request tasks into it and worker threads pop them;
  websocket sessions push incoming packets into it.

  \<^bold>\<open>Theories and what they model.\<close>
  \<^item> \<open>Prelude\<close>: machine types, exceptions, outcomes, lemmas on lists, strings and 64-bit words.
  \<^item> \<open>Thread_Safe_Queue\<close>: the record of the queue's members and one function per member, with
    \<open>size_t\<close> counters as 64-bit words. Shown: the byte counter is the sum of the queued sizes
    after any calls, the limits hold without overflow, admission is exact, order is first in
    first out, a stopped queue drains. Its contract towards producers and consumers is the locale
    \<open>bounded_fifo\<close>, interpreted on the model as \<open>tsq\<close>.
  \<^item> \<open>Queue_Waiting\<close>: the queue's condition variable as a step relation over threads that block,
    are notified or wake spuriously; no wake-up is lost, except through \<open>replace\<close>, and a
    queued item reaches a waiting consumer by notifications already pending; the destructor.
    \<open>Queue_Exceptions\<close>: the members when an insertion throws; bytes counted for it are lost.
  \<^item> \<open>Thread_Safe_Map\<close>: the members of the map against an abstract dictionary (locale
    \<open>dictionary\<close>, interpretation \<open>tsm\<close>), and the map with its mutex and \<open>locked_value\<close>s as a
    step relation. \<open>Map_Threads\<close>: threads that work through jobs on one map, members, blocks on a
    locked element, and \<open>for_each\<close> with callbacks that may throw or call the map. The mutex is a word
    of the state that a job takes and a \<open>locked_value\<close> keeps while it owns the lock; that only one
    thread is inside a job is proved from that. Every interleaving is equivalent to running the
    jobs one by one, no update through a locked element is lost, whatever function it applies, and
    a callback that calls the map freezes it.
  \<^item> \<open>Ordered_Multiset\<close>, \<open>Entry\<close>: \<open>std::multiset\<close> as a sorted list with insertion after equal
    elements, its comparators as locales of strict orders, the entries of the boards and their
    comparators (interpretations \<open>entry_order\<close>, \<open>leaderboard_order\<close>).
  \<^item> \<open>Json_Store\<close>: JSON documents, the calls into \<open>nlohmann::json\<close> as a parameter with its
    documented round-trip laws, a file system and the write-then-rename sequence of the saves.
  \<^item> \<open>Leaderboard\<close>, \<open>Nameboard\<close>, \<open>Score_Stream\<close>: the three boards, with pointers as keys or
    node addresses. Shown: every update refines an update of a sorted list of entries (or of the
    list of latest entries), the well-formedness invariants, the returned positions, save/load
    round trips (of a leaderboard's order only when it ranks the highest score first), all-or-nothing loads, and the cases in which the code departs from its intent.
  \<^item> \<open>Saved_Board\<close>, \<open>Board_History\<close>: a board and its file over any sequence of calls. The locales
    \<open>board_file\<close> and \<open>board_life\<close> state what the saves, loads and submissions of a board promise,
    and give that the file is always the last complete save and that the invariant holds all the
    board's life; the three boards interpret them, and a nameboard's names stay unique unless
    another program writes a file with duplicates.
  \<^item> \<open>File_Helper\<close>: file-name validation and path construction over POSIX paths; accepted names
    cannot leave the directory, and (below) no save touches another board's file.
  \<^item> \<open>Rate_Limiter\<close>: the token bucket over real numbers with a rounding parameter; in exact
    arithmetic it implements the contract \<open>token_bucket\<close> (interpretation \<open>rl\<close>), from which the
    admission bound and the invisibility of cleanups follow, when idle buckets refill before they
    are swept. \<open>Ieee_Double\<close>: rounding to the nearest IEEE double, with subnormal numbers, and its
    error. \<open>Limiter_Rounding\<close>: the bound under floating-point rounding, by a potential function.
    \<open>Limiter_Doubles\<close>: the limiter over doubles with infinities and NaN, which on numbers refines
    the former, overflow included, and which a NaN capacity or rate switches off. \<open>Limiter_Thread\<close>: the cleanup thread and the
    destructor as a step relation; the destructor returns, though its notification may be lost.
  \<^item> \<open>Http_Parser\<close>: the query parser against a split-based specification and a printer; the
    functions that fill in responses, over the members of Beast messages as a parameter.
  \<^item> \<open>Server_Base\<close>: the I/O context, its thread and the stop sequence of \<open>server_base.hpp\<close> as a
    transition system, with the locale \<open>stoppable_server\<close>: a server whose events project to base
    events. Both servers interpret it (\<open>rqs\<close>, \<open>pss\<close>): stopping happens once and in order, no
    handler runs after the context has been joined, the queue is stopped.
  \<^item> \<open>Http_Connection\<close>, \<open>Request_Server\<close>: the handlers of a connection as functions on its state;
    accept handler, workers and stop sequence as an event-driven transition system whose runs
    are all interleavings. Shown for every run: responses leave in request order, no request is
    lost, a server at rest has answered everything, nothing follows a closing response, the
    backlog is bounded, tasks are served first in first out over all connections, a refused
    request ends the reading of its connection, accepting is rate limited.
    \<open>Request_Shutdown\<close>: stopping terminates and can complete when an application thread stops the
    server and no thread waits in \<open>join_context_thread\<close>; a worker that stops the server joins
    itself. \<open>Request_Waiting\<close>: the server composed with the condition
    variable of its queue, as a system that refines \<open>Request_Server\<close> and whose queue and sleepers
    are a run of \<open>Queue_Waiting\<close>; from any state its own steps, each of which reduces a
    well-founded order, lead to one in which everything has been answered. \<open>Request_Service\<close>: the
    service as its clients see it, an abstract specification that the server refines.
  \<^item> \<open>Websocket_Session\<close>, \<open>Persistent_Server\<close>, \<open>Persistent_Service\<close>: the same for websocket
    sessions, the update thread and broadcasts, whose loops run iteration by iteration beside
    each other and the accept handler; an insertion into \<open>active_sessions\<close> during the loop is a data race and
    recorded as a fault. Shown: messages are delivered in order, a broadcast reaches every session
    once, every message can be delivered on a session whose handshake has completed and whose stream
    is open, packets reach the application in order, a flooding session is cut off, stopping
    completes when an application thread stops the server and no thread waits in
    \<open>join_context_thread\<close>. A write succeeds only if it was started after the handshake, as Beast
    requires, and the stream is still open.
  \<^item> \<open>Broadcast_Server\<close>: an application of the websocket server, whose \<open>update\<close> broadcasts what the
    clients send; composed with the server it relays every packet to every session, in order.
  \<^item> \<open>Server_Construction\<close>: constructing and launching the servers when a thread cannot be created.
  \<^item> \<open>Logger\<close>: a log statement as the line it writes.
  \<^item> \<open>Conformance\<close>: the repository's unit tests replayed on the model.

  \<^bold>\<open>Conventions.\<close> A \<open>throw\<close> is the left summand of an outcome; undefined behaviour is such a
  value too. Members that hold a mutex for their whole body are atomic. What the operating
  system, the clock or the network decides is an argument (clock readings, error codes,
  \<open>io_outcomes\<close>) or an event. Runs are finite event lists of any length; the hypothesis
  \<open>length es < 2 ^ 64\<close> keeps the 64-bit sequence numbers of a connection from wrapping around. No
  definition uses fuel: every loop is structural or has a measure.

  Hash tables iterate in the order of insertion, where the library leaves the order open; only a
  \<open>for_each\<close> whose callback throws could tell. Files are identified by the strings of their paths:
  two spellings of one path are two files. \<open>new_next_id\<close> of the loads, an \<open>int64_t\<close> in the source, is a
  64-bit word like the member it is stored in; the two differ only beyond \<open>2 ^ 63\<close> entries. The frame
  time of the websocket server is a real number, so a NaN there is left out.

  A run ends when an exception leaves a thread or \<open>std::terminate\<close> is called (\<open>aborted\<close>,
  \<open>fault\<close>, \<open>failure\<close>). After \<open>io_context::stop\<close> handlers may complete until \<open>run\<close> returns. Liveness
  is stated as the existence of a continuation, or as a measure that every step of the threads
  concerned reduces; no scheduler fairness is assumed.

  \<^bold>\<open>Not modelled.\<close> The code of Boost and \<open>nlohmann::json\<close> (parameters and events), the text of error
  messages on the console, the application's overrides of the virtual functions (parameters or
  arbitrary calls), an application that catches the exception of a \<open>stop\<close> in which a thread joins
  itself or goes on after a \<open>launch\<close> that threw (beyond launching again), failures to allocate memory
  outside the queue's insertions, the destruction of a derived server while its threads still call
  its virtual functions, the benchmarks and the echo server of the tests. What remains of the sources has no behaviour of its
  own: comments, declarations, type aliases and deleted members.
\<close>

section \<open>Persistence of the three boards\<close>

text \<open>
  Saving is all or nothing for all three boards: whatever the operating system answers, a
  save that reports success has replaced the board's file by the complete document and left no
  temporary file, a save that reports failure has left the board's file as it was, and in no
  case is a file touched other than these two.
\<close>

theorem saves_all_or_nothing:
  "all_or_nothing lib (file_path b)
     (JArray (map (\<lambda>p. saved_item lib (Leaderboard.deref (entries b) p)) (ranking b))) fs (save lib io b fs) \<and>
   all_or_nothing lib (nb_file_path nb)
     (JArray (map (\<lambda>a. saved_name (node_at (nodes nb) a)) (nb_ranking nb))) fs (save_names lib io nb fs) \<and>
   all_or_nothing lib (ss_file_path ss)
     (JArray (map (saved_score lib) (rev (ss_get_all ss)))) fs (save_stream lib io ss fs)"
  by (simp add: save_def save_names_def save_stream_def write_document_all_or_nothing)

text \<open>
  C40: Boards do not disturb each other's files: two boards, of whatever kind, whose paths come
  from \<open>file_helper::get_file_path\<close> and differ, can save in any way, with any failures of the
  operating system, without the one changing the file of the other. The temporary file of a
  save is never another board's file.
\<close>

theorem saves_do_not_interfere:
  assumes "get_file_path mkdirs dir sub f = (ds, Inr p) \<or> get_file_path_flat mkdirs dir f = (ds, Inr p)"
    and "p \<noteq> file_path b" and "p \<noteq> nb_file_path nb" and "p \<noteq> ss_file_path ss"
  shows "snd (save lib io b fs) p = fs p \<and> snd (save_names lib io nb fs) p = fs p \<and>
    snd (save_stream lib io ss fs) p = fs p"
proof -
  obtain stem where "p = stem @ ''.json''" using get_file_path_suffix assms(1) by blast
  then have "p \<noteq> temp_path q" for q
    by (auto simp: temp_path_def dest: arg_cong [of _ _ rev])
  then have "snd (write_document lib io q j fs) p = fs p" if "p \<noteq> q" for q j
    using write_document_outcome(3) [of lib io q j fs "fst (write_document lib io q j fs)" _ p] that by simp
  with assms(2-4) show ?thesis by (simp add: save_def save_names_def save_stream_def)
qed

lemma saves_do_not_interfere_witness:
  "snd (save plain_json_lib fair_weather (empty_board 2 True ''boards/a.json'') [''boards/b.json'' \<mapsto> JArray []])
     ''boards/b.json'' = Some (JArray [])"
proof -
  let ?nb = "empty_nameboard ''names.json'' 2" and ?ss = "empty_stream ''scores.json'' 2"
  have path: "get_file_path_flat (\<lambda>_. None) ''boards'' ''b'' = ([''boards''], Inr ''boards/b.json'')"
    by code_simp
  from saves_do_not_interfere [OF disjI2 [OF path], of "empty_board 2 True ''boards/a.json''" ?nb ?ss
      plain_json_lib fair_weather "[''boards/b.json'' \<mapsto> JArray []]"]
  show ?thesis by (simp add: empty_board_def empty_stream_def)
qed

text \<open>
  A leaderboard, a nameboard and a score stream whose files \<open>get_file_path\<close> puts into the
  subdirectory named for their kind never share a file, whatever their names and their parent
  directories.
\<close>

lemma board_kinds_apart:
  assumes "get_file_path mk1 d1 LEADERBOARDS_SUBDIRECTORY_NAME f1 = (ds1, Inr p1)"
    and "get_file_path mk2 d2 NAMEBOARDS_SUBDIRECTORY_NAME f2 = (ds2, Inr p2)"
    and "get_file_path mk3 d3 SCORE_STREAM_SUBDIRECTORY_NAME f3 = (ds3, Inr p3)"
  shows "distinct [p1, p2, p3]"
  using subdirectories_apart [OF assms(1,2)] subdirectories_apart [OF assms(1,3)] subdirectories_apart [OF assms(2,3)]
  by (simp add: LEADERBOARDS_SUBDIRECTORY_NAME_def NAMEBOARDS_SUBDIRECTORY_NAME_def SCORE_STREAM_SUBDIRECTORY_NAME_def)

section \<open>The defaults\<close>

text \<open>
  With the default parameters (50 connections per address, one every two seconds, idle buckets
  swept after 120 seconds) idle buckets refill before they are swept, so the bounds on
  accepted connections apply.
\<close>

lemma default_limiter_refills:
  "new_default_request_server bind_error = Inr s \<Longrightarrow> refills_while_idle (ip_rate_limiter s)"
  by (auto simp: new_default_request_server_def new_request_server_def new_server_base_def new_rate_limiter_def
      refills_while_idle_def DEFAULT_MAX_IP_RATE_TOKENS_def DEFAULT_IP_TOKEN_REFILL_RATE_def
      split: option.splits)

text \<open>
  The constructors with default arguments succeed unless binding the port fails, and the default
  capacities of the boards are ones for which their properties hold.
\<close>

lemma default_servers_construct:
  "(\<exists>s. new_default_request_server bind_error = Inr s) \<longleftrightarrow> bind_error = None"
  "(\<exists>s. new_default_persistent_server bind_error = Inr s) \<longleftrightarrow> bind_error = None"
  by (auto simp: new_default_request_server_def new_request_server_def new_default_persistent_server_def
      new_persistent_server_def new_server_base_def new_rate_limiter_def
      DEFAULT_MAX_IP_RATE_TOKENS_def DEFAULT_IP_TOKEN_REFILL_RATE_def split: option.splits)

lemma default_capacities:
  "DEFAULT_MAX_LEADERBOARD_SIZE \<noteq> 0" "DEFAULT_MAX_LEADERBOARD_SIZE \<noteq> - 1"
  "DEFAULT_MAX_NAMEBOARD_SIZE \<noteq> 0" "DEFAULT_MAX_NAMEBOARD_SIZE \<noteq> - 1"
  "DEFAULT_MAX_SCORE_STREAM_SIZE \<noteq> 0" "DEFAULT_MAX_SCORE_STREAM_SIZE \<noteq> - 1"
  by (simp_all add: DEFAULT_MAX_LEADERBOARD_SIZE_def DEFAULT_MAX_NAMEBOARD_SIZE_def DEFAULT_MAX_SCORE_STREAM_SIZE_def)

end
